(* ===== verification/Prelude.thy ===== *)
theory Prelude
  imports Main "HOL-Library.Word"
begin

unbundle bit_operations_syntax

section \<open>Shared vocabulary of the rawdishfs development\<close>

text \<open>
  The machine types of the C++ sources, the ways an execution can go wrong, the raw
  \<open>new[]\<close> buffers the code reads and writes, little-endian 32-bit fields and the C view
  of a \<open>std::string\<close>, with the lemmas that every component theory uses.

  An execution that the C++ abstract machine leaves undefined (an access outside a buffer, a
  read of a byte nobody wrote, a use of a freed object, a division by zero, a null
  dereference) or that throws is a value of \<open>cerror\<close>; every operation of the model that
  can meet one returns a value of type \<open>'a res\<close>.
\<close>

named_theorems res_simps \<open>evaluation of the error-threading combinators\<close>
named_theorems buf_simps \<open>reads and writes of raw buffers\<close>

type_synonym u8 = "8 word"
type_synonym u16 = "16 word"
type_synonym u32 = "32 word"
type_synonym u64 = "64 word"
type_synonym i32 = "32 word" \<comment> \<open>a C \<open>int\<close>; read with \<open>sint\<close>\<close>
type_synonym bytes = "u8 list"

datatype cerror =
    NullDeref
  | OutOfBounds
  | UninitRead
  | UseAfterFree
  | DivByZero
  | SignedOverflow
  | BadAlloc
  | UncaughtException
  | MissingReturn \<comment> \<open>a function that returns a value ends without one\<close>
  | CheckFailed \<comment> \<open>a \<open>CHECK\<close> of glog, which aborts the program\<close>
  | NeverSet \<comment> \<open>a caller waits for a future that is never set\<close>

type_synonym 'a res = "cerror + 'a"

subsection \<open>Threading errors\<close>

definition rbind :: "'a res \<Rightarrow> ('a \<Rightarrow> 'b res) \<Rightarrow> 'b res" where
  "rbind r f = (case r of Inl e \<Rightarrow> Inl e | Inr a \<Rightarrow> f a)"

lemma rbind_simps [simp, res_simps]:
  "rbind (Inl e) f = Inl e"
  "rbind (Inr a) f = f a"
  by (simp_all add: rbind_def)

lemma rbind_Inr_iff: "rbind r f = Inr b \<longleftrightarrow> (\<exists>a. r = Inr a \<and> f a = Inr b)"
  by (cases r) auto

lemma rbind_Inl_iff: "rbind r f = Inl e \<longleftrightarrow> r = Inl e \<or> (\<exists>a. r = Inr a \<and> f a = Inl e)"
  by (cases r) auto

lemma rbind_assoc: "rbind (rbind r f) g = rbind r (\<lambda>x. rbind (f x) g)"
  by (cases r) auto

lemma rbind_Inr_right [simp]: "rbind r Inr = r"
  by (cases r) auto

text \<open>Running one fallible operation over the elements of a list, stopping at an error.\<close>

fun rfold :: "('s \<Rightarrow> 'a \<Rightarrow> 's res) \<Rightarrow> 's \<Rightarrow> 'a list \<Rightarrow> 's res" where
  "rfold f s [] = Inr s"
| "rfold f s (x # xs) = rbind (f s x) (\<lambda>s'. rfold f s' xs)"

lemma rfold_append: "rfold f s (xs @ ys) = rbind (rfold f s xs) (\<lambda>s'. rfold f s' ys)"
proof (induction xs arbitrary: s)
  case (Cons x xs)
  then show ?case by (cases "f s x") auto
qed simp

lemma rfold_snoc: "rfold f s (xs @ [x]) = rbind (rfold f s xs) (\<lambda>s'. f s' x)"
  by (simp add: rfold_append)

lemma rfold_cong:
  "(\<And>s x. x \<in> set xs \<Longrightarrow> f s x = g s x) \<Longrightarrow> rfold f s xs = rfold g s xs"
proof (induction xs arbitrary: s)
  case (Cons x xs)
  then have "rfold f s' xs = rfold g s' xs" for s' by simp
  with Cons.prems show ?case by simp
qed simp

subsection \<open>C integer arithmetic\<close>

text \<open>C's \<open>/\<close> on \<open>int\<close> truncates towards zero.\<close>

definition cdiv :: "int \<Rightarrow> int \<Rightarrow> int" where
  "cdiv a b = sgn a * sgn b * (\<bar>a\<bar> div \<bar>b\<bar>)"

lemma cdiv_nonneg [simp]: "0 \<le> a \<Longrightarrow> 0 < b \<Longrightarrow> cdiv a b = a div b"
  by (cases "a = 0") (auto simp: cdiv_def)

lemma unat_drop_bit: "unat (drop_bit n w) = unat w div 2 ^ n"
  unfolding unat_drop_bit_eq by (simp add: drop_bit_eq_div)

lemma unat_u32_less: "unat (w :: u32) < 2 ^ 32"
proof -
  have "unat w < 2 ^ LENGTH(32)" by (rule unsigned_less)
  then show ?thesis by simp
qed

lemma unat_ucast_u32_u64 [simp]: "unat (ucast (w :: u32) :: u64) = unat w"
  using unat_u32_less [of w] by (simp add: unsigned_ucast_eq take_bit_nat_eq_self)

lemma unat_ucast_u64_u32: "unat (w :: u64) < 2 ^ 32 \<Longrightarrow> unat (ucast w :: u32) = unat w"
  by (simp add: unsigned_ucast_eq take_bit_nat_eq_self)

lemma and_one_bit_eq_0:
  assumes "n < 8"
  shows "b AND 2 ^ n = (0 :: u8) \<longleftrightarrow> \<not> bit b n"
proof
  assume "b AND 2 ^ n = 0"
  then have "\<not> bit (b AND 2 ^ n) n" by simp
  with assms show "\<not> bit b n" by (simp add: bit_simps)
next
  assume "\<not> bit b n"
  then show "b AND 2 ^ n = 0"
    by (intro bit_word_eqI) (auto simp: bit_simps)
qed

lemma bit_or_one_bit: "n < 8 \<Longrightarrow> bit (b OR 2 ^ n :: u8) m \<longleftrightarrow> m = n \<or> bit b m"
  by (auto simp: bit_simps)

subsection \<open>Raw buffers\<close>

text \<open>
  A \<open>new uint8_t[n]\<close> buffer: a cell is \<open>None\<close> until a byte is written to it.
\<close>

type_synonym buf = "u8 option list"

definition new_buf :: "nat \<Rightarrow> buf" where
  "new_buf n = replicate n None"

definition read_byte :: "buf \<Rightarrow> nat \<Rightarrow> u8 res" where
  "read_byte b i =
     (if i < length b then (case b ! i of None \<Rightarrow> Inl UninitRead | Some x \<Rightarrow> Inr x)
      else Inl OutOfBounds)"

definition write_byte :: "buf \<Rightarrow> nat \<Rightarrow> u8 \<Rightarrow> buf res" where
  "write_byte b i x = (if i < length b then Inr (b[i := Some x]) else Inl OutOfBounds)"

text \<open>\<open>memcpy\<close> between two buffers, of \<open>n\<close> cells from the start of each.\<close>

definition memcpy_buf :: "buf \<Rightarrow> buf \<Rightarrow> nat \<Rightarrow> buf res" where
  "memcpy_buf dst src n =
     (if n \<le> length src \<and> n \<le> length dst then Inr (take n src @ drop n dst)
      else Inl OutOfBounds)"

text \<open>Reading the first \<open>n\<close> cells into a byte vector.\<close>

definition read_bytes :: "buf \<Rightarrow> nat \<Rightarrow> bytes res" where
  "read_bytes b n =
     (if length b < n then Inl OutOfBounds
      else if None \<in> set (take n b) then Inl UninitRead
      else Inr (map the (take n b)))"

text \<open>The first \<open>n\<close> cells exist and have been written.\<close>

definition init_upto :: "buf \<Rightarrow> nat \<Rightarrow> bool" where
  "init_upto b n \<longleftrightarrow> n \<le> length b \<and> None \<notin> set (take n b)"

lemma length_new_buf [simp]: "length (new_buf n) = n"
  by (simp add: new_buf_def)

lemma init_upto_nth: "init_upto b n \<Longrightarrow> i < n \<Longrightarrow> \<exists>x. b ! i = Some x"
  by (metis init_upto_def in_set_conv_nth length_take min.absorb2 not_None_eq nth_take)

lemma init_uptoI: "n \<le> length b \<Longrightarrow> (\<And>i. i < n \<Longrightarrow> b ! i \<noteq> None) \<Longrightarrow> init_upto b n"
  by (auto simp: init_upto_def in_set_conv_nth)

lemma init_upto_iff: "init_upto b n \<longleftrightarrow> n \<le> length b \<and> (\<forall>i < n. b ! i \<noteq> None)"
  using init_upto_nth init_uptoI by (metis init_upto_def option.distinct(1))

lemma init_upto_update:
  assumes "init_upto b n"
  shows "init_upto (b[i := Some x]) n"
proof -
  have "b[i := Some x] ! j \<noteq> None" if "j < n" for j
    using assms that by (cases "j = i") (auto simp: init_upto_iff)
  with assms show ?thesis by (simp add: init_upto_iff)
qed

lemma init_upto_map_Some [simp]: "n = length bs \<Longrightarrow> init_upto (map Some bs @ r) n"
  by (simp add: init_upto_def)

lemma read_byte_init [buf_simps]: "init_upto b n \<Longrightarrow> i < n \<Longrightarrow> read_byte b i = Inr (the (b ! i))"
  using init_upto_nth [of b n i] by (auto simp: read_byte_def init_upto_def)

lemma read_bytes_init [buf_simps]:
  "init_upto b n \<Longrightarrow> read_bytes b n = Inr (map the (take n b))"
  by (simp add: init_upto_def read_bytes_def)

lemma map_Some_the_take: "init_upto b n \<Longrightarrow> map Some (map the (take n b)) = take n b"
  by (rule nth_equalityI) (auto simp: init_upto_iff)

subsection \<open>Little-endian 32-bit fields\<close>

text \<open>
  \<open>*reinterpret_cast<uint32_t *>(p) = w\<close> and the matching read, on the little-endian
  machines the program targets.
\<close>

definition le32 :: "u32 \<Rightarrow> bytes" where
  "le32 w = [ucast w, ucast (drop_bit 8 w), ucast (drop_bit 16 w), ucast (drop_bit 24 w)]"

definition rd32 :: "bytes \<Rightarrow> u32" where
  "rd32 bs = (case bs of
     [b0, b1, b2, b3] \<Rightarrow> ucast b0 OR push_bit 8 (ucast b1) OR push_bit 16 (ucast b2)
                          OR push_bit 24 (ucast b3)
   | _ \<Rightarrow> 0)"

lemma bit_u8_high [simp]: "8 \<le> n \<Longrightarrow> \<not> bit (b :: u8) n"
  using bit_imp_le_length [of b n] by auto

lemma length_le32 [simp]: "length (le32 w) = 4"
  by (simp add: le32_def)

lemma rd32_le32 [simp]: "rd32 (le32 w) = w"
proof (rule bit_word_eqI)
  fix n assume "n < LENGTH(32)"
  then consider "n < 8" | "8 \<le> n" "n < 16" | "16 \<le> n" "n < 24" | "24 \<le> n" "n < 32"
    by fastforce
  then show "bit (rd32 (le32 w)) n \<longleftrightarrow> bit w n"
    by cases (auto simp: rd32_def le32_def bit_simps)
qed

lemma le32_rd32:
  assumes "length bs = 4"
  shows "le32 (rd32 bs) = bs"
proof -
  from assms obtain b0 b1 b2 b3 where bs: "bs = [b0, b1, b2, b3]"
    by (auto simp: numeral_eq_Suc length_Suc_conv)
  show ?thesis
    unfolding bs rd32_def le32_def
    by (auto intro!: bit_word_eqI simp: bit_simps)
qed

subsection \<open>Strings seen through \<open>c_str()\<close>\<close>

definition c_str :: "string \<Rightarrow> string" where
  "c_str s = takeWhile (\<lambda>c. c \<noteq> CHR 0x00) s"

lemma c_str_append_nul [simp]: "c_str (s @ CHR 0x00 # t) = c_str s"
  by (induction s) (auto simp: c_str_def)

lemma c_str_id: "CHR 0x00 \<notin> set s \<Longrightarrow> c_str s = s"
  by (auto simp: c_str_def takeWhile_eq_all_conv)

lemma nul_notin_c_str [simp]: "CHR 0x00 \<notin> set (c_str s)"
  by (auto simp: c_str_def dest: set_takeWhileD)

lemma c_str_idem [simp]: "c_str (c_str s) = c_str s"
  by (simp add: c_str_id)

end
