(* ===== verification/Interfaces.thy ===== *)
theory Interfaces
  imports Prelude "HOL-Library.Multiset"
begin

section \<open>Interfaces between components\<close>

text \<open>
  The contracts one component relies on and another provides, as locales: the operations a client
  calls, the laws it may use, and the client facts that follow from the laws alone. Each locale
  is interpreted in the theory of the component that implements it.
\<close>

subsection \<open>Approximate membership filters\<close>

text \<open>
  What \<open>FileBlockStore\<close> expects of \<open>BloomFilter\<close>: adding a key to a filter in good
  order never fails and keeps it in good order, an added key is reported, and no later addition
  makes the filter forget a key.
\<close>

locale approx_filter =
  fixes ok :: "'f \<Rightarrow> bool"
    and add :: "'f \<Rightarrow> 'k \<Rightarrow> 'f res"
    and query :: "'f \<Rightarrow> 'k \<Rightarrow> bool res"
  assumes query_total: "ok f \<Longrightarrow> \<exists>b. query f k = Inr b"
    and add_total: "ok f \<Longrightarrow> \<exists>f'. add f k = Inr f' \<and> ok f'"
    and add_hit: "ok f \<Longrightarrow> add f k = Inr f' \<Longrightarrow> query f' k = Inr True"
    and add_mono: "ok f \<Longrightarrow> add f k = Inr f' \<Longrightarrow> query f x = Inr True \<Longrightarrow> query f' x = Inr True"
begin

lemma add_all_total: "ok f \<Longrightarrow> \<exists>f'. rfold add f ks = Inr f' \<and> ok f'"
proof (induction ks arbitrary: f)
  case (Cons k ks)
  from add_total [OF Cons.prems, of k] obtain f1 where "add f k = Inr f1" and "ok f1" by blast
  with Cons.IH [of f1] show ?case by simp
qed simp

lemma add_all_mono:
  "ok f \<Longrightarrow> rfold add f ks = Inr f' \<Longrightarrow> query f x = Inr True \<Longrightarrow> query f' x = Inr True"
proof (induction ks arbitrary: f)
  case (Cons k ks)
  from add_total [OF Cons.prems(1), of k] obtain f1 where f1: "add f k = Inr f1" "ok f1" by blast
  from add_mono [OF Cons.prems(1) f1(1) Cons.prems(3)] have "query f1 x = Inr True" .
  with Cons.IH [of f1] Cons.prems(2) f1 show ?case by simp
qed simp

lemma add_all_hit:
  "ok f \<Longrightarrow> rfold add f ks = Inr f' \<Longrightarrow> k \<in> set ks \<Longrightarrow> query f' k = Inr True"
proof (induction ks arbitrary: f)
  case (Cons x ks)
  from add_total [OF Cons.prems(1), of x] obtain f1 where f1: "add f x = Inr f1" "ok f1" by blast
  then have rest: "rfold add f1 ks = Inr f'" using Cons.prems(2) by simp
  show ?case
  proof (cases "k = x")
    case True
    with add_hit [OF Cons.prems(1) f1(1)] add_all_mono [OF f1(2) rest] show ?thesis by simp
  next
    case False
    with Cons.IH [OF f1(2) rest] Cons.prems(3) show ?thesis by simp
  qed
qed simp

lemma added_keys_found:
  assumes "ok f"
  shows "\<exists>f'. rfold add f ks = Inr f' \<and> ok f' \<and> (\<forall>k \<in> set ks. query f' k = Inr True)"
  using add_all_total [OF assms, of ks] add_all_hit [OF assms] by blast

end

subsection \<open>The standard library's heap algorithms\<close>

text \<open>
  What \<open>LRUCache\<close> uses of \<open>std::make_heap\<close>, \<open>std::push_heap\<close> and
  \<open>std::pop_heap\<close> under a comparator \<open>lt\<close>: they permute the range, the first two
  establish the heap order (the second if all but the last element were in it), the third
  moves the first element to the end and keeps the order of the rest, and the first element of a
  heap is one that \<open>lt\<close> puts before no other. A comparator has to be a strict weak order.
\<close>

definition strict_weak :: "('a \<Rightarrow> 'a \<Rightarrow> bool) \<Rightarrow> bool" where
  "strict_weak lt \<longleftrightarrow>
     (\<forall>a b. lt a b \<longrightarrow> \<not> lt b a) \<and> (\<forall>a b c. \<not> lt a b \<longrightarrow> \<not> lt b c \<longrightarrow> \<not> lt a c)"

lemma strict_weak_asym: "strict_weak lt \<Longrightarrow> lt a b \<Longrightarrow> \<not> lt b a"
  unfolding strict_weak_def by blast

lemma strict_weak_trans: "strict_weak lt \<Longrightarrow> \<not> lt a b \<Longrightarrow> \<not> lt b c \<Longrightarrow> \<not> lt a c"
  unfolding strict_weak_def by blast

lemma strict_weak_key: "strict_weak (\<lambda>a b. (f a :: 'b :: linorder) > f b)"
  by (auto simp: strict_weak_def)

locale heap_algorithms =
  fixes heap :: "('a \<Rightarrow> 'a \<Rightarrow> bool) \<Rightarrow> 'a list \<Rightarrow> bool"
    and make push pop :: "('a \<Rightarrow> 'a \<Rightarrow> bool) \<Rightarrow> 'a list \<Rightarrow> 'a list"
  assumes make_mset: "mset (make lt xs) = mset xs"
    and make_heap: "strict_weak lt \<Longrightarrow> heap lt (make lt xs)"
    and push_mset: "mset (push lt xs) = mset xs"
    and push_heap: "strict_weak lt \<Longrightarrow> heap lt (butlast xs) \<Longrightarrow> heap lt (push lt xs)"
    and pop_mset: "mset (pop lt xs) = mset xs"
    and pop_last: "xs \<noteq> [] \<Longrightarrow> last (pop lt xs) = hd xs"
    and pop_heap: "strict_weak lt \<Longrightarrow> heap lt xs \<Longrightarrow> heap lt (butlast (pop lt xs))"
    and heap_top: "strict_weak lt \<Longrightarrow> heap lt xs \<Longrightarrow> x \<in> set xs \<Longrightarrow> \<not> lt (hd xs) x"
begin

lemma make_set [simp]: "set (make lt xs) = set xs"
  by (rule mset_eq_setD [OF make_mset])

lemma push_set [simp]: "set (push lt xs) = set xs"
  by (rule mset_eq_setD [OF push_mset])

lemma make_length [simp]: "length (make lt xs) = length xs"
  by (rule mset_eq_length [OF make_mset])

lemma push_length [simp]: "length (push lt xs) = length xs"
  by (rule mset_eq_length [OF push_mset])

lemma pop_length [simp]: "length (pop lt xs) = length xs"
  by (rule mset_eq_length [OF pop_mset])

lemma make_distinct [simp]: "distinct (make lt xs) \<longleftrightarrow> distinct xs"
  by (rule mset_eq_imp_distinct_iff [OF make_mset])

lemma push_distinct [simp]: "distinct (push lt xs) \<longleftrightarrow> distinct xs"
  by (rule mset_eq_imp_distinct_iff [OF push_mset])

text \<open>\<open>pop_heap\<close> followed by \<open>pop_back\<close> removes exactly the first element.\<close>

lemma pop_back_mset:
  assumes "xs \<noteq> []"
  shows "mset (butlast (pop lt xs)) = mset xs - {#hd xs#}"
proof -
  from assms have ne: "pop lt xs \<noteq> []"
    by (metis length_0_conv pop_length)
  then have "mset (butlast (pop lt xs)) + {#last (pop lt xs)#} = mset (pop lt xs)"
    by (metis append_butlast_last_id mset.simps mset_append)
  then show ?thesis
    using pop_last [OF assms, of lt] pop_mset [of lt xs]
    by (metis add_diff_cancel_right')
qed

lemma pop_back_distinct:
  assumes "distinct xs" and "xs \<noteq> []"
  shows "set (butlast (pop lt xs)) = set xs - {hd xs}" and "distinct (butlast (pop lt xs))"
proof -
  have d: "distinct (pop lt xs)"
    using mset_eq_imp_distinct_iff [OF pop_mset] assms(1) by blast
  then show "distinct (butlast (pop lt xs))" by (rule distinct_butlast)
  have "set (butlast (pop lt xs)) = set_mset (mset xs - {#hd xs#})"
    using pop_back_mset [OF assms(2), of lt] by (metis set_mset_mset)
  also have "\<dots> = set xs - {hd xs}"
    using assms by (cases xs) auto
  finally show "set (butlast (pop lt xs)) = set xs - {hd xs}" .
qed

end

subsection \<open>Ordered maps\<close>

text \<open>
  What the services use of \<open>std::map\<close>: \<open>find\<close>, assignment through \<open>operator[]\<close>,
  \<open>erase\<close>, and iteration over the entries. The iteration visits every entry once, in an order
  fixed by the keys, so two maps with the same lookups are the same value.
\<close>

locale ordered_map =
  fixes ok :: "'m \<Rightarrow> bool"
    and empty :: 'm
    and find :: "'m \<Rightarrow> 'k \<Rightarrow> 'v option"
    and store :: "'k \<Rightarrow> 'v \<Rightarrow> 'm \<Rightarrow> 'm"
    and erase :: "'k \<Rightarrow> 'm \<Rightarrow> 'm"
    and entries :: "'m \<Rightarrow> ('k \<times> 'v) list"
  assumes ok_empty: "ok empty"
    and find_empty: "find empty k = None"
    and ok_store: "ok m \<Longrightarrow> ok (store k v m)"
    and find_store: "find (store k v m) x = (if x = k then Some v else find m x)"
    and ok_erase: "ok m \<Longrightarrow> ok (erase k m)"
    and find_erase: "ok m \<Longrightarrow> find (erase k m) x = (if x = k then None else find m x)"
    and entries_find: "ok m \<Longrightarrow> (k, v) \<in> set (entries m) \<longleftrightarrow> find m k = Some v"
    and entries_once: "ok m \<Longrightarrow> distinct (map fst (entries m))"
    and ext: "ok m \<Longrightarrow> ok m' \<Longrightarrow> (\<And>k. find m k = find m' k) \<Longrightarrow> m = m'"
begin

lemma store_store: "ok m \<Longrightarrow> store k v (store k w m) = store k v m"
  by (rule ext) (simp_all add: ok_store find_store)

lemma store_same: "ok m \<Longrightarrow> find m k = Some v \<Longrightarrow> store k v m = m"
  by (rule ext) (simp_all add: ok_store find_store)

lemma erase_store: "ok m \<Longrightarrow> erase k (store k v m) = erase k m"
  by (rule ext) (simp_all add: ok_store ok_erase find_store find_erase)

lemma entry_keys: "ok m \<Longrightarrow> fst ` set (entries m) = {k. find m k \<noteq> None}"
  using entries_find by force

end

subsection \<open>Message framing\<close>

text \<open>
  What the RPC layer relies on of the stream decoder: a message that arrived whole is returned and
  exactly its bytes are taken from the stream; of a message that arrived in part nothing is
  returned. \<open>pump\<close> is the receive loop over such a decoder: it hands every message of the buffer
  to \<open>body\<close>, and ends with an exception when an object does not convert to the message type.
  Its fuel is the number of buffered bytes; a message has at least one.
\<close>

fun pump :: "(bytes \<Rightarrow> ('m option \<times> bytes) option) \<Rightarrow> ('s \<Rightarrow> 'm \<Rightarrow> 's) \<Rightarrow> nat \<Rightarrow> 's \<Rightarrow> bytes \<Rightarrow> ('s \<times> bytes) res" where
  "pump nxt body 0 s b = Inr (s, b)"
| "pump nxt body (Suc n) s b =
     (case nxt b of
        None \<Rightarrow> Inr (s, b)
      | Some (None, r) \<Rightarrow> Inl UncaughtException
      | Some (Some m, r) \<Rightarrow> pump nxt body n (body s m) r)"

locale framing =
  fixes enc :: "'m \<Rightarrow> bytes"
    and nxt :: "bytes \<Rightarrow> ('m option \<times> bytes) option"
  assumes enc_nonempty: "enc m \<noteq> []"
    and whole: "nxt (enc m @ r) = Some (Some m, r)"
    and part: "enc m = p @ q \<Longrightarrow> q \<noteq> [] \<Longrightarrow> nxt p = None"
begin

lemma nxt_Nil: "nxt [] = None"
  using part [of undefined "[]" "enc undefined"] enc_nonempty [of undefined] by simp

lemma pump_stream:
  assumes "p @ rest = concat (map enc ms)" and "length p \<le> n"
  shows "\<exists>k l. pump nxt body n s p = Inr (fold (\<lambda>m s. body s m) (take k ms) s, l) \<and>
           l @ rest = concat (map enc (drop k ms)) \<and> k \<le> length ms \<and> (rest = [] \<longrightarrow> k = length ms \<and> l = [])"
  using assms
proof (induction ms arbitrary: p n s)
  case Nil
  then show ?case by (cases n) (auto simp: nxt_Nil)
next
  case (Cons m ms)
  show ?case
  proof (cases "length (enc m) \<le> length p")
    case True
    have "take (length (enc m)) (p @ rest) = enc m" using Cons.prems(1) by simp
    then have "take (length (enc m)) p = enc m" using True by simp
    then have p: "p = enc m @ drop (length (enc m)) p" by (metis append_take_drop_id)
    let ?p = "drop (length (enc m)) p"
    from p have rest: "?p @ rest = concat (map enc ms)"
      using Cons.prems(1) by (metis append.assoc concat.simps(2) list.simps(9) same_append_eq)
    have "0 < length (enc m)" using enc_nonempty [of m] by simp
    then obtain n' where n: "n = Suc n'" using True Cons.prems(2) by (cases n) auto
    then have "length ?p \<le> n'" using \<open>0 < length (enc m)\<close> Cons.prems(2) unfolding length_drop by linarith
    from Cons.IH [OF rest this, of "body s m"] obtain k l where
      "pump nxt body n' (body s m) ?p = Inr (fold (\<lambda>m s. body s m) (take k ms) (body s m), l)"
      "l @ rest = concat (map enc (drop k ms))" "k \<le> length ms" "rest = [] \<longrightarrow> k = length ms \<and> l = []" by blast
    moreover have "nxt p = Some (Some m, ?p)" using whole [of m ?p] p by simp
    ultimately show ?thesis using n by (intro exI [of _ "Suc k"] exI [of _ l]) simp
  next
    case False
    define q where "q = drop (length p) (enc m)"
    have "take (length p) (enc m @ concat (map enc ms)) = p" using Cons.prems(1) by (metis append_eq_conv_conj concat.simps(2) list.simps(9))
    then have "take (length p) (enc m) = p" using False by simp
    then have q: "enc m = p @ q" "q \<noteq> []" using False append_take_drop_id [of "length p" "enc m"] by (auto simp: q_def)
    then have "nxt p = None" by (rule part)
    then have "pump nxt body n s p = Inr (s, p)" by (cases n) auto
    moreover have "rest \<noteq> []" using q Cons.prems(1) by auto
    ultimately show ?thesis using Cons.prems(1) by (intro exI [of _ 0] exI [of _ p]) simp
  qed
qed

end

end
