(* ===== verification/Std_Heap.thy ===== *)
theory Std_Heap
  imports Interfaces
begin

section \<open>\<open>std::make_heap\<close>, \<open>std::push_heap\<close> and \<open>std::pop_heap\<close>\<close>

text \<open>
  The heap algorithms of the C++ standard library that \<open>util/lrucache.h\<close> calls, as the GNU
  implementation computes them: a value is moved through a hole in the array, down to a leaf
  along the larger children and then up again. The comparator is a parameter, as in C++. The
  section ends with the interpretation of the interface \<open>heap_algorithms\<close>.
\<close>

subsection \<open>The algorithms\<close>

definition parent :: "nat \<Rightarrow> nat" where
  "parent i = (i - 1) div 2"

lemma parent_less: "0 < i \<Longrightarrow> parent i < i"
  by (simp add: parent_def)

text \<open>Moving a value up from a hole, not above \<open>topi\<close>.\<close>

function push_hole :: "('a \<Rightarrow> 'a \<Rightarrow> bool) \<Rightarrow> 'a list \<Rightarrow> nat \<Rightarrow> nat \<Rightarrow> 'a \<Rightarrow> 'a list" where
  "push_hole lt xs hole topi v =
     (if topi < hole \<and> lt (xs ! parent hole) v
      then push_hole lt (xs[hole := xs ! parent hole]) (parent hole) topi v
      else xs[hole := v])"
  by pat_completeness auto
termination
  by (relation "measure (\<lambda>(lt, xs, hole, topi, v). hole)") (auto simp: parent_less)

declare push_hole.simps [simp del]

lemma push_hole_up:
  "topi < hole \<Longrightarrow> lt (xs ! parent hole) v \<Longrightarrow>
   push_hole lt xs hole topi v = push_hole lt (xs[hole := xs ! parent hole]) (parent hole) topi v"
  by (subst push_hole.simps) simp

lemma push_hole_stop:
  "\<not> (topi < hole \<and> lt (xs ! parent hole) v) \<Longrightarrow> push_hole lt xs hole topi v = xs[hole := v]"
  by (subst push_hole.simps) (simp only: if_False)

text \<open>Moving a hole down to a leaf of the first \<open>len\<close> elements.\<close>

definition larger_child :: "('a \<Rightarrow> 'a \<Rightarrow> bool) \<Rightarrow> 'a list \<Rightarrow> nat \<Rightarrow> nat" where
  "larger_child lt xs hole =
     (let second = 2 * (hole + 1)
      in if lt (xs ! second) (xs ! (second - 1)) then second - 1 else second)"

lemma larger_child_cases: "larger_child lt xs h = 2 * h + 1 \<or> larger_child lt xs h = 2 * h + 2"
  by (simp add: larger_child_def Let_def)

lemma larger_child_greater: "h < larger_child lt xs h"
  using larger_child_cases [of lt xs h] by auto

function sink_hole :: "('a \<Rightarrow> 'a \<Rightarrow> bool) \<Rightarrow> 'a list \<Rightarrow> nat \<Rightarrow> nat \<Rightarrow> 'a list \<times> nat" where
  "sink_hole lt xs hole len =
     (if hole < (len - 1) div 2
      then (let c = larger_child lt xs hole in sink_hole lt (xs[hole := xs ! c]) c len)
      else if even len \<and> 2 \<le> len \<and> hole = (len - 2) div 2
      then (xs[hole := xs ! (2 * hole + 1)], 2 * hole + 1)
      else (xs, hole))"
  by pat_completeness auto
termination
proof (relation "measure (\<lambda>(lt, xs, hole, len). len - hole)")
  fix lt :: "'a \<Rightarrow> 'a \<Rightarrow> bool" and xs :: "'a list" and hole len x
  assume "hole < (len - 1) div 2" and "x = larger_child lt xs hole"
  then have "hole < x" and "hole < len" using larger_child_greater by auto
  then show "((lt, xs[hole := xs ! x], x, len), lt, xs, hole, len) \<in>
      measure (\<lambda>(lt, xs, hole, len). len - hole)"
    by simp
qed simp

declare sink_hole.simps [simp del]

definition adjust_heap :: "('a \<Rightarrow> 'a \<Rightarrow> bool) \<Rightarrow> 'a list \<Rightarrow> nat \<Rightarrow> nat \<Rightarrow> 'a \<Rightarrow> 'a list" where
  "adjust_heap lt xs hole len v =
     (case sink_hole lt xs hole len of (ys, h) \<Rightarrow> push_hole lt ys h hole v)"

definition std_push_heap :: "('a \<Rightarrow> 'a \<Rightarrow> bool) \<Rightarrow> 'a list \<Rightarrow> 'a list" where
  "std_push_heap lt xs =
     (if xs = [] then [] else push_hole lt xs (length xs - 1) 0 (last xs))"

definition std_pop_heap :: "('a \<Rightarrow> 'a \<Rightarrow> bool) \<Rightarrow> 'a list \<Rightarrow> 'a list" where
  "std_pop_heap lt xs =
     (if 1 < length xs
      then adjust_heap lt (butlast xs) 0 (length xs - 1) (last xs) @ [hd xs]
      else xs)"

fun make_loop :: "('a \<Rightarrow> 'a \<Rightarrow> bool) \<Rightarrow> 'a list \<Rightarrow> nat \<Rightarrow> 'a list" where
  "make_loop lt xs 0 = xs"
| "make_loop lt xs (Suc p) = make_loop lt (adjust_heap lt xs p (length xs) (xs ! p)) p"

definition std_make_heap :: "('a \<Rightarrow> 'a \<Rightarrow> bool) \<Rightarrow> 'a list \<Rightarrow> 'a list" where
  "std_make_heap lt xs =
     (if length xs < 2 then xs else make_loop lt xs (Suc ((length xs - 2) div 2)))"

subsection \<open>The algorithms permute\<close>

lemma mset_move_hole:
  assumes "h < length xs" and "c < length xs" and "h \<noteq> c"
  shows "mset (xs[h := xs ! c, c := v]) = mset (xs[h := v])"
proof -
  have "(xs[h := v])[h := xs[h := v] ! c, c := xs[h := v] ! h] = xs[h := xs ! c, c := v]"
    using assms by (simp add: list_update_swap)
  moreover have "mset ((xs[h := v])[h := xs[h := v] ! c, c := xs[h := v] ! h]) = mset (xs[h := v])"
    using assms by (intro mset_swap) simp_all
  ultimately show ?thesis by simp
qed

lemma push_hole_mset:
  "h < length xs \<Longrightarrow> mset (push_hole lt xs h topi v) = mset (xs[h := v])"
proof (induction lt xs h topi v rule: push_hole.induct)
  case (1 lt xs hole topi v)
  show ?case
  proof (cases "topi < hole \<and> lt (xs ! parent hole) v")
    case True
    then have p: "parent hole < hole" by (intro parent_less) simp
    with True "1.IH" "1.prems"
    have "mset (push_hole lt xs hole topi v) = mset (xs[hole := xs ! parent hole, parent hole := v])"
      by (simp add: push_hole_up)
    with p "1.prems" show ?thesis by (simp add: mset_move_hole)
  next
    case False
    then show ?thesis by (simp only: push_hole_stop not_False_eq_True)
  qed
qed

lemma push_hole_length [simp]: "length (push_hole lt xs h topi v) = length xs"
proof (induction lt xs h topi v rule: push_hole.induct)
  case (1 lt xs hole topi v)
  then show ?case by (simp add: push_hole.simps [of lt xs hole])
qed

lemma sink_hole_spec:
  assumes "h < len" and "len = length xs"
  shows "snd (sink_hole lt xs h len) < len \<and> length (fst (sink_hole lt xs h len)) = len \<and>
         mset ((fst (sink_hole lt xs h len))[snd (sink_hole lt xs h len) := v]) = mset (xs[h := v])"
  using assms
proof (induction lt xs h len rule: sink_hole.induct)
  case (1 lt xs hole len)
  let ?c = "larger_child lt xs hole"
  consider (down) "hole < (len - 1) div 2"
    | (last) "\<not> hole < (len - 1) div 2" "even len" "2 \<le> len" "hole = (len - 2) div 2"
    | (stop) "\<not> hole < (len - 1) div 2" "\<not> (even len \<and> 2 \<le> len \<and> hole = (len - 2) div 2)"
    by blast
  then show ?case
  proof cases
    case down
    then have c: "?c < len" "hole < ?c"
      using larger_child_cases [of lt xs hole] by auto
    with down "1.IH" [OF down refl] "1.prems" show ?thesis
      by (simp add: sink_hole.simps [of lt xs hole] Let_def mset_move_hole)
  next
    case last
    then have c: "2 * hole + 1 < len" by auto
    from last have eq: "sink_hole lt xs hole len = (xs[hole := xs ! (2 * hole + 1)], 2 * hole + 1)"
      by (subst sink_hole.simps) (simp only: if_True if_False simp_thms)
    from c "1.prems" show ?thesis
      unfolding eq by (simp add: mset_move_hole)
  next
    case stop
    then have "sink_hole lt xs hole len = (xs, hole)"
      by (subst sink_hole.simps) (simp only: if_False)
    with "1.prems" show ?thesis by simp
  qed
qed

lemma adjust_heap_mset:
  assumes "h < length xs"
  shows "mset (adjust_heap lt xs h (length xs) v) = mset (xs[h := v])"
    and "length (adjust_heap lt xs h (length xs) v) = length xs"
  using sink_hole_spec [OF assms refl, of lt v]
  by (auto simp: adjust_heap_def push_hole_mset split: prod.splits)

subsection \<open>The heap order\<close>

text \<open>
  \<open>heap_from lt xs k\<close>: every element whose parent is at \<open>k\<close> or later is in order with
  its parent. A heap is the case \<open>k = 0\<close>.
\<close>

definition heap_from :: "('a \<Rightarrow> 'a \<Rightarrow> bool) \<Rightarrow> 'a list \<Rightarrow> nat \<Rightarrow> bool" where
  "heap_from lt xs k \<longleftrightarrow>
     (\<forall>i < length xs. 0 < i \<longrightarrow> k \<le> parent i \<longrightarrow> \<not> lt (xs ! parent i) (xs ! i))"

definition is_heap :: "('a \<Rightarrow> 'a \<Rightarrow> bool) \<Rightarrow> 'a list \<Rightarrow> bool" where
  "is_heap lt xs \<longleftrightarrow> heap_from lt xs 0"

text \<open>
  The same with a hole: nothing is said of the element at \<open>h\<close>, but its children are in
  order with its parent. The hole lies in the subtree below \<open>k\<close>.
\<close>

inductive below :: "nat \<Rightarrow> nat \<Rightarrow> bool" for k where
  here: "below k k"
| left: "below k h \<Longrightarrow> below k (2 * h + 1)"
| right: "below k h \<Longrightarrow> below k (2 * h + 2)"

lemma parent_children [simp]: "parent (2 * h + 1) = h" "parent (2 * h + 2) = h"
  "parent (Suc (2 * h)) = h" "parent (Suc (Suc (2 * h))) = h"
  by (simp_all add: parent_def)

lemma below_ge: "below k h \<Longrightarrow> k \<le> h"
  by (induction rule: below.induct) auto

lemma below_parent: "below k h \<Longrightarrow> h \<noteq> k \<Longrightarrow> below k (parent h) \<and> k \<le> parent h \<and> 0 < h"
  by (induction rule: below.induct) (auto simp: below_ge)

lemma below_larger_child: "below k h \<Longrightarrow> below k (larger_child lt xs h)"
  using larger_child_cases [of lt xs h] by (metis below.left below.right)

definition holed :: "('a \<Rightarrow> 'a \<Rightarrow> bool) \<Rightarrow> 'a list \<Rightarrow> nat \<Rightarrow> nat \<Rightarrow> bool" where
  "holed lt xs k h \<longleftrightarrow>
     (\<forall>i < length xs. 0 < i \<longrightarrow> k \<le> parent i \<longrightarrow> i \<noteq> h \<longrightarrow> parent i \<noteq> h \<longrightarrow>
        \<not> lt (xs ! parent i) (xs ! i)) \<and>
     (h \<noteq> k \<longrightarrow> (\<forall>c < length xs. 0 < c \<longrightarrow> parent c = h \<longrightarrow> \<not> lt (xs ! parent h) (xs ! c)))"

lemma holedD:
  assumes "holed lt xs k h"
  shows "i < length xs \<Longrightarrow> 0 < i \<Longrightarrow> k \<le> parent i \<Longrightarrow> i \<noteq> h \<Longrightarrow> parent i \<noteq> h \<Longrightarrow>
           \<not> lt (xs ! parent i) (xs ! i)"
    and "h \<noteq> k \<Longrightarrow> c < length xs \<Longrightarrow> 0 < c \<Longrightarrow> parent c = h \<Longrightarrow> \<not> lt (xs ! parent h) (xs ! c)"
  using assms unfolding holed_def by blast+

lemma parent_eq_child: "0 < i \<Longrightarrow> parent i = h \<longleftrightarrow> i = 2 * h + 1 \<or> i = 2 * h + 2"
  unfolding parent_def by presburger

text \<open>Filling the hole with a value in order with its parent and its children.\<close>

lemma fill_hole:
  assumes "holed lt xs k h" and "h < length xs"
    and "\<And>c. c < length xs \<Longrightarrow> 0 < c \<Longrightarrow> parent c = h \<Longrightarrow> \<not> lt v (xs ! c)"
    and "h \<noteq> k \<Longrightarrow> \<not> lt (xs ! parent h) v" and "below k h"
  shows "heap_from lt (xs[h := v]) k"
  unfolding heap_from_def
proof (intro allI impI)
  fix i assume i: "i < length (xs[h := v])" "0 < i" "k \<le> parent i"
  then have pi: "parent i < i" by (simp add: parent_less)
  show "\<not> lt (xs[h := v] ! parent i) (xs[h := v] ! i)"
  proof (cases "i = h")
    case True
    with i pi below_ge [OF assms(5)] assms(2,4) show ?thesis by auto
  next
    case False
    show ?thesis
    proof (cases "parent i = h")
      case True
      with False assms(2,3) i pi show ?thesis by simp
    next
      case pf: False
      with False i holedD(1) [OF assms(1)] show ?thesis by simp
    qed
  qed
qed

text \<open>Moving the hole up over a smaller parent, and down over its larger child.\<close>

lemma holed_up:
  assumes sw: "strict_weak lt" and H: "holed lt xs k h" and h: "h < length xs"
    and b: "below k h" and ne: "h \<noteq> k" and lt: "lt (xs ! parent h) v"
  defines "ys \<equiv> xs[h := xs ! parent h]"
  shows "holed lt ys k (parent h)"
    and "\<And>c. c < length ys \<Longrightarrow> 0 < c \<Longrightarrow> parent c = parent h \<Longrightarrow> \<not> lt v (ys ! c)"
proof -
  let ?p = "parent h"
  from below_parent [OF b ne] have p: "below k ?p" "k \<le> ?p" "0 < h" by auto
  then have ph: "?p < h" by (simp add: parent_less)
  have vp: "\<not> lt v (xs ! ?p)" using strict_weak_asym [OF sw lt] .
  have sib: "\<not> lt (xs ! ?p) (ys ! c)" if "c < length xs" "0 < c" "parent c = ?p" for c
  proof (cases "c = h")
    case True
    with h strict_weak_asym [OF sw] show ?thesis by (auto simp: ys_def)
  next
    case False
    have "\<not> lt (xs ! parent c) (xs ! c)"
      using that p ph False by (intro holedD(1) [OF H]) auto
    with that False show ?thesis by (simp add: ys_def)
  qed
  show "\<not> lt v (ys ! c)" if "c < length ys" "0 < c" "parent c = ?p" for c
    using that sib [of c] strict_weak_trans [OF sw vp] by (simp add: ys_def)
  show "holed lt ys k ?p"
    unfolding holed_def
  proof (intro conjI allI impI)
    fix i assume i: "i < length ys" "0 < i" "k \<le> parent i" "i \<noteq> ?p" "parent i \<noteq> ?p"
    then have ih: "i \<noteq> h" by auto
    show "\<not> lt (ys ! parent i) (ys ! i)"
    proof (cases "parent i = h")
      case True
      with ih i h holedD(2) [OF H ne, of i] show ?thesis by (simp add: ys_def)
    next
      case False
      with ih i holedD(1) [OF H, of i] show ?thesis by (simp add: ys_def)
    qed
  next
    fix c assume pk: "?p \<noteq> k" and c: "c < length ys" "0 < c" "parent c = ?p"
    from below_parent [OF p(1) pk] have q: "k \<le> parent ?p" "0 < ?p" by auto
    then have pp: "parent ?p < ?p" by (simp add: parent_less)
    with q ph h have "\<not> lt (xs ! parent ?p) (xs ! ?p)"
      by (intro holedD(1) [OF H]) auto
    from strict_weak_trans [OF sw this] sib [of c] c pp ph show "\<not> lt (ys ! parent ?p) (ys ! c)"
      by (simp add: ys_def)
  qed
qed

lemma push_hole_heap:
  assumes "strict_weak lt"
  shows "holed lt xs k h \<Longrightarrow> h < length xs \<Longrightarrow> below k h \<Longrightarrow>
     (\<And>c. c < length xs \<Longrightarrow> 0 < c \<Longrightarrow> parent c = h \<Longrightarrow> \<not> lt v (xs ! c)) \<Longrightarrow>
     heap_from lt (push_hole lt xs h k v) k"
  using assms
proof (induction lt xs h k v rule: push_hole.induct)
  case (1 lt xs h k v)
  note b = "1.prems"(3) and sw = "1.prems"(5)
  show ?case
  proof (cases "k < h \<and> lt (xs ! parent h) v")
    case True
    then have ne: "h \<noteq> k" and lt: "lt (xs ! parent h) v" by auto
    from below_parent [OF b ne] have p: "below k (parent h)" "0 < h" by auto
    note up = holed_up [OF sw "1.prems"(1,2) b ne lt]
    have "heap_from lt (push_hole lt (xs[h := xs ! parent h]) (parent h) k v) k"
      using parent_less [OF p(2)] "1.prems"(2) p(1) up sw by (intro "1.IH" [OF True]) auto
    with True show ?thesis by (simp add: push_hole_up)
  next
    case False
    with below_ge [OF b] have "h \<noteq> k \<Longrightarrow> \<not> lt (xs ! parent h) v" by auto
    with "1.prems" have "heap_from lt (xs[h := v]) k" by (intro fill_hole) auto
    with False show ?thesis by (simp only: push_hole_stop not_False_eq_True)
  qed
qed

lemma holed_down:
  assumes sw: "strict_weak lt" and H: "holed lt xs k h" and b: "below k h"
    and c: "c < length xs" "0 < c" "parent c = h"
    and max: "\<And>d. d < length xs \<Longrightarrow> 0 < d \<Longrightarrow> parent d = h \<Longrightarrow> \<not> lt (xs ! c) (xs ! d)"
  defines "ys \<equiv> xs[h := xs ! c]"
  shows "holed lt ys k c"
  unfolding holed_def
proof (intro conjI allI impI)
  have hc: "h < c" using parent_less [OF c(2)] c(3) by simp
  fix i assume i: "i < length ys" "0 < i" "k \<le> parent i" "i \<noteq> c" "parent i \<noteq> c"
  then have pi: "parent i < i" by (simp add: parent_less)
  show "\<not> lt (ys ! parent i) (ys ! i)"
  proof (cases "i = h")
    case True
    then have "h \<noteq> k" using pi i(3) by auto
    with True holedD(2) [OF H _ c] pi i(1) show ?thesis by (simp add: ys_def)
  next
    case False
    show ?thesis
    proof (cases "parent i = h")
      case True
      with False hc c(1) max [of i] i(1,2) show ?thesis by (simp add: ys_def)
    next
      case pf: False
      with False i holedD(1) [OF H, of i] show ?thesis by (simp add: ys_def)
    qed
  qed
next
  have hc: "h < c" using parent_less [OF c(2)] c(3) by simp
  fix d assume d: "d < length ys" "0 < d" "parent d = c"
  then have dc: "c < d" using parent_less [OF d(2)] by simp
  have "\<not> lt (xs ! parent d) (xs ! d)"
    using d dc hc below_ge [OF b] by (intro holedD(1) [OF H]) (auto simp: ys_def)
  with d dc hc c show "\<not> lt (ys ! parent c) (ys ! d)"
    by (simp add: ys_def)
qed

lemma larger_child_max:
  assumes "strict_weak lt" and "0 < d" and "parent d = h"
  shows "\<not> lt (xs ! larger_child lt xs h) (xs ! d)"
proof -
  from assms(2,3) have "d = 2 * h + 1 \<or> d = 2 * h + 2"
    by (simp only: parent_eq_child)
  then show ?thesis
    using strict_weak_asym [OF assms(1)] by (auto simp: larger_child_def Let_def)
qed

lemma sink_hole_holed:
  assumes "strict_weak lt"
  shows "holed lt xs k h \<Longrightarrow> below k h \<Longrightarrow> h < len \<Longrightarrow> len = length xs \<Longrightarrow>
    holed lt (fst (sink_hole lt xs h len)) k (snd (sink_hole lt xs h len)) \<and>
    below k (snd (sink_hole lt xs h len)) \<and> len \<le> 2 * snd (sink_hole lt xs h len) + 1"
  using assms
proof (induction lt xs h len rule: sink_hole.induct)
  case (1 lt xs h len)
  note H = "1.prems"(1) and b = "1.prems"(2) and sw = "1.prems"(5)
  let ?c = "larger_child lt xs h"
  consider (down) "h < (len - 1) div 2"
    | (last) "\<not> h < (len - 1) div 2" "even len" "2 \<le> len" "h = (len - 2) div 2"
    | (stop) "\<not> h < (len - 1) div 2" "\<not> (even len \<and> 2 \<le> len \<and> h = (len - 2) div 2)"
    by blast
  then show ?case
  proof cases
    case down
    then have c: "?c < len" "0 < ?c" "parent ?c = h"
      using larger_child_cases [of lt xs h] by auto
    have "holed lt (xs[h := xs ! ?c]) k ?c"
      using c "1.prems"(4) larger_child_max [OF sw] by (intro holed_down [OF sw H b]) auto
    with "1.IH" [OF down refl _ below_larger_child [OF b]] c "1.prems"(4) sw down show ?thesis
      by (simp add: sink_hole.simps [of lt xs h] Let_def)
  next
    case last
    then have len: "len = 2 * h + 2" by auto
    have only: "d = 2 * h + 1" if "d < length xs" "0 < d" "parent d = h" for d
      using that len "1.prems"(4) by (auto simp: parent_eq_child)
    have "holed lt (xs[h := xs ! (2 * h + 1)]) k (2 * h + 1)"
    proof (rule holed_down [OF sw H b])
      fix d assume "d < length xs" "0 < d" "parent d = h"
      then have "d = 2 * h + 1" by (rule only)
      then show "\<not> lt (xs ! (2 * h + 1)) (xs ! d)" using strict_weak_asym [OF sw] by blast
    qed (use len "1.prems"(4) in auto)
    moreover from last have
      "sink_hole lt xs h len = (xs[h := xs ! (2 * h + 1)], 2 * h + 1)"
      by (subst sink_hole.simps) (simp only: if_True if_False simp_thms)
    ultimately show ?thesis using below.left [OF b] len by simp
  next
    case stop
    then have "sink_hole lt xs h len = (xs, h)"
      by (subst sink_hole.simps) (simp only: if_False)
    moreover from stop "1.prems"(3) have "len \<le> 2 * h + 1" by presburger
    ultimately show ?thesis using H b by simp
  qed
qed

lemma adjust_heap_heap:
  assumes sw: "strict_weak lt" and H: "heap_from lt xs (Suc k)" and k: "k < length xs"
  shows "heap_from lt (adjust_heap lt xs k (length xs) v) k"
proof -
  obtain ys h where s: "sink_hole lt xs k (length xs) = (ys, h)" by force
  have "holed lt xs k k"
    using H by (auto simp: holed_def heap_from_def)
  from sink_hole_holed [OF sw this below.here k refl] s
  have ys: "holed lt ys k h" "below k h" "length xs \<le> 2 * h + 1" by simp_all
  from sink_hole_spec [OF k refl, of lt v] s have len: "length ys = length xs" "h < length xs"
    by simp_all
  have leaf: "\<not> (c < length ys \<and> 0 < c \<and> parent c = h)" for c
    using ys(3) len parent_eq_child [of c h] by auto
  have "heap_from lt (push_hole lt ys h k v) k"
    using ys len leaf by (intro push_hole_heap [OF sw]) auto
  with s show ?thesis by (simp add: adjust_heap_def)
qed

subsection \<open>The interface holds\<close>

lemma make_loop_mset: "p \<le> length xs \<Longrightarrow> mset (make_loop lt xs p) = mset xs"
proof (induction p arbitrary: xs)
  case (Suc p)
  then have "p < length xs" by simp
  from adjust_heap_mset [OF this, of lt "xs ! p"] Suc show ?case by simp
qed simp

lemma make_loop_heap:
  assumes sw: "strict_weak lt"
  shows "heap_from lt xs p \<Longrightarrow> p \<le> length xs \<Longrightarrow> is_heap lt (make_loop lt xs p)"
proof (induction p arbitrary: xs)
  case (Suc p)
  then have p: "p < length xs" by simp
  from adjust_heap_heap [OF sw Suc.prems(1) p] adjust_heap_mset(2) [OF p] Suc p show ?case
    by simp
qed (simp add: is_heap_def)

lemma heap_from_leaves: "length xs \<le> 2 * k + 1 \<Longrightarrow> heap_from lt xs k"
  unfolding heap_from_def parent_def by (intro allI impI) presburger

lemma is_heap_top:
  assumes sw: "strict_weak lt" and "is_heap lt xs"
  shows "i < length xs \<Longrightarrow> \<not> lt (xs ! 0) (xs ! i)"
proof (induction i rule: less_induct)
  case (less i)
  show ?case
  proof (cases "i = 0")
    case True
    with strict_weak_asym [OF sw] show ?thesis by auto
  next
    case False
    then have p: "parent i < i" by (simp add: parent_less)
    with less have "\<not> lt (xs ! 0) (xs ! parent i)" by simp
    moreover have "\<not> lt (xs ! parent i) (xs ! i)"
      using assms(2) False less.prems by (simp add: is_heap_def heap_from_def)
    ultimately show ?thesis by (rule strict_weak_trans [OF sw])
  qed
qed

lemma below_0: "below 0 n"
proof (induction n rule: less_induct)
  case (less n)
  show ?case
  proof (cases "n = 0")
    case False
    then have "below 0 (parent n)" using less by (simp add: parent_less)
    moreover from False have "n = 2 * parent n + 1 \<or> n = 2 * parent n + 2"
      using parent_eq_child [of n "parent n"] by simp
    ultimately show ?thesis by (metis below.left below.right)
  qed (simp add: below.here)
qed

lemma std_push_heap_heap:
  assumes sw: "strict_weak lt" and H: "is_heap lt (butlast xs)"
  shows "is_heap lt (std_push_heap lt xs)"
proof (cases "xs = []")
  case False
  let ?n = "length xs - 1"
  from False have n: "?n < length xs" by simp
  have leaf: "parent c \<noteq> ?n" if "c < length xs" "0 < c" for c
    using that parent_less [of c] by simp
  have "holed lt xs 0 ?n"
    unfolding holed_def
  proof (intro conjI allI impI)
    fix i assume i: "i < length xs" "0 < i" "i \<noteq> ?n"
    then have i': "i < length (butlast xs)" by simp
    then have "parent i < length (butlast xs)" using parent_less [OF i(2)] by simp
    moreover have "\<not> lt (butlast xs ! parent i) (butlast xs ! i)"
      using i' i(2) H by (simp add: is_heap_def heap_from_def)
    ultimately show "\<not> lt (xs ! parent i) (xs ! i)" using i' by (simp only: nth_butlast not_False_eq_True)
  qed (use leaf in auto)
  then have "heap_from lt (push_hole lt xs ?n 0 (last xs)) 0"
    using n leaf by (intro push_hole_heap [OF sw]) (auto simp: below_0)
  with False show ?thesis by (simp add: is_heap_def std_push_heap_def)
qed (simp add: std_push_heap_def is_heap_def heap_from_def)

lemma std_pop_heap_heap:
  assumes sw: "strict_weak lt" and H: "is_heap lt xs"
  shows "is_heap lt (butlast (std_pop_heap lt xs))"
proof (cases "1 < length xs")
  case True
  have "heap_from lt (butlast xs) (Suc 0)"
    unfolding heap_from_def
  proof (intro allI impI)
    fix i assume i: "i < length (butlast xs)" "0 < i"
    with H parent_less [OF i(2)] show "\<not> lt (butlast xs ! parent i) (butlast xs ! i)"
      by (simp add: is_heap_def heap_from_def nth_butlast)
  qed
  moreover have "0 < length (butlast xs)" using True by simp
  ultimately have "is_heap lt (adjust_heap lt (butlast xs) 0 (length (butlast xs)) (last xs))"
    unfolding is_heap_def by (rule adjust_heap_heap [OF sw])
  with True show ?thesis by (simp add: std_pop_heap_def)
next
  case False
  then have "length xs \<le> 1" by simp
  then show ?thesis by (simp add: std_pop_heap_def is_heap_def heap_from_def)
qed

lemma std_pop_heap_mset: "mset (std_pop_heap lt xs) = mset xs"
proof (cases "1 < length xs")
  case True
  then obtain y ys z where xs: "xs = y # ys @ [z]"
    by (cases xs; cases "tl xs" rule: rev_cases) auto
  have "0 < length (y # ys)" by simp
  from adjust_heap_mset(1) [OF this, of lt z] show ?thesis
    by (simp add: std_pop_heap_def xs butlast_append)
qed (simp add: std_pop_heap_def)

interpretation std: heap_algorithms is_heap std_make_heap std_push_heap std_pop_heap
proof unfold_locales
  fix lt :: "'a \<Rightarrow> 'a \<Rightarrow> bool" and xs :: "'a list" and x
  show "mset (std_make_heap lt xs) = mset xs"
    by (simp add: std_make_heap_def make_loop_mset del: make_loop.simps)
  show "mset (std_push_heap lt xs) = mset xs"
    by (simp add: std_push_heap_def push_hole_mset list_update_id last_conv_nth)
  show "mset (std_pop_heap lt xs) = mset xs" by (rule std_pop_heap_mset)
  show "last (std_pop_heap lt xs) = hd xs" if "xs \<noteq> []"
    using that by (cases xs) (auto simp: std_pop_heap_def)
  assume sw: "strict_weak lt"
  show "is_heap lt (std_make_heap lt xs)"
    using make_loop_heap [OF sw heap_from_leaves, of xs "Suc ((length xs - 2) div 2)"]
    by (auto simp: std_make_heap_def is_heap_def heap_from_def simp del: make_loop.simps)
  show "is_heap lt (std_push_heap lt xs)" if "is_heap lt (butlast xs)"
    using sw that by (rule std_push_heap_heap)
  show "is_heap lt (butlast (std_pop_heap lt xs))" if "is_heap lt xs"
    using sw that by (rule std_pop_heap_heap)
  show "\<not> lt (hd xs) x" if "is_heap lt xs" "x \<in> set xs"
    using that is_heap_top [OF sw that(1)]
    by (metis hd_conv_nth in_set_conv_nth list.set_cases list.distinct(1))
qed

end
