(* ===== verification/Lrucache.thy ===== *)
theory Lrucache
  imports Std_Heap
begin

section \<open>The block cache (\<open>util/lrucache.h\<close>)\<close>

text \<open>
  The class \<open>util::LRUCache\<close>. Its vector \<open>_heap\<close> and its table \<open>_map\<close> hold
  pointers to the same \<open>BlockCacheData\<close> objects, and \<open>get\<close>, \<open>put\<close> and
  \<open>invalidate\<close> change an object through one while it sits in the other, so the model keeps
  an explicit store of objects: \<open>new\<close> takes the next address, \<open>delete\<close> removes the
  object, and a use of an address that holds no object is the error \<open>UseAfterFree\<close>. The
  heap algorithms are those of theory \<open>Std_Heap\<close>, under the comparator that reads the
  objects' access times from the store.
\<close>

subsection \<open>State\<close>

record BlockCacheData =
  bc_key :: string
  bc_data :: bytes
  bc_atime :: u64

type_synonym ptr = nat

record lrucache =
  lru_size :: u64
  lru_heap :: "ptr list"
  lru_map :: "string \<rightharpoonup> ptr"
  lru_timeCnt :: u64
  lru_mem :: "ptr \<rightharpoonup> BlockCacheData"
  lru_next :: ptr

text \<open>\<open>LRUCache(int size)\<close> stores its \<open>int\<close> argument in a \<open>size_t\<close>.\<close>

definition new_lrucache :: "i32 \<Rightarrow> lrucache" where
  "new_lrucache sz = \<lparr>lru_size = scast sz, lru_heap = [], lru_map = Map.empty, lru_timeCnt = 1,
                      lru_mem = Map.empty, lru_next = 0\<rparr>"

subsection \<open>Operations\<close>

definition deref :: "(ptr \<rightharpoonup> BlockCacheData) \<Rightarrow> ptr \<Rightarrow> BlockCacheData res" where
  "deref mem p = (case mem p of None \<Rightarrow> Inl UseAfterFree | Some d \<Rightarrow> Inr d)"

definition obj_atime :: "(ptr \<rightharpoonup> BlockCacheData) \<Rightarrow> ptr \<Rightarrow> u64" where
  "obj_atime mem p = (case mem p of None \<Rightarrow> 0 | Some d \<Rightarrow> bc_atime d)"

definition Compare :: "(ptr \<rightharpoonup> BlockCacheData) \<Rightarrow> ptr \<Rightarrow> ptr \<Rightarrow> bool" where
  "Compare mem a b \<longleftrightarrow> obj_atime mem a > obj_atime mem b"

text \<open>
  A call of one of the heap algorithms on the whole of \<open>_heap\<close>: the comparator
  dereferences the pointers, so they all have to be live.
\<close>

definition heap_call ::
  "((ptr \<Rightarrow> ptr \<Rightarrow> bool) \<Rightarrow> ptr list \<Rightarrow> ptr list) \<Rightarrow> lrucache \<Rightarrow> lrucache res" where
  "heap_call f c =
     (if list_all (\<lambda>p. lru_mem c p \<noteq> None) (lru_heap c)
      then Inr (c\<lparr>lru_heap := f (Compare (lru_mem c)) (lru_heap c)\<rparr>)
      else Inl UseAfterFree)"

definition pop_back :: "lrucache \<Rightarrow> lrucache res" where
  "pop_back c = (if lru_heap c = [] then Inl OutOfBounds
                 else Inr (c\<lparr>lru_heap := butlast (lru_heap c)\<rparr>))"

definition invalidate :: "lrucache \<Rightarrow> string \<Rightarrow> lrucache res" where
  "invalidate c k = (case lru_map c k of
     None \<Rightarrow> Inr c
   | Some b \<Rightarrow>
       rbind (deref (lru_mem c) b) (\<lambda>d.
       rbind (heap_call std_make_heap
                (c\<lparr>lru_map := (lru_map c)(k := None),
                   lru_mem := (lru_mem c)(b \<mapsto> d\<lparr>bc_atime := 0\<rparr>)\<rparr>)) (\<lambda>c.
       rbind (heap_call std_pop_heap c) (\<lambda>c.
       rbind (pop_back c) (\<lambda>c.
         Inr (c\<lparr>lru_mem := (lru_mem c)(b := None)\<rparr>))))))"

definition get :: "lrucache \<Rightarrow> string \<Rightarrow> (bytes option \<times> lrucache) res" where
  "get c k = (case lru_map c k of
     None \<Rightarrow> Inr (None, c)
   | Some b \<Rightarrow>
       rbind (deref (lru_mem c) b) (\<lambda>d.
       rbind (heap_call std_make_heap
                (c\<lparr>lru_mem := (lru_mem c)(b \<mapsto> d\<lparr>bc_atime := lru_timeCnt c\<rparr>),
                   lru_timeCnt := lru_timeCnt c + 1\<rparr>)) (\<lambda>c.
         Inr (Some (bc_data d), c))))"

definition put :: "lrucache \<Rightarrow> string \<Rightarrow> bytes \<Rightarrow> lrucache res" where
  "put c k data = (case lru_map c k of
     Some b \<Rightarrow>
       rbind (deref (lru_mem c) b) (\<lambda>d.
         Inr (c\<lparr>lru_mem := (lru_mem c)(b \<mapsto> d\<lparr>bc_atime := lru_timeCnt c, bc_data := data\<rparr>),
                lru_timeCnt := lru_timeCnt c + 1\<rparr>))
   | None \<Rightarrow>
       (let b = lru_next c in
        rbind (heap_call std_push_heap
                 (c\<lparr>lru_next := b + 1,
                    lru_mem := (lru_mem c)(b \<mapsto> \<lparr>bc_key = k, bc_data = data,
                                                   bc_atime = lru_timeCnt c\<rparr>),
                    lru_timeCnt := lru_timeCnt c + 1,
                    lru_heap := lru_heap c @ [b]\<rparr>)) (\<lambda>c.
        let c = c\<lparr>lru_map := (lru_map c)(k \<mapsto> b)\<rparr> in
        if unat (lru_size c) < length (lru_heap c)
        then rbind (heap_call std_pop_heap c) (\<lambda>c.
             rbind (deref (lru_mem c) (last (lru_heap c))) (\<lambda>v.
             let b = last (lru_heap c) in
             rbind (pop_back c) (\<lambda>c.
               Inr (c\<lparr>lru_map := (lru_map c)(bc_key v := None),
                      lru_mem := (lru_mem c)(b := None)\<rparr>))))
        else Inr c)))"

text \<open>The destructor deletes the objects from the back of the vector.\<close>

definition delete_obj :: "(ptr \<rightharpoonup> BlockCacheData) \<Rightarrow> ptr \<Rightarrow> (ptr \<rightharpoonup> BlockCacheData) res" where
  "delete_obj mem p = (if mem p = None then Inl UseAfterFree else Inr (mem(p := None)))"

definition destroy :: "lrucache \<Rightarrow> lrucache res" where
  "destroy c =
     rbind (rfold delete_obj (lru_mem c) (rev (lru_heap c))) (\<lambda>mem.
       Inr (c\<lparr>lru_mem := mem, lru_heap := [], lru_map := Map.empty\<rparr>))"

subsection \<open>The invariant and the abstract contents\<close>

text \<open>
  The table and the vector hold the same objects, each object is filed under its own key, and
  access times are positive, below the counter and pairwise different. \<open>ordered\<close> says that
  the vector is in heap order.
\<close>

definition lru_ok :: "lrucache \<Rightarrow> bool" where
  "lru_ok c \<longleftrightarrow>
     0 < lru_timeCnt c \<and> distinct (lru_heap c) \<and> dom (lru_mem c) = set (lru_heap c) \<and>
     (\<forall>p d. lru_mem c p = Some d \<longrightarrow> lru_map c (bc_key d) = Some p \<and>
        0 < bc_atime d \<and> bc_atime d < lru_timeCnt c \<and> p < lru_next c) \<and>
     (\<forall>k p. lru_map c k = Some p \<longrightarrow> (\<exists>d. lru_mem c p = Some d \<and> bc_key d = k)) \<and>
     (\<forall>p q. p \<in> dom (lru_mem c) \<longrightarrow> obj_atime (lru_mem c) p = obj_atime (lru_mem c) q \<longrightarrow>
        q \<in> dom (lru_mem c) \<longrightarrow> p = q)"

definition ordered :: "lrucache \<Rightarrow> bool" where
  "ordered c \<longleftrightarrow> is_heap (Compare (lru_mem c)) (lru_heap c)"

definition within_size :: "lrucache \<Rightarrow> bool" where
  "within_size c \<longleftrightarrow> length (lru_heap c) \<le> unat (lru_size c)"

definition contents :: "lrucache \<Rightarrow> string \<Rightarrow> (bytes \<times> u64) option" where
  "contents c k = (case lru_map c k of
     None \<Rightarrow> None
   | Some p \<Rightarrow> map_option (\<lambda>d. (bc_data d, bc_atime d)) (lru_mem c p))"

lemma strict_weak_Compare [simp]: "strict_weak (Compare mem)"
  unfolding Compare_def by (rule strict_weak_key)

lemma lru_okD:
  assumes "lru_ok c"
  shows "distinct (lru_heap c)" and "dom (lru_mem c) = set (lru_heap c)"
    and "lru_mem c p = Some d \<Longrightarrow> lru_map c (bc_key d) = Some p"
    and "lru_mem c p = Some d \<Longrightarrow> 0 < bc_atime d"
    and "lru_mem c p = Some d \<Longrightarrow> bc_atime d < lru_timeCnt c"
    and "lru_mem c p = Some d \<Longrightarrow> p < lru_next c"
    and "lru_map c k = Some p \<Longrightarrow> \<exists>d. lru_mem c p = Some d \<and> bc_key d = k"
    and "lru_mem c p = Some d \<Longrightarrow> lru_mem c q = Some e \<Longrightarrow> bc_atime d = bc_atime e \<Longrightarrow> p = q"
    and "0 < lru_timeCnt c"
  using assms by (auto simp: lru_ok_def obj_atime_def dom_def split: option.splits)

lemma lru_okI:
  assumes "distinct (lru_heap c)" and "dom (lru_mem c) = set (lru_heap c)"
    and "\<And>p d. lru_mem c p = Some d \<Longrightarrow> lru_map c (bc_key d) = Some p"
    and "\<And>p d. lru_mem c p = Some d \<Longrightarrow>
           0 < bc_atime d \<and> bc_atime d < lru_timeCnt c \<and> p < lru_next c"
    and "\<And>k p. lru_map c k = Some p \<Longrightarrow> \<exists>d. lru_mem c p = Some d \<and> bc_key d = k"
    and "\<And>p q d e. lru_mem c p = Some d \<Longrightarrow> lru_mem c q = Some e \<Longrightarrow>
           bc_atime d = bc_atime e \<Longrightarrow> p = q"
    and "0 < lru_timeCnt c"
  shows "lru_ok c"
  using assms by (auto simp: lru_ok_def obj_atime_def split: option.splits)

lemma heap_call_live:
  "dom (lru_mem c) = set (lru_heap c) \<Longrightarrow>
   heap_call f c = Inr (c\<lparr>lru_heap := f (Compare (lru_mem c)) (lru_heap c)\<rparr>)"
  by (auto simp: heap_call_def list_all_iff)

lemma new_lrucache_ok: "lru_ok (new_lrucache sz)" "ordered (new_lrucache sz)"
  "within_size (new_lrucache sz)"
  by (simp_all add: new_lrucache_def lru_ok_def ordered_def within_size_def is_heap_def heap_from_def)

subsection \<open>What each primitive change keeps\<close>

lemma tick: "unat (t :: u64) + 1 < 2 ^ 64 \<Longrightarrow> x \<le> t \<Longrightarrow> x < t + 1"
proof -
  assume a: "unat t + 1 < 2 ^ 64" and x: "x \<le> t"
  from a have "unat (t + 1) = unat t + 1" by (simp add: unat_word_ariths)
  with x show "x < t + 1" by (simp add: word_less_nat_alt word_le_nat_alt)
qed

lemma contents_iff:
  "lru_ok c \<Longrightarrow> contents c k = Some (dt, t) \<longleftrightarrow>
     (\<exists>p d. lru_map c k = Some p \<and> lru_mem c p = Some d \<and> bc_key d = k \<and>
            bc_data d = dt \<and> bc_atime d = t)"
  using lru_okD(7) [of c k] by (auto simp: contents_def split: option.splits)

lemma contents_None_iff: "lru_ok c \<Longrightarrow> contents c k = None \<longleftrightarrow> lru_map c k = None"
  using lru_okD(7) [of c k] by (auto simp: contents_def split: option.splits)

text \<open>Touching an object: new data, the current time, and any permutation of the vector.\<close>

lemma lru_ok_touch:
  assumes ok: "lru_ok c" and b: "lru_mem c b = Some d" and nw: "unat (lru_timeCnt c) + 1 < 2 ^ 64"
    and k: "bc_key d' = bc_key d" and t: "bc_atime d' = lru_timeCnt c" and hs: "mset hs = mset (lru_heap c)"
  defines "c' \<equiv> c\<lparr>lru_mem := (lru_mem c)(b \<mapsto> d'), lru_timeCnt := lru_timeCnt c + 1, lru_heap := hs\<rparr>"
  shows "lru_ok c'" and "contents c' = (contents c)(bc_key d \<mapsto> (bc_data d', lru_timeCnt c))"
proof -
  note pos = lru_okD(9) [OF ok]
  obtain T where T: "lru_timeCnt c + 1 = T" and nowrap: "lru_timeCnt c < T"
    using tick [OF nw order_refl] by blast
  note c'_eq = c'_def [unfolded T]
  show "lru_ok c'"
  proof (rule lru_okI)
    show "distinct (lru_heap c')"
      using lru_okD(1) [OF ok] mset_eq_imp_distinct_iff [OF hs] by (simp add: c'_eq)
    show "dom (lru_mem c') = set (lru_heap c')"
      using lru_okD(2) [OF ok] mset_eq_setD [OF hs] b by (auto simp: c'_eq)
    show "lru_map c' (bc_key e) = Some p" if "lru_mem c' p = Some e" for p e
      using that lru_okD(3) [OF ok, of p e] lru_okD(3) [OF ok b] k by (auto simp: c'_eq split: if_splits)
    show "0 < bc_atime e \<and> bc_atime e < lru_timeCnt c' \<and> p < lru_next c'"
      if "lru_mem c' p = Some e" for p e
      using that lru_okD(4-6) [OF ok, of p e] lru_okD(6) [OF ok b] t pos
        nowrap less_trans [OF _ nowrap, of "bc_atime e"]
      by (auto simp: c'_eq split: if_splits)
    show "\<exists>e. lru_mem c' p = Some e \<and> bc_key e = k'" if "lru_map c' k' = Some p" for k' p
      using that lru_okD(7) [OF ok, of k' p] b k by (auto simp: c'_eq)
    show "p = q" if "lru_mem c' p = Some e" "lru_mem c' q = Some f" "bc_atime e = bc_atime f" for p q e f
      using that lru_okD(5) [OF ok, of p e] lru_okD(5) [OF ok, of q f] lru_okD(8) [OF ok, of p e q f] t
      by (auto simp: c'_eq split: if_splits)
    show "0 < lru_timeCnt c'" using pos nowrap by (simp add: c'_eq less_trans)
  qed
  show "contents c' = (contents c)(bc_key d \<mapsto> (bc_data d', lru_timeCnt c))"
  proof
    fix k'
    show "contents c' k' = ((contents c)(bc_key d \<mapsto> (bc_data d', lru_timeCnt c))) k'"
    proof (cases "k' = bc_key d")
      case True
      with lru_okD(3) [OF ok b] t show ?thesis by (simp add: contents_def c'_eq)
    next
      case False
      with lru_okD(7) [OF ok, of k' b] b have "lru_map c k' \<noteq> Some b" by auto
      with False show ?thesis by (auto simp: contents_def c'_eq split: option.split)
    qed
  qed
qed

text \<open>Removing one object from the vector, the table and the store.\<close>

lemma lru_ok_remove:
  assumes ok: "lru_ok c" and b: "lru_mem c b = Some d"
    and hs: "distinct hs" "set hs = set (lru_heap c) - {b}"
  defines "c' \<equiv> c\<lparr>lru_heap := hs, lru_map := (lru_map c)(bc_key d := None),
                   lru_mem := (lru_mem c)(b := None)\<rparr>"
  shows "lru_ok c'" and "contents c' = (contents c)(bc_key d := None)"
proof -
  show "lru_ok c'"
  proof (rule lru_okI)
    show "lru_map c' (bc_key e) = Some p" if "lru_mem c' p = Some e" for p e
      using that lru_okD(3) [OF ok b] lru_okD(3) [OF ok, of p e] by (auto simp: c'_def split: if_splits)
    show "\<exists>e. lru_mem c' p = Some e \<and> bc_key e = k'" if "lru_map c' k' = Some p" for k' p
      using that lru_okD(7) [OF ok, of k' p] b by (auto simp: c'_def split: if_splits)
    show "0 < bc_atime e \<and> bc_atime e < lru_timeCnt c' \<and> p < lru_next c'"
      if "lru_mem c' p = Some e" for p e
      using that lru_okD(4-6) [OF ok, of p e] by (auto simp: c'_def split: if_splits)
    show "p = q" if "lru_mem c' p = Some e" "lru_mem c' q = Some f" "bc_atime e = bc_atime f" for p q e f
      using that lru_okD(8) [OF ok, of p e q f] by (auto simp: c'_def split: if_splits)
  qed (use lru_okD(2,9) [OF ok] hs in \<open>auto simp: c'_def\<close>)
  show "contents c' = (contents c)(bc_key d := None)"
  proof
    fix k'
    show "contents c' k' = ((contents c)(bc_key d := None)) k'"
      using lru_okD(7) [OF ok, of k' b] b
      by (auto simp: contents_def c'_def split: option.splits)
  qed
qed

text \<open>Adding a fresh object.\<close>

lemma lru_ok_add:
  fixes dt :: bytes
  assumes ok: "lru_ok c" and k: "lru_map c k = None" and nw: "unat (lru_timeCnt c) + 1 < 2 ^ 64"
    and hs: "mset hs = mset (lru_heap c @ [lru_next c])"
  defines "c' \<equiv> c\<lparr>lru_next := lru_next c + 1,
      lru_mem := (lru_mem c)(lru_next c \<mapsto> \<lparr>bc_key = k, bc_data = dt, bc_atime = lru_timeCnt c\<rparr>),
      lru_timeCnt := lru_timeCnt c + 1, lru_heap := hs, lru_map := (lru_map c)(k \<mapsto> lru_next c)\<rparr>"
  shows "lru_ok c'" and "contents c' = (contents c)(k \<mapsto> (dt, lru_timeCnt c))"
proof -
  have fresh: "lru_mem c (lru_next c) = None"
    using lru_okD(6) [OF ok, of "lru_next c"] by (cases "lru_mem c (lru_next c)") auto
  then have fresh_heap: "lru_next c \<notin> set (lru_heap c)"
    using lru_okD(2) [OF ok] by blast
  note pos = lru_okD(9) [OF ok]
  obtain T where T: "lru_timeCnt c + 1 = T" and nowrap: "lru_timeCnt c < T"
    using tick [OF nw order_refl] by blast
  note c'_eq = c'_def [unfolded T]
  show "lru_ok c'"
  proof (rule lru_okI)
    show "distinct (lru_heap c')"
      using lru_okD(1) [OF ok] fresh_heap mset_eq_imp_distinct_iff [OF hs] by (simp add: c'_eq)
    show "dom (lru_mem c') = set (lru_heap c')"
      using lru_okD(2) [OF ok] mset_eq_setD [OF hs] by (auto simp: c'_eq)
    show "lru_map c' (bc_key e) = Some p" if "lru_mem c' p = Some e" for p e
      using that lru_okD(3) [OF ok, of p e] k by (auto simp: c'_eq split: if_splits)
    show "0 < bc_atime e \<and> bc_atime e < lru_timeCnt c' \<and> p < lru_next c'"
      if "lru_mem c' p = Some e" for p e
      using that lru_okD(4-6) [OF ok, of p e] lru_okD(9) [OF ok]
        nowrap less_trans [OF _ nowrap, of "bc_atime e"]
      by (auto simp: c'_eq split: if_splits)
    show "\<exists>e. lru_mem c' p = Some e \<and> bc_key e = k'" if "lru_map c' k' = Some p" for k' p
      using that lru_okD(7) [OF ok, of k' p] fresh by (auto simp: c'_eq split: if_splits)
    show "p = q" if "lru_mem c' p = Some e" "lru_mem c' q = Some f" "bc_atime e = bc_atime f" for p q e f
      using that lru_okD(5) [OF ok, of p e] lru_okD(5) [OF ok, of q f] lru_okD(8) [OF ok, of p e q f]
      by (auto simp: c'_eq split: if_splits)
    show "0 < lru_timeCnt c'" using pos nowrap by (simp add: c'_eq less_trans)
  qed
  show "contents c' = (contents c)(k \<mapsto> (dt, lru_timeCnt c))"
  proof
    fix k'
    show "contents c' k' = ((contents c)(k \<mapsto> (dt, lru_timeCnt c))) k'"
      using fresh lru_okD(7) [OF ok, of k' "lru_next c"]
      by (auto simp: contents_def c'_eq split: option.splits)
  qed
qed

subsection \<open>The operations\<close>

lemma get_miss: "lru_map c k = None \<Longrightarrow> get c k = Inr (None, c)"
  by (simp add: get_def)

lemma get_hit:
  assumes ok: "lru_ok c" and m: "lru_map c k = Some b" and b: "lru_mem c b = Some d"
    and nw: "unat (lru_timeCnt c) + 1 < 2 ^ 64"
  obtains c' where "get c k = Inr (Some (bc_data d), c')" and "lru_ok c'" and "ordered c'"
    and "contents c' = (contents c)(k \<mapsto> (bc_data d, lru_timeCnt c))"
    and "lru_size c' = lru_size c" and "length (lru_heap c') = length (lru_heap c)"
    and "lru_timeCnt c' = lru_timeCnt c + 1"
proof -
  let ?mem = "(lru_mem c)(b \<mapsto> d\<lparr>bc_atime := lru_timeCnt c\<rparr>)"
  let ?hs = "std_make_heap (Compare ?mem) (lru_heap c)"
  let ?c' = "c\<lparr>lru_mem := ?mem, lru_timeCnt := lru_timeCnt c + 1, lru_heap := ?hs\<rparr>"
  from lru_okD(7) [OF ok m] b have k: "bc_key d = k" by simp
  have "dom ?mem = set (lru_heap c)" using lru_okD(2) [OF ok] b by auto
  then have "get c k = Inr (Some (bc_data d), ?c')"
    using m b by (simp add: get_def deref_def heap_call_live)
  moreover have "lru_ok ?c'" and "contents ?c' = (contents c)(k \<mapsto> (bc_data d, lru_timeCnt c))"
    using lru_ok_touch [OF ok b nw, of "d\<lparr>bc_atime := lru_timeCnt c\<rparr>" ?hs] k
    by (simp_all add: std.make_mset)
  moreover have "ordered ?c'" by (simp add: ordered_def std.make_heap)
  ultimately show thesis by (intro that [of ?c']) simp_all
qed

lemma put_existing:
  assumes ok: "lru_ok c" and m: "lru_map c k = Some b" and nw: "unat (lru_timeCnt c) + 1 < 2 ^ 64"
  obtains c' where "put c k dt = Inr c'" and "lru_ok c'"
    and "contents c' = (contents c)(k \<mapsto> (dt, lru_timeCnt c))"
    and "lru_size c' = lru_size c" and "lru_heap c' = lru_heap c"
    and "lru_timeCnt c' = lru_timeCnt c + 1" and "lru_map c' = lru_map c"
proof -
  from lru_okD(7) [OF ok m] obtain d where b: "lru_mem c b = Some d" "bc_key d = k" by blast
  let ?d = "d\<lparr>bc_atime := lru_timeCnt c, bc_data := dt\<rparr>"
  let ?c' = "c\<lparr>lru_mem := (lru_mem c)(b \<mapsto> ?d), lru_timeCnt := lru_timeCnt c + 1\<rparr>"
  have "put c k dt = Inr ?c'" using m b by (simp add: put_def deref_def)
  moreover have "lru_ok ?c'" and "contents ?c' = (contents c)(k \<mapsto> (dt, lru_timeCnt c))"
    using lru_ok_touch [OF ok b(1) nw, of ?d "lru_heap c"] b by simp_all
  ultimately show thesis by (intro that [of ?c']) simp_all
qed

text \<open>The state of \<open>put\<close> after the new object is in the vector and the table.\<close>

definition pushed :: "lrucache \<Rightarrow> string \<Rightarrow> bytes \<Rightarrow> lrucache" where
  "pushed c k dt =
     (let mem = (lru_mem c)(lru_next c \<mapsto> \<lparr>bc_key = k, bc_data = dt, bc_atime = lru_timeCnt c\<rparr>)
      in c\<lparr>lru_next := lru_next c + 1, lru_mem := mem, lru_timeCnt := lru_timeCnt c + 1,
           lru_heap := std_push_heap (Compare mem) (lru_heap c @ [lru_next c]),
           lru_map := (lru_map c)(k \<mapsto> lru_next c)\<rparr>)"

lemma pushed_ok:
  assumes "lru_ok c" and "lru_map c k = None" and "unat (lru_timeCnt c) + 1 < 2 ^ 64"
  shows "lru_ok (pushed c k dt)"
    and "contents (pushed c k dt) = (contents c)(k \<mapsto> (dt, lru_timeCnt c))"
    and "length (lru_heap (pushed c k dt)) = length (lru_heap c) + 1"
  using lru_ok_add [OF assms, where dt = dt] by (simp_all add: pushed_def Let_def std.push_mset)

lemma Compare_cong: "p \<noteq> b \<Longrightarrow> q \<noteq> b \<Longrightarrow> Compare (mem(b \<mapsto> d)) p q = Compare mem p q"
  by (simp add: Compare_def obj_atime_def)

lemma is_heap_cong:
  assumes "\<And>p q. p \<in> set xs \<Longrightarrow> q \<in> set xs \<Longrightarrow> f p q = g p q"
  shows "is_heap f xs = is_heap g xs"
proof -
  have "f (xs ! parent i) (xs ! i) = g (xs ! parent i) (xs ! i)" if "i < length xs" "0 < i" for i
    using that parent_less [OF that(2)] by (intro assms) simp_all
  then show ?thesis by (simp add: is_heap_def heap_from_def)
qed

lemma pushed_ordered:
  assumes ok: "lru_ok c" and o: "ordered c"
  shows "ordered (pushed c k dt)"
proof -
  let ?mem = "(lru_mem c)(lru_next c \<mapsto> \<lparr>bc_key = k, bc_data = dt, bc_atime = lru_timeCnt c\<rparr>)"
  have fresh: "p \<noteq> lru_next c" if "p \<in> set (lru_heap c)" for p
    using that lru_okD(2) [OF ok] lru_okD(6) [OF ok, of p] by auto
  have "is_heap (Compare ?mem) (lru_heap c) = is_heap (Compare (lru_mem c)) (lru_heap c)"
    by (rule is_heap_cong) (simp add: Compare_cong fresh)
  with o have "is_heap (Compare ?mem) (butlast (lru_heap c @ [lru_next c]))"
    by (simp add: ordered_def)
  then show ?thesis
    by (simp add: ordered_def pushed_def Let_def std.push_heap)
qed

lemma put_new_room:
  assumes ok: "lru_ok c" and m: "lru_map c k = None" and room: "length (lru_heap c) < unat (lru_size c)"
  shows "put c k dt = Inr (pushed c k dt)"
proof -
  have "dom ((lru_mem c)(lru_next c \<mapsto> x)) = set (lru_heap c @ [lru_next c])" for x
    using lru_okD(2) [OF ok] by auto
  then show ?thesis
    using m room by (simp add: put_def Let_def heap_call_live pushed_def)
qed

text \<open>When the cache is full, the object at the front of the vector goes.\<close>

lemma put_new_full:
  assumes ok: "lru_ok c" and m: "lru_map c k = None" and full: "unat (lru_size c) \<le> length (lru_heap c)"
    and nw: "unat (lru_timeCnt c) + 1 < 2 ^ 64"
  obtains c' v where "put c k dt = Inr c'" and "lru_ok c'"
    and "lru_mem (pushed c k dt) (hd (lru_heap (pushed c k dt))) = Some v"
    and "contents c' = ((contents c)(k \<mapsto> (dt, lru_timeCnt c)))(bc_key v := None)"
    and "length (lru_heap c') = length (lru_heap c)" and "lru_size c' = lru_size c"
    and "lru_timeCnt c' = lru_timeCnt c + 1" and "ordered (pushed c k dt) \<longrightarrow> ordered c'"
proof -
  let ?p = "pushed c k dt"
  let ?h = "hd (lru_heap ?p)"
  let ?hs = "butlast (std_pop_heap (Compare (lru_mem ?p)) (lru_heap ?p))"
  note p = pushed_ok [OF ok m nw, of dt]
  have ne: "lru_heap ?p \<noteq> []" using p(3) by auto
  then have pne: "std_pop_heap (Compare (lru_mem ?p)) (lru_heap ?p) \<noteq> []"
    using std.pop_length by (metis length_0_conv)
  from ne lru_okD(2) [OF p(1)] obtain v where v: "lru_mem ?p ?h = Some v"
    by (metis domD hd_in_set)
  have hs: "distinct ?hs" "set ?hs = set (lru_heap ?p) - {?h}"
    using std.pop_back_distinct [OF lru_okD(1) [OF p(1)] ne] by simp_all
  let ?c' = "?p\<lparr>lru_heap := ?hs, lru_map := (lru_map ?p)(bc_key v := None), lru_mem := (lru_mem ?p)(?h := None)\<rparr>"
  have dom1: "dom ((lru_mem c)(lru_next c \<mapsto> x)) = set (lru_heap c @ [lru_next c])" for x
    using lru_okD(2) [OF ok] by auto
  have push: "heap_call std_push_heap
      (c\<lparr>lru_next := lru_next c + 1,
         lru_mem := (lru_mem c)(lru_next c \<mapsto> \<lparr>bc_key = k, bc_data = dt, bc_atime = lru_timeCnt c\<rparr>),
         lru_timeCnt := lru_timeCnt c + 1, lru_heap := lru_heap c @ [lru_next c]\<rparr>) =
      Inr (?p\<lparr>lru_map := lru_map c\<rparr>)"
    using dom1 by (subst heap_call_live) (simp_all add: pushed_def Let_def)
  have pop: "heap_call std_pop_heap ?p =
      Inr (?p\<lparr>lru_heap := std_pop_heap (Compare (lru_mem ?p)) (lru_heap ?p)\<rparr>)"
    by (rule heap_call_live [OF lru_okD(2) [OF p(1)]])
  have same: "?p\<lparr>lru_map := lru_map c\<rparr>\<lparr>lru_map := (lru_map (?p\<lparr>lru_map := lru_map c\<rparr>))(k \<mapsto> lru_next c)\<rparr> = ?p"
    "lru_size ?p = lru_size c"
    by (simp_all add: pushed_def Let_def)
  have "put c k dt = Inr ?c'"
    unfolding put_def m option.case Let_def push rbind_simps same
    using full p(3) ne pne v
    by (simp add: pop std.pop_last deref_def pop_back_def)
  moreover have "lru_ok ?c'" and "contents ?c' = ((contents c)(k \<mapsto> (dt, lru_timeCnt c)))(bc_key v := None)"
    using lru_ok_remove [OF p(1) v hs] p(2) by simp_all
  moreover have "ordered ?c'" if "ordered ?p"
  proof -
    from that have "is_heap (Compare (lru_mem ?p)) ?hs"
      by (simp add: ordered_def std.pop_heap)
    moreover have "is_heap (Compare (lru_mem ?p)) ?hs = is_heap (Compare ((lru_mem ?p)(?h := None))) ?hs"
      by (rule is_heap_cong) (auto simp: hs(2) Compare_def obj_atime_def)
    ultimately show ?thesis by (simp add: ordered_def)
  qed
  moreover have "length ?hs = length (lru_heap c)" using p(3) by simp
  moreover have "lru_timeCnt ?p = lru_timeCnt c + 1" by (simp add: pushed_def Let_def)
  ultimately show thesis
    using v same(2) by (intro that [of ?c' v]) simp_all
qed

text \<open>
  \<open>invalidate\<close> gives the object the time 0, which no other object has, so the heap
  algorithms bring exactly that object to the end of the vector.
\<close>

lemma invalidate_present:
  assumes ok: "lru_ok c" and m: "lru_map c k = Some b"
  obtains c' where "invalidate c k = Inr c'" and "lru_ok c'" and "ordered c'"
    and "contents c' = (contents c)(k := None)" and "lru_size c' = lru_size c"
    and "length (lru_heap c') = length (lru_heap c) - 1" and "lru_timeCnt c' = lru_timeCnt c"
proof -
  from lru_okD(7) [OF ok m] obtain d where b: "lru_mem c b = Some d" "bc_key d = k" by blast
  let ?mem = "(lru_mem c)(b \<mapsto> d\<lparr>bc_atime := 0\<rparr>)"
  let ?hs = "std_make_heap (Compare ?mem) (lru_heap c)"
  let ?ps = "std_pop_heap (Compare ?mem) ?hs"
  have dom: "dom ?mem = set (lru_heap c)" using lru_okD(2) [OF ok] b by auto
  have bh: "b \<in> set (lru_heap c)" using lru_okD(2) [OF ok] b by auto
  then have ne: "?hs \<noteq> []" by (metis empty_iff list.set(1) std.make_set)
  then have pne: "?ps \<noteq> []" using std.pop_length by (metis length_0_conv)
  have top: "hd ?hs = b"
  proof (rule ccontr)
    assume hb: "hd ?hs \<noteq> b"
    have "hd ?hs \<in> set (lru_heap c)" using hd_in_set [OF ne] by simp
    then obtain e where e: "lru_mem c (hd ?hs) = Some e" using lru_okD(2) [OF ok] by blast
    have "\<not> Compare ?mem (hd ?hs) b"
      using bh by (intro std.heap_top [of "Compare ?mem" ?hs]) (simp_all add: std.make_heap)
    with hb e lru_okD(4) [OF ok e] show False by (simp add: Compare_def obj_atime_def)
  qed
  have "distinct ?hs" using lru_okD(1) [OF ok] by simp
  from std.pop_back_distinct [OF this ne, of "Compare ?mem"]
  have hs: "distinct (butlast ?ps)" "set (butlast ?ps) = set (lru_heap c) - {b}"
    by (simp_all add: top)
  let ?c' = "c\<lparr>lru_heap := butlast ?ps, lru_map := (lru_map c)(bc_key d := None), lru_mem := (lru_mem c)(b := None)\<rparr>"
  have "invalidate c k = Inr ?c'"
    using m b dom pne by (simp add: invalidate_def deref_def heap_call_live pop_back_def)
  moreover have "lru_ok ?c'" and "contents ?c' = (contents c)(k := None)"
    using lru_ok_remove [OF ok b(1) hs] b(2) by simp_all
  moreover have "is_heap (Compare ((lru_mem c)(b := None))) (butlast ?ps)"
  proof -
    have "is_heap (Compare ?mem) (butlast ?ps)"
      by (simp add: std.make_heap std.pop_heap)
    moreover have "is_heap (Compare ?mem) (butlast ?ps) =
        is_heap (Compare ((lru_mem c)(b := None))) (butlast ?ps)"
      by (rule is_heap_cong) (auto simp: hs(2) Compare_def obj_atime_def)
    ultimately show ?thesis by simp
  qed
  ultimately show thesis
    by (intro that [of ?c']) (simp_all add: ordered_def)
qed

lemma delete_all:
  "distinct ps \<Longrightarrow> set ps \<subseteq> dom mem \<Longrightarrow> rfold delete_obj mem ps = Inr (mem |` (- set ps))"
proof (induction ps arbitrary: mem)
  case (Cons p ps)
  then have "set ps \<subseteq> dom (mem(p := None))" by auto
  moreover have "mem(p := None) |` (- set ps) = mem |` (- set (p # ps))"
    by (rule ext) (auto simp: restrict_map_def)
  ultimately show ?case using Cons by (auto simp: delete_obj_def)
qed (simp add: restrict_map_def)

subsection \<open>Properties\<close>

text \<open>
  A hit of \<open>get\<close> returns the data last stored under the key, makes the entry the most
  recent one, changes no other entry, keeps the invariant and leaves the vector in heap order.
\<close>

lemma get_returns_and_refreshes:
  assumes "lru_ok c" and "contents c k = Some (dt, t)" and "unat (lru_timeCnt c) + 1 < 2 ^ 64"
  shows "\<exists>c'. get c k = Inr (Some dt, c') \<and> lru_ok c' \<and> ordered c' \<and>
              contents c' = (contents c)(k \<mapsto> (dt, lru_timeCnt c)) \<and> lru_size c' = lru_size c"
proof -
  from assms(1,2) obtain b d where b: "lru_map c k = Some b" "lru_mem c b = Some d" "bc_data d = dt"
    by (auto simp: contents_iff)
  from get_hit [OF assms(1) b(1,2) assms(3)] b(3) show ?thesis by metis
qed

text \<open>A cache to apply the theorems to: two entries, room for two.\<close>

definition example_cache :: lrucache where
  "example_cache = \<lparr>lru_size = 2, lru_heap = [0, 1], lru_map = [''a'' \<mapsto> 0, ''b'' \<mapsto> 1], lru_timeCnt = 3,
     lru_mem = [0 \<mapsto> \<lparr>bc_key = ''a'', bc_data = [65], bc_atime = 1\<rparr>,
                1 \<mapsto> \<lparr>bc_key = ''b'', bc_data = [66], bc_atime = 2\<rparr>], lru_next = 2\<rparr>"

lemma example_cache_run:
  "rbind (put (new_lrucache 2) ''a'' [65]) (\<lambda>c. put c ''b'' [66]) = Inr example_cache"
  by (simp add: put_def new_lrucache_def heap_call_def std_push_heap_def push_hole.simps parent_def
      Compare_def obj_atime_def example_cache_def)

lemma example_cache_ok: "lru_ok example_cache" "ordered example_cache" "within_size example_cache"
proof -
  show "lru_ok example_cache"
    by (rule lru_okI) (auto simp: example_cache_def split: if_splits)
  show "ordered example_cache"
    by (auto simp: example_cache_def ordered_def is_heap_def heap_from_def parent_def Compare_def
        obj_atime_def less_Suc_eq)
  show "within_size example_cache"
    by (simp add: example_cache_def within_size_def)
qed

lemma example_cache_simps:
  "lru_map example_cache ''a'' = Some 0" "lru_map example_cache ''c'' = None"
  "contents example_cache ''a'' = Some ([65], 1)" "contents example_cache ''b'' = Some ([66], 2)"
  "contents example_cache ''c'' = None"
  "lru_timeCnt example_cache = 3" "length (lru_heap example_cache) = 2" "lru_size example_cache = 2"
  by (simp_all add: example_cache_def contents_def)

text \<open>
  C22. \<open>put\<close> of a new key into a full cache whose vector is in heap order evicts an entry
  with the least access time (the new entry itself if the capacity is 0), stores the new one and
  changes nothing else; the cache stays full, in heap order, and within its capacity.
\<close>

theorem put_evicts_least_recently_used:
  fixes dt :: bytes
  assumes "lru_ok c" and "ordered c" and "contents c k = None"
    and "length (lru_heap c) = unat (lru_size c)" and "unat (lru_timeCnt c) + 1 < 2 ^ 64"
  defines "full \<equiv> (contents c)(k \<mapsto> (dt, lru_timeCnt c))"
  shows "\<exists>c' victim vd vt. put c k dt = Inr c' \<and> lru_ok c' \<and> ordered c' \<and> within_size c' \<and>
           full victim = Some (vd, vt) \<and> (\<forall>k' d' t'. full k' = Some (d', t') \<longrightarrow> vt \<le> t') \<and>
           contents c' = full(victim := None)"
proof -
  from assms(1,3) have m: "lru_map c k = None" by (simp add: contents_None_iff)
  note p = pushed_ok [OF assms(1) m assms(5), of dt]
  have op: "ordered (pushed c k dt)" using assms(1,2) by (rule pushed_ordered)
  obtain c' v where c': "put c k dt = Inr c'" "lru_ok c'" "ordered c'"
    and v: "lru_mem (pushed c k dt) (hd (lru_heap (pushed c k dt))) = Some v"
    and cont: "contents c' = full(bc_key v := None)"
    and len: "length (lru_heap c') = length (lru_heap c)" "lru_size c' = lru_size c"
    using put_new_full [OF assms(1) m _ assms(5), of dt] assms(4) op unfolding full_def
    by (metis order_refl)
  have cp: "contents (pushed c k dt) = full" using p(2) by (simp add: full_def)
  have victim: "full (bc_key v) = Some (bc_data v, bc_atime v)"
    using lru_okD(3) [OF p(1) v] v by (simp add: cp [symmetric] contents_def)
  have "bc_atime v \<le> t'" if "full k' = Some (d', t')" for k' d' t'
  proof -
    from that p(1) obtain q e where q: "lru_mem (pushed c k dt) q = Some e" "bc_atime e = t'"
      by (auto simp: cp [symmetric] contents_iff)
    then have "q \<in> set (lru_heap (pushed c k dt))" using lru_okD(2) [OF p(1)] by auto
    then have "\<not> Compare (lru_mem (pushed c k dt)) (hd (lru_heap (pushed c k dt))) q"
      using op by (intro std.heap_top [of _ "lru_heap (pushed c k dt)"]) (simp_all add: ordered_def)
    with q v show ?thesis by (simp add: Compare_def obj_atime_def)
  qed
  with c' cont victim len assms(4) show ?thesis
    by (auto simp: within_size_def)
qed

theorem put_evicts_least_recently_used_witness:
  "contents example_cache ''c'' = None \<and> length (lru_heap example_cache) = unat (lru_size example_cache) \<and>
   (\<exists>c'. put example_cache ''c'' [67] = Inr c' \<and> lru_ok c' \<and> within_size c')"
proof -
  have "length (lru_heap example_cache) = unat (lru_size example_cache)"
    and "unat (lru_timeCnt example_cache) + 1 < 2 ^ 64"
    by (simp_all add: example_cache_simps)
  from put_evicts_least_recently_used
    [OF example_cache_ok(1,2) example_cache_simps(5) this, of "[67]"] this example_cache_simps(5)
  show ?thesis by blast
qed

text \<open>
  \<open>put\<close> of a new key into a cache with room, and of a key that is already there, store
  the data under the key at the current time and change no other entry; nothing is evicted.
\<close>

lemma put_stores:
  assumes "lru_ok c" and "within_size c" and "unat (lru_timeCnt c) + 1 < 2 ^ 64"
    and "contents c k \<noteq> None \<or> length (lru_heap c) < unat (lru_size c)"
  shows "\<exists>c'. put c k dt = Inr c' \<and> lru_ok c' \<and> within_size c' \<and>
              contents c' = (contents c)(k \<mapsto> (dt, lru_timeCnt c))"
proof (cases "lru_map c k")
  case None
  then have room: "length (lru_heap c) < unat (lru_size c)"
    using assms(1,4) by (simp add: contents_None_iff)
  have "lru_size (pushed c k dt) = lru_size c" by (simp add: pushed_def Let_def)
  with put_new_room [OF assms(1) None room] pushed_ok [OF assms(1) None assms(3)] room show ?thesis
    by (auto simp: within_size_def)
next
  case (Some b)
  from put_existing [OF assms(1) Some assms(3)] assms(2) show ?thesis
    by (metis within_size_def)
qed

text \<open>
  \<open>invalidate\<close> removes exactly the entry of its key (nothing if there is none), frees
  its object, and leaves the vector in heap order.
\<close>

lemma invalidate_removes_exactly:
  assumes "lru_ok c" and "within_size c"
  shows "\<exists>c'. invalidate c k = Inr c' \<and> lru_ok c' \<and> within_size c' \<and> (ordered c \<longrightarrow> ordered c') \<and>
              contents c' = (contents c)(k := None)"
proof (cases "lru_map c k")
  case None
  then have "contents c k = None" by (simp add: contents_def)
  then have "(contents c)(k := None) = contents c" by auto
  with None assms show ?thesis by (simp add: invalidate_def)
next
  case (Some b)
  from invalidate_present [OF assms(1) Some] assms(2) show ?thesis
    by (metis diff_le_self order_trans within_size_def)
qed

text \<open>
  A new entry has the latest access time, so it stays at the back of the vector, in heap order or
  not; and at the front of a vector in heap order is the least recently used entry.
\<close>

lemma pushed_heap:
  assumes "lru_ok c"
  shows "lru_heap (pushed c k dt) = lru_heap c @ [lru_next c]"
proof -
  let ?mem = "(lru_mem c)(lru_next c \<mapsto> \<lparr>bc_key = k, bc_data = dt, bc_atime = lru_timeCnt c\<rparr>)"
    and ?xs = "lru_heap c @ [lru_next c]"
  have late: "\<not> Compare ?mem p (lru_next c)" if "p \<in> set (lru_heap c)" for p
  proof -
    have "p \<in> dom (lru_mem c)" using that lru_okD(2) [OF assms] by simp
    then obtain d where d: "lru_mem c p = Some d" by blast
    then have "bc_atime d < lru_timeCnt c" "p < lru_next c" using lru_okD(5,6) [OF assms d] by simp_all
    then show ?thesis using d by (simp add: Compare_def obj_atime_def)
  qed
  have "\<not> (0 < length ?xs - 1 \<and> Compare ?mem (?xs ! parent (length ?xs - 1)) (lru_next c))"
    using late parent_less [of "length (lru_heap c)"] by (auto simp: nth_append)
  then have "push_hole (Compare ?mem) ?xs (length ?xs - 1) 0 (lru_next c) = ?xs[length ?xs - 1 := lru_next c]"
    by (rule push_hole_stop)
  then show ?thesis by (simp add: pushed_def Let_def std_push_heap_def)
qed

lemma front_least_recent:
  assumes ok: "lru_ok c" and "ordered c" and b: "lru_map c k = Some b" "contents c k = Some (d0, t0)"
    and least: "\<And>k' d t. contents c k' = Some (d, t) \<Longrightarrow> t0 \<le> t"
  shows "lru_heap c \<noteq> []" and "hd (lru_heap c) = b"
proof -
  obtain db where db: "lru_mem c b = Some db" "bc_atime db = t0" using b contents_iff [OF ok] by auto
  then have mem: "b \<in> set (lru_heap c)" using lru_okD(2) [OF ok] by auto
  then show ne: "lru_heap c \<noteq> []" by auto
  then have "hd (lru_heap c) \<in> dom (lru_mem c)" using lru_okD(2) [OF ok] by simp
  then obtain dh where dh: "lru_mem c (hd (lru_heap c)) = Some dh" by blast
  have "contents c (bc_key dh) = Some (bc_data dh, bc_atime dh)" using lru_okD(3) [OF ok dh] dh by (simp add: contents_def)
  then have "t0 \<le> bc_atime dh" by (rule least)
  moreover have "\<not> Compare (lru_mem c) (hd (lru_heap c)) b"
    using assms(2) mem by (intro std.heap_top [of _ "lru_heap c"]) (simp_all add: ordered_def)
  ultimately have "bc_atime dh = bc_atime db" using dh db by (simp add: Compare_def obj_atime_def)
  then show "hd (lru_heap c) = b" by (rule lru_okD(8) [OF ok dh db(1)])
qed

text \<open>
  C37. \<open>put\<close> of a key that is already there does not restore the heap order, and the next eviction
  hits the wrong entry: in every full cache in heap order, when the least recently used key is put
  again, which makes it the most recently used, and then a new key is put, the entry just
  refreshed is the one that is evicted, and all entries used before it stay.
\<close>

theorem put_can_evict_recent_entry:
  assumes "lru_ok c" and "ordered c" and "length (lru_heap c) = unat (lru_size c)" and "unat (lru_timeCnt c) + 2 < 2 ^ 64"
    and "contents c k = Some (d0, t0)" and "\<And>k' d t. contents c k' = Some (d, t) \<Longrightarrow> t0 \<le> t" and "contents c k2 = None"
  shows "\<exists>c1 c2. put c k dt = Inr c1 \<and> contents c1 = (contents c)(k \<mapsto> (dt, lru_timeCnt c)) \<and>
    (\<forall>k' d t. contents c k' = Some (d, t) \<longrightarrow> t < lru_timeCnt c) \<and>
    put c1 k2 dt2 = Inr c2 \<and> contents c2 = ((contents c)(k := None))(k2 \<mapsto> (dt2, lru_timeCnt c + 1))"
proof -
  obtain b where b: "lru_map c k = Some b" using assms(1,5) by (auto simp: contents_iff)
  note front = front_least_recent [OF assms(1,2) b assms(5,6)]
  have time: "unat (lru_timeCnt c) + 1 < 2 ^ 64" using assms(4) by simp
  obtain c1 where c1: "put c k dt = Inr c1" "lru_ok c1" "contents c1 = (contents c)(k \<mapsto> (dt, lru_timeCnt c))"
    "lru_size c1 = lru_size c" "lru_heap c1 = lru_heap c" "lru_timeCnt c1 = lru_timeCnt c + 1" "lru_map c1 = lru_map c"
    by (rule put_existing [OF assms(1) b time])
  have k2: "k2 \<noteq> k" "contents c1 k2 = None" using assms(5,7) c1(3) by auto
  then have new: "lru_map c1 k2 = None" using c1(2) by (simp add: contents_None_iff)
  have nw: "unat (lru_timeCnt c1) + 1 < 2 ^ 64" using assms(4) by (simp add: c1(6) unat_word_ariths)
  have full: "unat (lru_size c1) \<le> length (lru_heap c1)" using assms(3) c1(4,5) by simp
  obtain c2 v where c2: "put c1 k2 dt2 = Inr c2"
    "lru_mem (pushed c1 k2 dt2) (hd (lru_heap (pushed c1 k2 dt2))) = Some v"
    "contents c2 = ((contents c1)(k2 \<mapsto> (dt2, lru_timeCnt c1)))(bc_key v := None)"
    by (rule put_new_full [OF c1(2) new full nw])
  obtain d where d: "lru_mem c1 b = Some d" "bc_key d = k" using lru_okD(7) [OF c1(2)] b c1(7) by metis
  have "lru_mem (pushed c1 k2 dt2) b = Some d"
    using d lru_okD(6) [OF c1(2) d(1)] by (simp add: pushed_def Let_def)
  then have "bc_key v = k" using c2(2) front d(2) by (simp add: pushed_heap [OF c1(2)] c1(5) hd_append)
  then have "contents c2 = ((contents c)(k := None))(k2 \<mapsto> (dt2, lru_timeCnt c + 1))"
    using c2(3) k2(1) by (simp add: c1(3,6) fun_upd_twist)
  moreover have "t < lru_timeCnt c" if "contents c k' = Some (d, t)" for k' d t
    using that assms(1) lru_okD(5) [OF assms(1)] by (auto simp: contents_iff)
  ultimately show ?thesis using c1(1,3) c2(1) by blast
qed

theorem put_can_evict_recent_entry_witness:
  "\<exists>c1 c2. put example_cache ''a'' [97] = Inr c1 \<and> put c1 ''c'' [67] = Inr c2 \<and>
     contents c2 ''a'' = None \<and> contents c2 ''b'' = Some ([66], 2)"
proof -
  have "1 \<le> t" if "contents example_cache k' = Some (d, t)" for k' d t
    using that by (auto simp: contents_def example_cache_def split: if_splits)
  from put_can_evict_recent_entry [OF example_cache_ok(1,2) _ _ example_cache_simps(3) this example_cache_simps(5),
      where dt = "[97]" and ?dt2.0 = "[67]"]
  show ?thesis by (fastforce simp: example_cache_simps)
qed

subsection \<open>Whole runs\<close>

datatype lru_op = Get string | Put string bytes | Invalidate string

fun lru_step :: "lrucache \<Rightarrow> lru_op \<Rightarrow> lrucache res" where
  "lru_step c (Get k) = rbind (get c k) (\<lambda>r. Inr (snd r))"
| "lru_step c (Put k d) = put c k d"
| "lru_step c (Invalidate k) = invalidate c k"

lemma unat_tick: "unat (t :: u64) + 1 < 2 ^ 64 \<Longrightarrow> unat (t + 1) = unat t + 1"
  by (simp add: unat_word_ariths)

lemma lru_step_ok:
  assumes ok: "lru_ok c" "within_size c" and nw: "unat (lru_timeCnt c) + 1 < 2 ^ 64"
  shows "\<exists>c'. lru_step c op = Inr c' \<and> lru_ok c' \<and> within_size c' \<and>
              unat (lru_timeCnt c') \<le> unat (lru_timeCnt c) + 1"
proof (cases op)
  case (Get k)
  show ?thesis
  proof (cases "lru_map c k")
    case None
    with ok Get show ?thesis by (simp add: get_miss)
  next
    case (Some b)
    from lru_okD(7) [OF ok(1) Some] obtain d where d: "lru_mem c b = Some d" by blast
    from get_hit [OF ok(1) Some d nw] obtain c' where
      "get c k = Inr (Some (bc_data d), c')" "lru_ok c'" "lru_size c' = lru_size c"
      "length (lru_heap c') = length (lru_heap c)" "lru_timeCnt c' = lru_timeCnt c + 1" by metis
    with ok(2) Get unat_tick [OF nw] show ?thesis by (simp add: within_size_def)
  qed
next
  case (Put k d)
  consider (old) b where "lru_map c k = Some b"
    | (room) "lru_map c k = None" "length (lru_heap c) < unat (lru_size c)"
    | (full) "lru_map c k = None" "unat (lru_size c) \<le> length (lru_heap c)"
    by (cases "lru_map c k") (auto simp: not_less [symmetric])
  then show ?thesis
  proof cases
    case old
    from put_existing [OF ok(1) old nw] obtain c' where "put c k d = Inr c'" "lru_ok c'"
      "lru_size c' = lru_size c" "lru_heap c' = lru_heap c" "lru_timeCnt c' = lru_timeCnt c + 1"
      by metis
    with ok(2) Put unat_tick [OF nw] show ?thesis by (simp add: within_size_def)
  next
    case room
    have "lru_size (pushed c k d) = lru_size c" "lru_timeCnt (pushed c k d) = lru_timeCnt c + 1"
      by (simp_all add: pushed_def Let_def)
    with put_new_room [OF ok(1) room] pushed_ok [OF ok(1) room(1) nw] room(2) Put unat_tick [OF nw]
    show ?thesis by (simp add: within_size_def)
  next
    case full
    from put_new_full [OF ok(1) full nw, of d] obtain c' where "put c k d = Inr c'" "lru_ok c'"
      "lru_size c' = lru_size c" "length (lru_heap c') = length (lru_heap c)"
      "lru_timeCnt c' = lru_timeCnt c + 1" by metis
    with ok(2) Put unat_tick [OF nw] show ?thesis by (simp add: within_size_def)
  qed
next
  case (Invalidate k)
  show ?thesis
  proof (cases "lru_map c k")
    case None
    with ok Invalidate show ?thesis by (simp add: invalidate_def)
  next
    case (Some b)
    from invalidate_present [OF ok(1) Some] obtain c' where "invalidate c k = Inr c'" "lru_ok c'"
      "lru_size c' = lru_size c" "length (lru_heap c') = length (lru_heap c) - 1"
      "lru_timeCnt c' = lru_timeCnt c" by metis
    with ok(2) Invalidate show ?thesis by (simp add: within_size_def)
  qed
qed

lemma lru_run_ok:
  "lru_ok c \<Longrightarrow> within_size c \<Longrightarrow> unat (lru_timeCnt c) + length ops < 2 ^ 64 \<Longrightarrow>
   \<exists>c'. rfold lru_step c ops = Inr c' \<and> lru_ok c' \<and> within_size c'"
proof (induction ops arbitrary: c)
  case (Cons op ops)
  then have "unat (lru_timeCnt c) + 1 < 2 ^ 64" by simp
  from lru_step_ok [OF Cons.prems(1,2) this, of op] obtain c1 where c1: "lru_step c op = Inr c1"
    "lru_ok c1" "within_size c1" "unat (lru_timeCnt c1) \<le> unat (lru_timeCnt c) + 1" by blast
  then have "unat (lru_timeCnt c1) + length ops < 2 ^ 64" using Cons.prems(3) by simp
  with Cons.IH [OF c1(2,3)] c1(1) show ?case by simp
qed simp

lemma destroy_ok:
  assumes "lru_ok c"
  shows "\<exists>c'. destroy c = Inr c' \<and> lru_mem c' = Map.empty"
proof -
  have "rfold delete_obj (lru_mem c) (rev (lru_heap c)) = Inr (lru_mem c |` (- set (rev (lru_heap c))))"
    using lru_okD(1,2) [OF assms] by (intro delete_all) simp_all
  moreover have "lru_mem c |` (- set (rev (lru_heap c))) = Map.empty"
    using lru_okD(2) [OF assms] by (auto simp: restrict_map_def fun_eq_iff)
  ultimately show ?thesis by (simp add: destroy_def)
qed

text \<open>
  C10. Memory safety of whole runs: starting from a new cache of any size, every sequence of
  fewer than \<open>2^64 - 1\<close> \<open>get\<close>, \<open>put\<close> and \<open>invalidate\<close> calls runs
  without a use of a freed object, never holds more entries than the capacity, keeps the
  invariant, and the destructor then frees every object exactly once.
\<close>

theorem lru_runs_are_memory_safe:
  assumes "length ops < 2 ^ 64 - 1"
  shows "\<exists>c c'. rfold lru_step (new_lrucache sz) ops = Inr c \<and> lru_ok c \<and> within_size c \<and>
                destroy c = Inr c' \<and> lru_mem c' = Map.empty"
proof -
  have "unat (lru_timeCnt (new_lrucache sz)) + length ops < 2 ^ 64"
    using assms by (simp add: new_lrucache_def)
  from lru_run_ok [OF new_lrucache_ok(1,3) this] destroy_ok show ?thesis by blast
qed

theorem lru_runs_are_memory_safe_witness:
  "\<exists>c c'. rfold lru_step (new_lrucache 1) [Put ''a'' [1], Put ''b'' [2], Get ''b'', Invalidate ''b''] = Inr c \<and>
          lru_ok c \<and> destroy c = Inr c' \<and> lru_mem c' = Map.empty"
  using lru_runs_are_memory_safe [of "[Put ''a'' [1], Put ''b'' [2], Get ''b'', Invalidate ''b'']" 1]
  by auto

end
