(* ===== verification/Cstring.thy ===== *)
theory Cstring
  imports Prelude "HOL-Library.Sublist"
begin

section \<open>The string functions the program uses\<close>

text \<open>
  \<open>std::string::find\<close>, \<open>rfind\<close>, the decimal conversions of \<open>snprintf\<close> and
  \<open>atoi\<close> (the GNU one: \<open>strtol\<close> in a 64-bit \<open>long\<close>, then truncated to
  \<open>int\<close>), with the facts that relate them. Used by \<open>util/url.h\<close> and
  \<open>blockstore/remoteblockstore.h\<close>.
\<close>

subsection \<open>Searching\<close>

fun find_sub :: "string \<Rightarrow> string \<Rightarrow> nat option" where
  "find_sub pat [] = (if pat = [] then Some 0 else None)"
| "find_sub pat (c # s) =
     (if prefix pat (c # s) then Some 0 else map_option Suc (find_sub pat s))"

fun rfind_char :: "char \<Rightarrow> string \<Rightarrow> nat option" where
  "rfind_char c [] = None"
| "rfind_char c (d # s) = (case rfind_char c s of
     Some i \<Rightarrow> Some (Suc i)
   | None \<Rightarrow> if d = c then Some 0 else None)"

lemma find_sub_Some_prefix: "find_sub pat s = Some i \<Longrightarrow> prefix pat (drop i s) \<and> i \<le> length s"
proof (induction s arbitrary: i)
  case (Cons c s)
  then show ?case by (cases i) (auto split: if_splits)
qed (auto split: if_splits)

lemma find_sub_char_None: "find_sub [c] s = None \<longleftrightarrow> c \<notin> set s"
  by (induction s) auto

lemma find_sub_char_append: "c \<notin> set s \<Longrightarrow> find_sub [c] (s @ c # t) = Some (length s)"
  by (induction s) auto

lemma find_sub_char_take: "find_sub [c] s = Some i \<Longrightarrow> c \<notin> set (take i s)"
proof (induction s arbitrary: i)
  case (Cons d s)
  then show ?case by (cases i) (auto split: if_splits)
qed simp

lemma rfind_char_None: "rfind_char c s = None \<longleftrightarrow> c \<notin> set s"
  by (induction s) (auto split: option.splits)

lemma rfind_char_append: "c \<notin> set t \<Longrightarrow> rfind_char c (s @ c # t) = Some (length s)"
  using rfind_char_None [of c t] by (induction s) auto

lemma rfind_char_Some_length: "rfind_char c s = Some i \<Longrightarrow> i < length s"
  by (induction s arbitrary: i) (auto split: option.splits if_splits)

text \<open>The separator of a scheme cannot overlap the scheme it follows.\<close>

lemma find_sep_append:
  "find_sub ''://'' s = None \<Longrightarrow> find_sub ''://'' (s @ ''://'' @ t) = Some (length s)"
proof (induction s)
  case (Cons c s)
  then have IH: "find_sub ''://'' (s @ ''://'' @ t) = Some (length s)"
    and np: "\<not> prefix ''://'' (c # s)"
    by (auto split: if_splits)
  have "\<not> prefix ''://'' ((c # s) @ ''://'' @ t)"
  proof (cases s rule: remdups_adj.cases)
    case (3 d e s')
    with np show ?thesis by auto
  qed auto
  with IH show ?case by simp
qed simp

lemma find_sep_take: "find_sub ''://'' s = Some i \<Longrightarrow> find_sub ''://'' (take i s) = None"
proof (induction s arbitrary: i)
  case (Cons c s)
  show ?case
  proof (cases i)
    case (Suc j)
    with Cons.prems have j: "find_sub ''://'' s = Some j" and np: "\<not> prefix ''://'' (c # s)"
      by (auto split: if_splits)
    from np have "\<not> prefix ''://'' (c # take j s)"
      by (metis prefix_order.trans take_Suc_Cons take_is_prefix)
    with Suc Cons.IH [OF j] show ?thesis by simp
  qed simp
qed simp

subsection \<open>Decimal numbers\<close>

definition digit :: "nat \<Rightarrow> char" where
  "digit d = char_of (48 + d)"

definition is_digit :: "char \<Rightarrow> bool" where
  "is_digit c \<longleftrightarrow> 48 \<le> (of_char c :: nat) \<and> (of_char c :: nat) \<le> 57"

definition digit_val :: "char \<Rightarrow> nat" where
  "digit_val c = of_char c - 48"

text \<open>\<open>\"%lu\"\<close> and \<open>\"%d\"\<close>.\<close>

fun show_nat :: "nat \<Rightarrow> string" where
  "show_nat n = (if n < 10 then [digit n] else show_nat (n div 10) @ [digit (n mod 10)])"

declare show_nat.simps [simp del]

definition show_int :: "int \<Rightarrow> string" where
  "show_int i = (if i < 0 then ''-'' @ show_nat (nat (- i)) else show_nat (nat i))"

text \<open>\<open>strtol(s, NULL, 10)\<close> and \<open>atoi\<close>.\<close>

definition is_space :: "char \<Rightarrow> bool" where
  "is_space c \<longleftrightarrow> c = CHR '' '' \<or> (9 \<le> (of_char c :: nat) \<and> (of_char c :: nat) \<le> 13)"

fun scan_digits :: "nat \<Rightarrow> string \<Rightarrow> nat" where
  "scan_digits n [] = n"
| "scan_digits n (c # s) = (if is_digit c then scan_digits (10 * n + digit_val c) s else n)"

definition clamp_long :: "int \<Rightarrow> int" where
  "clamp_long i = max (- (2 ^ 63)) (min (2 ^ 63 - 1) i)"

definition strtol :: "string \<Rightarrow> int" where
  "strtol s = (case dropWhile is_space s of
     [] \<Rightarrow> 0
   | c # t \<Rightarrow>
       if c = CHR ''-'' then clamp_long (- int (scan_digits 0 t))
       else if c = CHR ''+'' then clamp_long (int (scan_digits 0 t))
       else clamp_long (int (scan_digits 0 (c # t))))"

definition atoi :: "string \<Rightarrow> i32" where
  "atoi s = word_of_int (strtol (c_str s))"

lemma of_char_digit: "d < 10 \<Longrightarrow> (of_char (digit d) :: nat) = 48 + d"
  by (simp add: digit_def)

lemma is_digit_digit [simp]: "d < 10 \<Longrightarrow> is_digit (digit d)"
  by (simp add: is_digit_def of_char_digit)

lemma digit_val_digit [simp]: "d < 10 \<Longrightarrow> digit_val (digit d) = d"
  by (simp add: digit_val_def of_char_digit)

lemma show_nat_digits: "\<forall>c \<in> set (show_nat n). is_digit c"
proof (induction n rule: show_nat.induct)
  case (1 n)
  then show ?case by (cases "n < 10") (auto simp: show_nat.simps [of n])
qed

lemma show_nat_nonempty [simp]: "show_nat n \<noteq> []"
  by (subst show_nat.simps) simp

lemma scan_digits_append:
  "\<forall>c \<in> set s. is_digit c \<Longrightarrow> scan_digits n (s @ t) = scan_digits (scan_digits n s) t"
  by (induction s arbitrary: n) auto

lemma scan_show_nat: "scan_digits 0 (show_nat n) = n"
proof (induction n rule: show_nat.induct)
  case (1 n)
  show ?case
  proof (cases "n < 10")
    case True
    then show ?thesis by (simp add: show_nat.simps [of n])
  next
    case False
    with "1.IH" show_nat_digits [of "n div 10"] show ?thesis
      by (simp add: show_nat.simps [of n] scan_digits_append)
  qed
qed

lemma show_nat_inj: "show_nat m = show_nat n \<longleftrightarrow> m = n"
  by (metis scan_show_nat)

text \<open>Reading back a printed \<open>int\<close>.\<close>

lemma is_digit_facts:
  assumes "is_digit c"
  shows "c \<noteq> CHR 0x00" and "\<not> is_space c" and "c \<noteq> CHR ''-''" and "c \<noteq> CHR ''+''"
    and "c \<noteq> CHR ''/''" and "c \<noteq> CHR '':''"
  using assms by (auto simp: is_digit_def is_space_def)

lemma show_nat_notin:
  assumes "\<not> is_digit c"
  shows "c \<notin> set (show_nat n)"
  using assms show_nat_digits by blast

lemma show_int_notin: "\<not> is_digit c \<Longrightarrow> c \<noteq> CHR ''-'' \<Longrightarrow> c \<notin> set (show_int i)"
  by (auto simp: show_int_def show_nat_notin)

lemma strtol_show_nat: "int n < 2 ^ 63 \<Longrightarrow> strtol (show_nat n) = int n"
proof -
  assume n: "int n < 2 ^ 63"
  obtain c t where ct: "show_nat n = c # t" by (cases "show_nat n") auto
  then have "is_digit c" using show_nat_digits [of n] by simp
  note f = is_digit_facts [OF this]
  from ct have "scan_digits 0 (c # t) = n" by (metis scan_show_nat)
  with ct f n show ?thesis by (simp add: strtol_def clamp_long_def del: scan_digits.simps)
qed

lemma strtol_minus_show_nat: "int n \<le> 2 ^ 63 \<Longrightarrow> strtol (''-'' @ show_nat n) = - int n"
  by (simp add: strtol_def clamp_long_def is_space_def scan_show_nat)

lemma strtol_show_int: "- (2 ^ 63) \<le> i \<Longrightarrow> i < 2 ^ 63 \<Longrightarrow> strtol (show_int i) = i"
  using strtol_show_nat [of "nat i"] strtol_minus_show_nat [of "nat (- i)"]
  by (auto simp: show_int_def)

lemma atoi_show_sint: "atoi (show_int (sint (w :: i32))) = w"
proof -
  have "\<not> is_digit (CHR 0x00)" by (simp add: is_digit_def)
  then have "c_str (show_int (sint w)) = show_int (sint w)"
    by (intro c_str_id show_int_notin) simp_all
  moreover have "- (2 ^ 63) \<le> sint w" "sint w < 2 ^ 63"
    using sint_ge [of w] sint_lt [of w] by simp_all
  ultimately show ?thesis by (simp add: atoi_def strtol_show_int)
qed

end
