(* ===== verification/Url.thy ===== *)
theory Url
  imports Cstring
begin

section \<open>URLs (\<open>util/url.h\<close>)\<close>

text \<open>
  The class \<open>util::URL\<close>: \<open>parse\<close> splits a string into scheme, host, port and path with
  \<open>find\<close>, \<open>rfind\<close>, \<open>substr\<close> and \<open>atoi\<close>; \<open>toString\<close> prints the parts;
  \<open>operator==\<close> compares printed forms. The port is the \<open>int\<close> of the code.
\<close>

record url =
  url_scheme :: string
  url_host :: string
  url_port :: i32
  url_path :: string
  url_valid :: bool

text \<open>The steps of \<open>parse\<close>: each takes what the one before left of the string.\<close>

definition split_scheme :: "string \<Rightarrow> string \<times> string" where
  "split_scheme s = (case find_sub ''://'' s of
     Some i \<Rightarrow> (take i s, drop (i + 3) s)
   | None \<Rightarrow> (''http'', s))"

definition split_path :: "string \<Rightarrow> string \<times> string" where
  "split_path s = (case find_sub ''/'' s of
     Some i \<Rightarrow> (drop (i + 1) s, take i s)
   | None \<Rightarrow> ('''', s))"

definition split_port :: "string \<Rightarrow> i32 \<times> bool \<times> string" where
  "split_port s = (case rfind_char (CHR '':'') s of
     Some i \<Rightarrow> (let port = atoi (drop (i + 1) s)
                in (port, \<not> (sint port \<le> 0 \<or> sint port > 65535), take i s))
   | None \<Rightarrow> (80, True, s))"

definition parse :: "string \<Rightarrow> url" where
  "parse s =
     (let (scheme, s) = split_scheme s;
          (path, s) = split_path s;
          (port, valid, s) = split_port s
      in \<lparr>url_scheme = scheme, url_host = s, url_port = port, url_path = path,
          url_valid = (valid \<and> find_sub '':'' s = None)\<rparr>)"

definition toString :: "url \<Rightarrow> string" where
  "toString u = url_scheme u @ ''://'' @ url_host u @
     (if url_scheme u = ''http'' \<and> url_port u = 80 then '''' else '':'' @ show_int (sint (url_port u))) @
     ''/'' @ url_path u"

definition new_url :: "string \<Rightarrow> url" where
  "new_url s = parse s"

text \<open>Assignment, member by member, and the copy constructor, which assigns.\<close>

definition assign_url :: "url \<Rightarrow> url \<Rightarrow> url" where
  "assign_url u other =
     u\<lparr>url_scheme := url_scheme other, url_host := url_host other, url_port := url_port other,
       url_path := url_path other, url_valid := url_valid other\<rparr>"

definition copy_url :: "url \<Rightarrow> url \<Rightarrow> url" where
  "copy_url uninitialised u = assign_url uninitialised u"

text \<open>\<open>operator<<\<close>, on what was written to the stream before.\<close>

definition put_url :: "string \<Rightarrow> url \<Rightarrow> string" where
  "put_url out u = out @ toString u"

definition url_eq :: "url \<Rightarrow> url \<Rightarrow> bool" where
  "url_eq u v \<longleftrightarrow> toString u = toString v"

lemma assigned_url [simp]: "assign_url u v = v" "copy_url u v = v"
  by (simp_all add: assign_url_def copy_url_def)

subsection \<open>Well-formed URLs\<close>

definition wf_url :: "url \<Rightarrow> bool" where
  "wf_url u \<longleftrightarrow> url_valid u \<and> find_sub ''://'' (url_scheme u) = None \<and>
     CHR ''/'' \<notin> set (url_host u) \<and> CHR '':'' \<notin> set (url_host u) \<and>
     0 < sint (url_port u) \<and> sint (url_port u) \<le> 65535"

lemma split_scheme_print:
  "find_sub ''://'' sc = None \<Longrightarrow> split_scheme (sc @ ''://'' @ r) = (sc, r)"
  by (simp add: split_scheme_def find_sep_append [of sc r, simplified])

lemma split_path_print: "CHR ''/'' \<notin> set hp \<Longrightarrow> split_path (hp @ ''/'' @ p) = (p, hp)"
  by (simp add: split_path_def find_sub_char_append)

lemma split_port_print:
  "CHR '':'' \<notin> set h \<Longrightarrow> 0 < sint w \<Longrightarrow> sint w \<le> 65535 \<Longrightarrow>
   split_port (h @ '':'' @ show_int (sint w)) = (w, True, h)"
  using show_int_notin [of "CHR '':''" "sint w"]
  by (simp add: split_port_def rfind_char_append atoi_show_sint is_digit_def)

lemma split_port_none: "CHR '':'' \<notin> set h \<Longrightarrow> split_port h = (80, True, h)"
  using rfind_char_None [of "CHR '':''" h] by (simp add: split_port_def)

lemma parse_toString:
  assumes "wf_url u"
  shows "parse (toString u) = u"
proof -
  define P where "P = (if url_scheme u = ''http'' \<and> url_port u = 80 then ''''
               else '':'' @ show_int (sint (url_port u)))"
  note wf = assms [unfolded wf_url_def]
  have "CHR ''/'' \<notin> set (show_int (sint (url_port u)))"
    by (rule show_int_notin) (simp_all add: is_digit_def)
  then have slash: "CHR ''/'' \<notin> set (url_host u @ P)" using wf by (simp add: P_def)
  have 1: "split_scheme (toString u) = (url_scheme u, (url_host u @ P) @ ''/'' @ url_path u)"
    using wf unfolding toString_def P_def [symmetric] by (subst split_scheme_print) simp_all
  have 2: "split_path ((url_host u @ P) @ ''/'' @ url_path u) = (url_path u, url_host u @ P)"
    by (rule split_path_print [OF slash])
  have 3: "split_port (url_host u @ P) = (url_port u, True, url_host u)"
    using wf split_port_print [of "url_host u" "url_port u"] split_port_none [of "url_host u"]
    by (simp add: P_def)
  show ?thesis
    unfolding parse_def 1 Let_def prod.case 2 3 using wf by (simp add: find_sub_char_None)
qed

lemma parse_wf:
  assumes "url_valid (parse s)"
  shows "wf_url (parse s)"
proof -
  obtain sc r where 1: "split_scheme s = (sc, r)" by force
  obtain pa hp where 2: "split_path r = (pa, hp)" by force
  obtain po v h where 3: "split_port hp = (po, v, h)" by (metis prod.exhaust)
  have eq: "parse s = \<lparr>url_scheme = sc, url_host = h, url_port = po, url_path = pa,
      url_valid = (v \<and> find_sub '':'' h = None)\<rparr>"
    by (simp add: parse_def 1 2 3)
  have "find_sub ''://'' sc = None"
    using 1 by (auto simp: split_scheme_def find_sep_take split: option.splits)
  moreover have "CHR ''/'' \<notin> set hp"
    using 2 find_sub_char_take find_sub_char_None [of "CHR ''/''" r]
    by (auto simp: split_path_def split: option.splits)
  moreover have "set h \<subseteq> set hp"
    using 3 by (auto simp: split_port_def Let_def dest: in_set_takeD split: option.splits)
  moreover have "v \<Longrightarrow> 0 < sint po \<and> sint po \<le> 65535"
    using 3 by (auto simp: split_port_def Let_def split: option.splits)
  ultimately show ?thesis
    using assms by (auto simp: eq wf_url_def find_sub_char_None)
qed

subsection \<open>Properties\<close>

text \<open>
  C24. Printing a well-formed URL (a valid one whose scheme has no separator, whose host has
  neither \<open>/\<close> nor \<open>:\<close>, with a port from 1 to 65535 and any path) and parsing the
  result gives the same five fields.
\<close>

theorem url_print_parse_roundtrip:
  assumes "wf_url u"
  shows "parse (toString u) = u"
  using assms by (rule parse_toString)

theorem url_print_parse_roundtrip_witness:
  "wf_url \<lparr>url_scheme = ''rawdish'', url_host = ''node'', url_port = 90, url_path = ''a/b:c'', url_valid = True\<rparr> \<and>
   parse ''rawdish://node:90/a/b:c'' =
     \<lparr>url_scheme = ''rawdish'', url_host = ''node'', url_port = 90, url_path = ''a/b:c'', url_valid = True\<rparr>"
proof -
  let ?u = "\<lparr>url_scheme = ''rawdish'', url_host = ''node'', url_port = 90, url_path = ''a/b:c'', url_valid = True\<rparr>"
  have wf: "wf_url ?u" by (simp add: wf_url_def)
  have "toString ?u = ''rawdish://node:90/a/b:c''"
    by code_simp
  with wf url_print_parse_roundtrip [OF wf] show ?thesis by simp
qed

text \<open>
  Normalisation: for every string the parser accepts as valid, parsing the printed form of
  the result gives the result again, and its fields are in range: the port is from 1 to 65535
  and the host has neither \<open>/\<close> nor \<open>:\<close>.
\<close>

lemma valid_urls_normalise:
  assumes "url_valid (parse s)"
  shows "parse (toString (parse s)) = parse s \<and> 0 < sint (url_port (parse s)) \<and>
         sint (url_port (parse s)) \<le> 65535 \<and>
         CHR ''/'' \<notin> set (url_host (parse s)) \<and> CHR '':'' \<notin> set (url_host (parse s))"
  using parse_wf [OF assms] parse_toString [OF parse_wf [OF assms]] by (simp add: wf_url_def)

text \<open>
  \<open>operator==\<close>, which compares printed forms, is equality of all five fields on
  well-formed URLs.
\<close>

lemma url_eq_is_equality:
  assumes "wf_url u" and "wf_url v"
  shows "url_eq u v \<longleftrightarrow> u = v"
  unfolding url_eq_def using assms parse_toString by metis

end
