(* ===== verification/Std_Map.thy ===== *)
theory Std_Map
  imports Interfaces "HOL-Library.Char_ord" "HOL-Library.List_Lexorder" "HOL-Library.Product_Lexorder"
begin

section \<open>\<open>std::map\<close>\<close>

text \<open>
  A \<open>std::map\<close> as the list of its entries in ascending key order, the order of its
  iterators. Strings compare lexicographically by character and pairs component-wise, as
  \<open>std::less\<close> does on them. \<open>map_index\<close> is \<open>operator[]\<close>, which stores a
  value-initialised entry when the key is absent. The list satisfies the contract
  \<open>ordered_map\<close> (\<open>smap\<close>).
\<close>

type_synonym ('k, 'v) smap = "('k \<times> 'v) list"

fun map_store :: "'k::linorder \<Rightarrow> 'v \<Rightarrow> ('k, 'v) smap \<Rightarrow> ('k, 'v) smap" where
  "map_store k v [] = [(k, v)]"
| "map_store k v ((x, y) # m) =
     (if k < x then (k, v) # (x, y) # m
      else if k = x then (k, v) # m
      else (x, y) # map_store k v m)"

definition map_erase :: "'k \<Rightarrow> ('k, 'v) smap \<Rightarrow> ('k, 'v) smap" where
  "map_erase k m = filter (\<lambda>e. fst e \<noteq> k) m"

definition map_index :: "'v \<Rightarrow> ('k::linorder, 'v) smap \<Rightarrow> 'k \<Rightarrow> 'v \<times> ('k, 'v) smap" where
  "map_index d m k = (case map_of m k of Some v \<Rightarrow> (v, m) | None \<Rightarrow> (d, map_store k d m))"

definition map_ok :: "('k::linorder, 'v) smap \<Rightarrow> bool" where
  "map_ok m \<longleftrightarrow> sorted_wrt (<) (map fst m)"

lemma map_of_map_store: "map_of (map_store k v m) x = (if x = k then Some v else map_of m x)"
  by (induction k v m rule: map_store.induct) auto

lemma keys_map_store: "fst ` set (map_store k v m) = insert k (fst ` set m)"
  by (induction k v m rule: map_store.induct) auto

lemma map_ok_store: "map_ok m \<Longrightarrow> map_ok (map_store k v m)"
  by (induction k v m rule: map_store.induct) (auto simp: map_ok_def keys_map_store)

lemma map_ok_erase: "map_ok m \<Longrightarrow> map_ok (map_erase k m)"
  by (induction m) (auto simp: map_ok_def map_erase_def)

lemma map_ok_distinct: "map_ok m \<Longrightarrow> distinct (map fst m)"
  by (simp add: map_ok_def strict_sorted_iff)

lemma map_of_map_erase: "map_of (map_erase k m) x = (if x = k then None else map_of m x)"
  by (induction m) (auto simp: map_erase_def)

lemma map_erase_absent: "map_of m k = None \<Longrightarrow> map_erase k m = m"
  by (force simp: map_erase_def map_of_eq_None_iff filter_id_conv)

lemma map_ok_ext:
  assumes "map_ok m" and "map_ok n" and "\<And>k. map_of m k = map_of n k"
  shows "m = n"
proof -
  have "sorted (map fst m)" "sorted (map fst n)"
    using assms(1,2) by (simp_all add: map_ok_def strict_sorted_iff)
  moreover have "map_of m = map_of n" using assms(3) by (rule ext)
  moreover from this have "set m = set n"
    using assms(1,2) by (metis map_ok_distinct map_of_inject_set)
  moreover from this have "inj_on fst (set m \<union> set n)"
    using map_ok_distinct [OF assms(1)] by (simp add: distinct_map)
  ultimately show ?thesis
    using map_ok_distinct [OF assms(1)] map_ok_distinct [OF assms(2)]
    by (metis map_sorted_distinct_set_unique)
qed

lemma map_index_Some [simp]: "map_of m k = Some v \<Longrightarrow> map_index d m k = (v, m)"
  by (simp add: map_index_def)

lemma map_index_None [simp]: "map_of m k = None \<Longrightarrow> map_index d m k = (d, map_store k d m)"
  by (simp add: map_index_def)

interpretation smap: ordered_map map_ok "[]" map_of map_store map_erase "\<lambda>m. m"
proof
  fix m n :: "('a::linorder, 'b) smap"
  assume "map_ok m" and "map_ok n" and "\<And>k. map_of m k = map_of n k"
  then show "m = n" by (rule map_ok_ext)
qed (auto simp: map_of_map_store map_of_map_erase map_ok_store map_ok_erase map_ok_distinct
       intro: map_of_is_SomeI dest: map_of_SomeD, simp_all add: map_ok_def)

end
