(* ===== verification/Service_Node.thy ===== *)
theory Service_Node
  imports Std_Map
begin

section \<open>The peer-to-peer service node (\<open>rpc/service_node.{h,cc}\<close>)\<close>

text \<open>
  A \<open>ServiceNode\<close> keeps a map of peers, a reference-counted directory of groups and the
  callbacks registered per group. Its operations run under one mutex, so each is modelled as one
  step: it takes the node and returns what it made others do (calls to peers, callback
  invocations, socket operations, in order) and the node it left. Sockets and the application's
  callbacks are not code of this component: a client object and a callback are known by number,
  and what \<open>TcpSocket::connect\<close> and \<open>TcpListenSocket::create\<close> answer is an argument.
  A callback runs with the mutex held, so it cannot re-enter the node.
\<close>

type_synonym addr = "string \<times> u16" \<comment> \<open>\<open>HostPortPair\<close>\<close>
type_synonym client = nat \<comment> \<open>a \<open>shared_ptr<RPCClient>\<close> that is not null\<close>
type_synonym callback = nat
type_synonym groups = "(string, (string, i32) smap) smap"

datatype peer_call =
    AddPeer string u16
  | AddToGroup string string
  | RemoveFromGroup string string

datatype sn_event =
    Call client peer_call
  | SetDisconnectCallback client "addr option"
  | Start client
  | Disconnect client
  | Notify string callback string bool \<comment> \<open>grp, callback, and its two arguments\<close>

record service_node =
  sn_host :: string
  sn_port :: u16
  sn_peers :: "(addr, client option) smap"
  sn_groups :: groups
  sn_callbacks :: "(string, callback list) smap"

definition new_internal :: "string \<Rightarrow> u16 \<Rightarrow> service_node" where
  "new_internal host port =
     \<lparr>sn_host = host, sn_port = port, sn_peers = [], sn_groups = [], sn_callbacks = []\<rparr>"

text \<open>
  The first \<open>create\<close> tries random ports until one can be listened on: \<open>rands\<close> are the
  successive values of \<open>rand()\<close>, and \<open>None\<close> means that all of them were used up.
\<close>

fun create_any_port :: "(u16 \<Rightarrow> bool) \<Rightarrow> string \<Rightarrow> nat list \<Rightarrow> service_node option" where
  "create_any_port listen host [] = None"
| "create_any_port listen host (r # rands) =
     (let port = of_nat (r mod 40000 + 1024) in
      if listen port then Some (new_internal host port) else create_any_port listen host rands)"

text \<open>The second takes the port, an \<open>int\<close> that the node stores in a \<open>uint16_t\<close>.\<close>

definition create :: "(i32 \<Rightarrow> bool) \<Rightarrow> string \<Rightarrow> i32 \<Rightarrow> service_node option" where
  "create listen host port = (if listen port then Some (new_internal host (ucast port)) else None)"

subsection \<open>Directory access\<close>

text \<open>
  \<open>_groups[g]\<close> as an expression (it stores an empty member map for a new group),
  \<open>_groups[g].find(x)\<close>, \<open>_groups[g][x] = c\<close>, \<open>_groups[g].erase(x)\<close> and the value
  and effect of \<open>_groups[g][x]\<close>.
\<close>

definition touch :: "groups \<Rightarrow> string \<Rightarrow> groups" where
  "touch gs g = snd (map_index [] gs g)"

definition count_of :: "groups \<Rightarrow> string \<Rightarrow> string \<Rightarrow> i32 option" where
  "count_of gs g x = (case map_of gs g of None \<Rightarrow> None | Some members \<Rightarrow> map_of members x)"

definition set_count :: "groups \<Rightarrow> string \<Rightarrow> string \<Rightarrow> i32 \<Rightarrow> groups" where
  "set_count gs g x c = (let (members, gs) = map_index [] gs g in map_store g (map_store x c members) gs)"

definition erase_count :: "groups \<Rightarrow> string \<Rightarrow> string \<Rightarrow> groups" where
  "erase_count gs g x = (let (members, gs) = map_index [] gs g in map_store g (map_erase x members) gs)"

definition index_count :: "groups \<Rightarrow> string \<Rightarrow> string \<Rightarrow> i32 \<times> groups" where
  "index_count gs g x =
     (case count_of gs g x of Some c \<Rightarrow> (c, gs) | None \<Rightarrow> (0, set_count gs g x 0))"

text \<open>\<open>++\<close> and \<open>--\<close> on an \<open>int\<close>.\<close>

definition count_up :: "i32 \<Rightarrow> i32 res" where
  "count_up c = (if sint c = 2 ^ 31 - 1 then Inl SignedOverflow else Inr (c + 1))"

definition count_down :: "i32 \<Rightarrow> i32 res" where
  "count_down c = (if sint c = - (2 ^ 31) then Inl SignedOverflow else Inr (c - 1))"

subsection \<open>Operations\<close>

text \<open>The loops that send one call to every peer.\<close>

definition call_peer :: "peer_call \<Rightarrow> sn_event list \<Rightarrow> addr \<times> client option \<Rightarrow> sn_event list res" where
  "call_peer pc ev i = (case snd i of None \<Rightarrow> Inl NullDeref | Some c \<Rightarrow> Inr (ev @ [Call c pc]))"

definition call_peers :: "service_node \<Rightarrow> peer_call \<Rightarrow> sn_event list res" where
  "call_peers n pc = rfold (call_peer pc) [] (sn_peers n)"

definition fire :: "string \<Rightarrow> callback list \<Rightarrow> string \<Rightarrow> bool \<Rightarrow> sn_event list" where
  "fire g cbs x b = map (\<lambda>cb. Notify g cb x b) cbs"

definition addToGroup :: "service_node \<Rightarrow> string \<Rightarrow> string \<Rightarrow> (sn_event list \<times> service_node) res" where
  "addToGroup n grp name =
     rbind (call_peers n (AddToGroup grp name)) (\<lambda>calls.
       let gs = touch (sn_groups n) grp in
       case count_of gs grp name of
         Some c \<Rightarrow> rbind (count_up c) (\<lambda>c'.
           Inr (calls, n\<lparr>sn_groups := set_count gs grp name c'\<rparr>))
       | None \<Rightarrow>
           let (cbs, callbacks) = map_index [] (sn_callbacks n) grp in
           Inr (calls @ fire grp cbs name True,
                n\<lparr>sn_groups := set_count gs grp name 1, sn_callbacks := callbacks\<rparr>))"

text \<open>The callbacks of a group where the code looks the group up before the loop.\<close>

definition fire_if :: "service_node \<Rightarrow> string \<Rightarrow> string \<Rightarrow> bool \<Rightarrow> sn_event list" where
  "fire_if n grp name b =
     (case map_of (sn_callbacks n) grp of None \<Rightarrow> [] | Some cbs \<Rightarrow> fire grp cbs name b)"

definition removeFromGroup :: "service_node \<Rightarrow> string \<Rightarrow> string \<Rightarrow> (sn_event list \<times> service_node) res" where
  "removeFromGroup n grp name =
     rbind (call_peers n (RemoveFromGroup grp name)) (\<lambda>calls.
       let gs = touch (sn_groups n) grp in
       case count_of gs grp name of
         Some c \<Rightarrow>
           (if c = 1 then
              Inr (calls @ fire_if n grp name False,
                   n\<lparr>sn_groups := erase_count gs grp name\<rparr>)
            else Inr (calls, n\<lparr>sn_groups := gs\<rparr>))
       | None \<Rightarrow>
           let (c, gs) = index_count gs grp name in
           if sint c > 1 then
             rbind (count_down c) (\<lambda>c'. Inr (calls, n\<lparr>sn_groups := set_count gs grp name c'\<rparr>))
           else Inr (calls, n\<lparr>sn_groups := gs\<rparr>))"

definition addGroupCallback :: "service_node \<Rightarrow> string \<Rightarrow> callback \<Rightarrow> sn_event list \<times> service_node" where
  "addGroupCallback n grp cb =
     (let (cbs, callbacks) = map_index [] (sn_callbacks n) grp;
          (members, gs) = map_index [] (sn_groups n) grp
      in (map (\<lambda>i. Notify grp cb (fst i) True) members,
          n\<lparr>sn_callbacks := map_store grp (cbs @ [cb]) callbacks, sn_groups := gs\<rparr>))"

definition removeGroupCallback :: "service_node \<Rightarrow> string \<Rightarrow> service_node" where
  "removeGroupCallback n grp = n\<lparr>sn_callbacks := map_erase grp (sn_callbacks n)\<rparr>"

definition RemovePeer :: "service_node \<Rightarrow> addr \<Rightarrow> service_node" where
  "RemovePeer n a = (let (peer, peers) = map_index None (sn_peers n) a in n\<lparr>sn_peers := map_erase a peers\<rparr>)"

text \<open>
  The \<open>Future<bool>\<close> of \<open>RPCAddPeer\<close> is either known at once or the one of the first
  call made on a client. \<open>sock\<close> is the answer of \<open>TcpSocket::connect\<close>: none, or a
  socket, over which the new client object is made.
\<close>

datatype answer = Ready bool | AnswerOf client

definition hello :: "service_node \<Rightarrow> client \<Rightarrow> addr \<Rightarrow> sn_event list" where
  "hello n peer a =
     map (\<lambda>i. Call peer (AddPeer (fst (fst i)) (snd (fst i)))) (filter (\<lambda>i. a \<noteq> fst i) (sn_peers n)) @
     concat (map (\<lambda>i. map (\<lambda>j. Call peer (AddToGroup (fst i) (fst j))) (snd i)) (sn_groups n))"

definition RPCAddPeer ::
  "service_node \<Rightarrow> client option \<Rightarrow> string \<Rightarrow> u16 \<Rightarrow> answer \<times> sn_event list \<times> service_node" where
  "RPCAddPeer n sock host port =
     (let a = (host, port) in
      if map_of (sn_peers n) a \<noteq> None then (Ready True, [], n)
      else case sock of
        None \<Rightarrow> (Ready False, [], n)
      | Some peer \<Rightarrow>
          let n' = n\<lparr>sn_peers := map_store a (Some peer) (sn_peers n)\<rparr> in
          (AnswerOf peer,
           [SetDisconnectCallback peer (Some a), Start peer, Call peer (AddPeer (sn_host n) (sn_port n))] @
             hello n' peer a,
           n'))"

definition RPCAddToGroup :: "service_node \<Rightarrow> string \<Rightarrow> string \<Rightarrow> (sn_event list \<times> service_node) res" where
  "RPCAddToGroup n grp v =
     (let gs = touch (sn_groups n) grp in
      case count_of gs grp v of
        Some c \<Rightarrow> rbind (count_up c) (\<lambda>c'. Inr ([], n\<lparr>sn_groups := set_count gs grp v c'\<rparr>))
      | None \<Rightarrow> Inr (fire_if n grp v True, n\<lparr>sn_groups := set_count gs grp v 1\<rparr>))"

definition RPCRemoveFromGroup :: "service_node \<Rightarrow> string \<Rightarrow> string \<Rightarrow> (sn_event list \<times> service_node) res" where
  "RPCRemoveFromGroup n grp v =
     (let gs = touch (sn_groups n) grp in
      case count_of gs grp v of
        Some c \<Rightarrow>
          (if c = 1 then Inr (fire_if n grp v False, n\<lparr>sn_groups := erase_count gs grp v\<rparr>)
           else Inr ([], n\<lparr>sn_groups := gs\<rparr>))
      | None \<Rightarrow>
          let (c, gs) = index_count gs grp v in
          rbind (count_down c) (\<lambda>c'. Inr ([], n\<lparr>sn_groups := set_count gs grp v c'\<rparr>)))"

definition shutdown :: "service_node \<Rightarrow> service_node" where
  "shutdown n = n\<lparr>sn_peers := []\<rparr>"

text \<open>\<open>~Internal\<close>.\<close>

definition drop_peer :: "sn_event list \<Rightarrow> addr \<times> client option \<Rightarrow> sn_event list res" where
  "drop_peer ev i = (case snd i of None \<Rightarrow> Inl NullDeref
     | Some c \<Rightarrow> Inr (ev @ [SetDisconnectCallback c None, Disconnect c]))"

definition destroy_internal :: "service_node \<Rightarrow> (sn_event list \<times> service_node) res" where
  "destroy_internal n = rbind (rfold drop_peer [] (sn_peers n)) (\<lambda>ev.
     Inr (ev, n\<lparr>sn_callbacks := [], sn_peers := []\<rparr>))"

text \<open>
  The functions the constructor registers with the RPC server, as the handler of one incoming
  call. \<open>conn\<close> answers for \<open>TcpSocket::connect\<close>.
\<close>

fun handle_call ::
  "(addr \<Rightarrow> client option) \<Rightarrow> service_node \<Rightarrow> peer_call \<Rightarrow> (sn_event list \<times> service_node) res" where
  "handle_call conn n (AddPeer host port) = Inr (snd (RPCAddPeer n (conn (host, port)) host port))"
| "handle_call conn n (AddToGroup grp v) = RPCAddToGroup n grp v"
| "handle_call conn n (RemoveFromGroup grp v) = RPCRemoveFromGroup n grp v"

subsection \<open>The directory as a map of counts\<close>

definition groups_ok :: "groups \<Rightarrow> bool" where
  "groups_ok gs \<longleftrightarrow> map_ok gs \<and> (\<forall>e \<in> set gs. map_ok (snd e))"

lemma groups_okD: "groups_ok gs \<Longrightarrow> map_of gs g = Some ms \<Longrightarrow> map_ok ms"
  using map_of_SomeD [of gs g ms] by (fastforce simp: groups_ok_def)

lemma groups_ok_iff: "groups_ok gs \<longleftrightarrow> map_ok gs \<and> (\<forall>g ms. map_of gs g = Some ms \<longrightarrow> map_ok ms)"
proof
  assume "groups_ok gs"
  then show "map_ok gs \<and> (\<forall>g ms. map_of gs g = Some ms \<longrightarrow> map_ok ms)"
    using groups_okD by (auto simp: groups_ok_def)
next
  assume r: "map_ok gs \<and> (\<forall>g ms. map_of gs g = Some ms \<longrightarrow> map_ok ms)"
  then have "map_ok (snd e)" if "e \<in> set gs" for e
    using that smap.entries_find [of gs "fst e" "snd e"] by auto
  with r show "groups_ok gs" by (simp add: groups_ok_def)
qed

lemma groups_ok_store:
  assumes "groups_ok gs" and "map_ok ms"
  shows "groups_ok (map_store g ms gs)"
  using assms by (auto simp: groups_ok_iff smap.ok_store smap.find_store split: if_splits)

lemma groups_ok_empty [simp]: "groups_ok []"
  by (simp add: groups_ok_def map_ok_def)

lemma map_ok_Nil [simp]: "map_ok []"
  by (simp add: map_ok_def)

lemma groups_ok_touch: "groups_ok gs \<Longrightarrow> groups_ok (touch gs g)"
  by (cases "map_of gs g") (auto simp: touch_def groups_ok_store)

lemma groups_ok_set_count: "groups_ok gs \<Longrightarrow> groups_ok (set_count gs g x c)"
  using smap.ok_store [of "[]" x c]
  by (cases "map_of gs g")
     (auto simp: set_count_def intro!: groups_ok_store smap.ok_store dest: groups_okD)

lemma groups_ok_erase_count: "groups_ok gs \<Longrightarrow> groups_ok (erase_count gs g x)"
  by (cases "map_of gs g")
     (auto simp: erase_count_def intro!: groups_ok_store smap.ok_erase dest: groups_okD)

lemmas groups_ok_intros = groups_ok_touch groups_ok_set_count groups_ok_erase_count

lemma count_of_touch [simp]: "count_of (touch gs g) h y = count_of gs h y"
  by (cases "map_of gs g") (auto simp: touch_def count_of_def smap.find_store)

lemma count_of_set_count [simp]:
  "count_of (set_count gs g x c) h y = (if h = g \<and> y = x then Some c else count_of gs h y)"
  by (cases "map_of gs g") (auto simp: set_count_def count_of_def smap.find_store)

lemma count_of_erase_count [simp]:
  "count_of (erase_count gs g x) h y = (if h = g \<and> y = x then None else count_of gs h y)"
  by (cases "map_of gs g") (auto simp: erase_count_def count_of_def smap.find_store map_of_map_erase)

lemma index_count_Some [simp]: "count_of gs g x = Some c \<Longrightarrow> index_count gs g x = (c, gs)"
  by (simp add: index_count_def)

lemma index_count_None [simp]: "count_of gs g x = None \<Longrightarrow> index_count gs g x = (0, set_count gs g x 0)"
  by (simp add: index_count_def)

definition members :: "service_node \<Rightarrow> string \<Rightarrow> string set" where
  "members n g = {x. count_of (sn_groups n) g x \<noteq> None}"

definition registered :: "service_node \<Rightarrow> string \<Rightarrow> callback list" where
  "registered n g = (case map_of (sn_callbacks n) g of None \<Rightarrow> [] | Some cbs \<Rightarrow> cbs)"

lemma fire_if_registered: "fire_if n g x b = fire g (registered n g) x b"
  by (auto simp: fire_if_def registered_def fire_def split: option.splits)

lemma index_callbacks:
  "map_index [] (sn_callbacks n) g = (registered n g, snd (map_index [] (sn_callbacks n) g))"
  by (cases "map_of (sn_callbacks n) g") (simp_all add: registered_def)

lemma find_index_callbacks:
  "(case map_of (snd (map_index [] m g)) h of None \<Rightarrow> [] | Some cbs \<Rightarrow> cbs) =
   (case map_of m h of None \<Rightarrow> [] | Some cbs \<Rightarrow> cbs)"
  by (cases "map_of m g") (auto simp: smap.find_store)

subsection \<open>The invariant\<close>

text \<open>
  The three maps are proper maps and no peer entry holds a null pointer; every count is at most
  \<open>k\<close> in absolute value.
\<close>

definition sn_ok :: "service_node \<Rightarrow> bool" where
  "sn_ok n \<longleftrightarrow> map_ok (sn_peers n) \<and> (\<forall>e \<in> set (sn_peers n). snd e \<noteq> None) \<and>
     groups_ok (sn_groups n) \<and> map_ok (sn_callbacks n)"

definition counts_within :: "nat \<Rightarrow> service_node \<Rightarrow> bool" where
  "counts_within k n \<longleftrightarrow> (\<forall>g x c. count_of (sn_groups n) g x = Some c \<longrightarrow> \<bar>sint c\<bar> \<le> int k)"

definition clients :: "service_node \<Rightarrow> client list" where
  "clients n = map (the \<circ> snd) (sn_peers n)"

lemma rfold_call_peer:
  "(\<forall>e \<in> set ps. snd e \<noteq> None) \<Longrightarrow>
   rfold (call_peer pc) ev ps = Inr (ev @ map (\<lambda>e. Call (the (snd e)) pc) ps)"
  by (induction ps arbitrary: ev) (auto simp: call_peer_def)

lemma call_peers_ok: "sn_ok n \<Longrightarrow> call_peers n pc = Inr (map (\<lambda>c. Call c pc) (clients n))"
  by (simp add: sn_ok_def call_peers_def clients_def rfold_call_peer)

lemma sint_add_1: "sint (c :: i32) < 2 ^ 31 - 1 \<Longrightarrow> sint (c + 1) = sint c + 1"
  using sint_range_size [of c] by (simp add: sint_word_ariths signed_take_bit_int_eq_self_iff size_word.rep_eq)

lemma sint_sub_1: "- (2 ^ 31) < sint (c :: i32) \<Longrightarrow> sint (c - 1) = sint c - 1"
  using sint_range_size [of c] by (simp add: sint_word_ariths signed_take_bit_int_eq_self_iff size_word.rep_eq)

subsection \<open>One equation per branch\<close>

lemma addToGroup_new:
  "sn_ok n \<Longrightarrow> count_of (sn_groups n) g x = None \<Longrightarrow>
   addToGroup n g x =
     Inr (map (\<lambda>c. Call c (AddToGroup g x)) (clients n) @ fire g (registered n g) x True,
          n\<lparr>sn_groups := set_count (touch (sn_groups n) g) g x 1,
            sn_callbacks := snd (map_index [] (sn_callbacks n) g)\<rparr>)"
  unfolding addToGroup_def by (subst index_callbacks) (simp add: call_peers_ok)

lemma addToGroup_again:
  "sn_ok n \<Longrightarrow> count_of (sn_groups n) g x = Some c \<Longrightarrow> sint c < 2 ^ 31 - 1 \<Longrightarrow>
   addToGroup n g x =
     Inr (map (\<lambda>c. Call c (AddToGroup g x)) (clients n),
          n\<lparr>sn_groups := set_count (touch (sn_groups n) g) g x (c + 1)\<rparr>)"
  by (simp add: addToGroup_def call_peers_ok count_up_def)

lemma removeFromGroup_last:
  "sn_ok n \<Longrightarrow> count_of (sn_groups n) g x = Some 1 \<Longrightarrow>
   removeFromGroup n g x =
     Inr (map (\<lambda>c. Call c (RemoveFromGroup g x)) (clients n) @ fire g (registered n g) x False,
          n\<lparr>sn_groups := erase_count (touch (sn_groups n) g) g x\<rparr>)"
  by (simp add: removeFromGroup_def call_peers_ok fire_if_registered)

lemma removeFromGroup_other:
  "sn_ok n \<Longrightarrow> count_of (sn_groups n) g x = Some c \<Longrightarrow> c \<noteq> 1 \<Longrightarrow>
   removeFromGroup n g x =
     Inr (map (\<lambda>c. Call c (RemoveFromGroup g x)) (clients n),
          n\<lparr>sn_groups := touch (sn_groups n) g\<rparr>)"
  by (simp add: removeFromGroup_def call_peers_ok)

lemma removeFromGroup_absent:
  "sn_ok n \<Longrightarrow> count_of (sn_groups n) g x = None \<Longrightarrow>
   removeFromGroup n g x =
     Inr (map (\<lambda>c. Call c (RemoveFromGroup g x)) (clients n),
          n\<lparr>sn_groups := set_count (touch (sn_groups n) g) g x 0\<rparr>)"
  by (simp add: removeFromGroup_def call_peers_ok)

lemma RPCAddToGroup_new:
  "count_of (sn_groups n) g x = None \<Longrightarrow>
   RPCAddToGroup n g x =
     Inr (fire g (registered n g) x True, n\<lparr>sn_groups := set_count (touch (sn_groups n) g) g x 1\<rparr>)"
  by (simp add: RPCAddToGroup_def fire_if_registered)

lemma RPCAddToGroup_again:
  "count_of (sn_groups n) g x = Some c \<Longrightarrow> sint c < 2 ^ 31 - 1 \<Longrightarrow>
   RPCAddToGroup n g x = Inr ([], n\<lparr>sn_groups := set_count (touch (sn_groups n) g) g x (c + 1)\<rparr>)"
  by (simp add: RPCAddToGroup_def count_up_def)

lemma RPCRemoveFromGroup_last:
  "count_of (sn_groups n) g x = Some 1 \<Longrightarrow>
   RPCRemoveFromGroup n g x =
     Inr (fire g (registered n g) x False, n\<lparr>sn_groups := erase_count (touch (sn_groups n) g) g x\<rparr>)"
  by (simp add: RPCRemoveFromGroup_def fire_if_registered)

lemma RPCRemoveFromGroup_other:
  "count_of (sn_groups n) g x = Some c \<Longrightarrow> c \<noteq> 1 \<Longrightarrow>
   RPCRemoveFromGroup n g x = Inr ([], n\<lparr>sn_groups := touch (sn_groups n) g\<rparr>)"
  by (simp add: RPCRemoveFromGroup_def)

lemma RPCRemoveFromGroup_absent:
  "count_of (sn_groups n) g x = None \<Longrightarrow>
   RPCRemoveFromGroup n g x =
     Inr ([], n\<lparr>sn_groups := set_count (set_count (touch (sn_groups n) g) g x 0) g x (- 1)\<rparr>)"
  by (simp add: RPCRemoveFromGroup_def count_down_def)

lemmas group_eqs =
  addToGroup_new addToGroup_again removeFromGroup_last removeFromGroup_other removeFromGroup_absent
  RPCAddToGroup_new RPCAddToGroup_again RPCRemoveFromGroup_last RPCRemoveFromGroup_other
  RPCRemoveFromGroup_absent

lemma addGroupCallback_eq:
  "addGroupCallback n g cb =
     (map (\<lambda>i. Notify g cb (fst i) True) (fst (map_index [] (sn_groups n) g)),
      n\<lparr>sn_callbacks := map_store g (registered n g @ [cb]) (snd (map_index [] (sn_callbacks n) g)),
        sn_groups := touch (sn_groups n) g\<rparr>)"
  unfolding addGroupCallback_def touch_def by (subst index_callbacks) (simp add: case_prod_beta)

subsection \<open>Runs\<close>

text \<open>
  Everything that can happen to a node: calls of its public methods (\<open>addPeer\<close> runs the same
  code as an incoming \<open>addPeer\<close> call), calls from peers, a lost connection and the
  destructor's \<open>shutdown\<close>.
\<close>

datatype sn_op =
    LocalAdd string string
  | LocalRemove string string
  | Incoming peer_call
  | AddCallback string callback
  | RemoveCallbacks string
  | LostPeer addr
  | Shutdown

fun sn_exec ::
  "(addr \<Rightarrow> client option) \<Rightarrow> service_node \<Rightarrow> sn_op \<Rightarrow> (sn_event list \<times> service_node) res" where
  "sn_exec conn n (LocalAdd g x) = addToGroup n g x"
| "sn_exec conn n (LocalRemove g x) = removeFromGroup n g x"
| "sn_exec conn n (Incoming pc) = handle_call conn n pc"
| "sn_exec conn n (AddCallback g cb) = Inr (addGroupCallback n g cb)"
| "sn_exec conn n (RemoveCallbacks g) = Inr ([], removeGroupCallback n g)"
| "sn_exec conn n (LostPeer a) = Inr ([], RemovePeer n a)"
| "sn_exec conn n Shutdown = Inr ([], shutdown n)"

definition sn_run ::
  "(addr \<Rightarrow> client option) \<Rightarrow> service_node \<Rightarrow> sn_op list \<Rightarrow> (sn_event list \<times> service_node) res" where
  "sn_run conn n ops =
     rfold (\<lambda>s op. rbind (sn_exec conn (snd s) op) (\<lambda>r. Inr (fst s @ fst r, snd r))) ([], n) ops"

lemma counts_withinI:
  "(\<And>g x c. count_of gs g x = Some c \<Longrightarrow> \<bar>sint c\<bar> \<le> int k) \<Longrightarrow> sn_groups n = gs \<Longrightarrow> counts_within k n"
  by (auto simp: counts_within_def)

lemma counts_within_mono: "counts_within k n \<Longrightarrow> sn_groups m = touch (sn_groups n) g \<or> sn_groups m = sn_groups n
   \<Longrightarrow> k \<le> l \<Longrightarrow> counts_within l m"
  by (fastforce simp: counts_within_def)

lemma counts_within_set:
  "counts_within k n \<Longrightarrow> \<bar>sint c\<bar> \<le> int (Suc k) \<Longrightarrow> counts_within (Suc k) (n\<lparr>sn_groups := set_count (touch (sn_groups n) g) g x c\<rparr>)"
  by (fastforce simp: counts_within_def)

lemma counts_within_erase:
  "counts_within k n \<Longrightarrow> counts_within (Suc k) (n\<lparr>sn_groups := erase_count (touch (sn_groups n) g) g x\<rparr>)"
  by (fastforce simp: counts_within_def)

lemma counts_within_callbacks [simp]:
  "counts_within k (n\<lparr>sn_groups := gs, sn_callbacks := cs\<rparr>) \<longleftrightarrow> counts_within k (n\<lparr>sn_groups := gs\<rparr>)"
  "counts_within k (n\<lparr>sn_callbacks := cs, sn_groups := gs\<rparr>) \<longleftrightarrow> counts_within k (n\<lparr>sn_groups := gs\<rparr>)"
  by (simp_all add: counts_within_def)

lemma map_ok_index: "map_ok m \<Longrightarrow> map_ok (snd (map_index d m k))"
  by (cases "map_of m k") (auto simp: smap.ok_store)

lemma sn_ok_groups: "sn_ok n \<Longrightarrow> groups_ok gs \<Longrightarrow> sn_ok (n\<lparr>sn_groups := gs\<rparr>)"
  by (simp add: sn_ok_def)

lemma sn_ok_callbacks: "sn_ok n \<Longrightarrow> map_ok cs \<Longrightarrow> sn_ok (n\<lparr>sn_callbacks := cs\<rparr>)"
  by (simp add: sn_ok_def)

lemma sn_ok_parts: "sn_ok n \<Longrightarrow> groups_ok (sn_groups n)" "sn_ok n \<Longrightarrow> map_ok (sn_callbacks n)"
    "sn_ok n \<Longrightarrow> map_ok (sn_peers n)"
  by (simp_all add: sn_ok_def)

lemma sn_ok_erase_peer: "sn_ok n \<Longrightarrow> sn_ok (n\<lparr>sn_peers := map_erase a (sn_peers n)\<rparr>)"
  by (auto simp: sn_ok_def smap.ok_erase) (auto simp: map_erase_def)

lemma RemovePeer_eq: "sn_ok n \<Longrightarrow> RemovePeer n a = n\<lparr>sn_peers := map_erase a (sn_peers n)\<rparr>"
  by (cases "map_of (sn_peers n) a") (simp_all add: RemovePeer_def sn_ok_def smap.erase_store)

lemma sn_ok_store_peer:
  assumes "sn_ok n"
  shows "sn_ok (n\<lparr>sn_peers := map_store a (Some c) (sn_peers n)\<rparr>)"
proof -
  let ?m = "map_store a (Some c) (sn_peers n)"
  have "snd e \<noteq> None" if "e \<in> set ?m" for e
  proof -
    from assms have "map_ok ?m" by (simp add: sn_ok_def smap.ok_store)
    with that have "map_of ?m (fst e) = Some (snd e)"
      using smap.entries_find [of ?m "fst e" "snd e"] by simp
    then have "snd e = Some c \<or> map_of (sn_peers n) (fst e) = Some (snd e)"
      by (auto simp: smap.find_store split: if_splits)
    then show ?thesis using assms map_of_SomeD [of "sn_peers n" "fst e" "snd e"]
      by (auto simp: sn_ok_def)
  qed
  with assms show ?thesis by (simp add: sn_ok_def smap.ok_store)
qed

lemma counts_within_small:
  assumes "counts_within k n" and "k < 2 ^ 31 - 1" and "count_of (sn_groups n) g x = Some c"
  shows "\<bar>sint c\<bar> \<le> int k" and "sint c < 2 ^ 31 - 1"
proof -
  show "\<bar>sint c\<bar> \<le> int k" using assms by (simp add: counts_within_def)
  moreover have "int k < 2 ^ 31 - 1" using assms(2) by simp
  ultimately show "sint c < 2 ^ 31 - 1" by linarith
qed

lemmas sn_ok_intros = sn_ok_groups sn_ok_callbacks groups_ok_intros map_ok_index smap.ok_store smap.ok_erase sn_ok_parts

lemma addToGroup_ok:
  assumes "sn_ok n" and "counts_within k n" and "k < 2 ^ 31 - 1"
  shows "\<exists>ev m. addToGroup n g x = Inr (ev, m) \<and> sn_ok m \<and> counts_within (Suc k) m"
proof (cases "count_of (sn_groups n) g x")
  case None
  have "counts_within (Suc k) (n\<lparr>sn_groups := set_count (touch (sn_groups n) g) g x 1\<rparr>)"
    using assms(2) by (rule counts_within_set) simp
  then show ?thesis using assms(1) None by (simp add: group_eqs sn_ok_intros)
next
  case (Some c)
  note c = counts_within_small [OF assms(2,3) Some]
  have "counts_within (Suc k) (n\<lparr>sn_groups := set_count (touch (sn_groups n) g) g x (c + 1)\<rparr>)"
    using assms(2) by (rule counts_within_set) (use c in \<open>simp add: sint_add_1\<close>)
  then show ?thesis using assms(1) Some c(2) by (simp add: group_eqs sn_ok_intros)
qed

lemma RPCAddToGroup_ok:
  assumes "sn_ok n" and "counts_within k n" and "k < 2 ^ 31 - 1"
  shows "\<exists>ev m. RPCAddToGroup n g x = Inr (ev, m) \<and> sn_ok m \<and> counts_within (Suc k) m"
proof (cases "count_of (sn_groups n) g x")
  case None
  have "counts_within (Suc k) (n\<lparr>sn_groups := set_count (touch (sn_groups n) g) g x 1\<rparr>)"
    using assms(2) by (rule counts_within_set) simp
  then show ?thesis using assms(1) None by (simp add: group_eqs sn_ok_intros)
next
  case (Some c)
  note c = counts_within_small [OF assms(2,3) Some]
  have "counts_within (Suc k) (n\<lparr>sn_groups := set_count (touch (sn_groups n) g) g x (c + 1)\<rparr>)"
    using assms(2) by (rule counts_within_set) (use c in \<open>simp add: sint_add_1\<close>)
  then show ?thesis using assms(1) Some c(2) by (simp add: group_eqs sn_ok_intros)
qed

lemma removeFromGroup_ok:
  assumes "sn_ok n" and "counts_within k n"
  shows "\<exists>ev m. removeFromGroup n g x = Inr (ev, m) \<and> sn_ok m \<and> counts_within (Suc k) m"
proof -
  consider (a) "count_of (sn_groups n) g x = None" | (l) "count_of (sn_groups n) g x = Some 1"
    | (o) c where "count_of (sn_groups n) g x = Some c" "c \<noteq> 1" by (metis not_None_eq)
  then show ?thesis
  proof cases
    case a
    have "counts_within (Suc k) (n\<lparr>sn_groups := set_count (touch (sn_groups n) g) g x 0\<rparr>)"
      using assms(2) by (rule counts_within_set) simp
    with a assms(1) show ?thesis by (simp add: group_eqs sn_ok_intros)
  next
    case l
    with assms counts_within_erase [OF assms(2)] show ?thesis by (simp add: group_eqs sn_ok_intros)
  next
    case o
    have "counts_within (Suc k) (n\<lparr>sn_groups := touch (sn_groups n) g\<rparr>)"
      using assms(2) by (rule counts_within_mono [of _ _ _ g]) simp_all
    with o assms(1) show ?thesis by (simp add: group_eqs sn_ok_intros)
  qed
qed

lemma RPCRemoveFromGroup_ok:
  assumes "sn_ok n" and "counts_within k n"
  shows "\<exists>ev m. RPCRemoveFromGroup n g x = Inr (ev, m) \<and> sn_ok m \<and> counts_within (Suc k) m"
proof -
  consider (a) "count_of (sn_groups n) g x = None" | (l) "count_of (sn_groups n) g x = Some 1"
    | (o) c where "count_of (sn_groups n) g x = Some c" "c \<noteq> 1" by (metis not_None_eq)
  then show ?thesis
  proof cases
    case a
    have "counts_within (Suc k) (n\<lparr>sn_groups := set_count (set_count (touch (sn_groups n) g) g x 0) g x (- 1)\<rparr>)"
      using assms(2) by (fastforce simp: counts_within_def)
    with a assms(1) show ?thesis by (simp add: group_eqs sn_ok_intros)
  next
    case l
    with assms counts_within_erase [OF assms(2)] show ?thesis by (simp add: group_eqs sn_ok_intros)
  next
    case o
    have "counts_within (Suc k) (n\<lparr>sn_groups := touch (sn_groups n) g\<rparr>)"
      using assms(2) by (rule counts_within_mono [of _ _ _ g]) simp_all
    with o assms(1) show ?thesis by (simp add: group_eqs sn_ok_intros)
  qed
qed

lemma RPCAddPeer_cases:
  obtains (known) "map_of (sn_peers n) (h, p) \<noteq> None" "RPCAddPeer n sock h p = (Ready True, [], n)"
  | (refused) "map_of (sn_peers n) (h, p) = None" "sock = None" "RPCAddPeer n sock h p = (Ready False, [], n)"
  | (connected) c m where "map_of (sn_peers n) (h, p) = None" "sock = Some c"
      "m = n\<lparr>sn_peers := map_store (h, p) (Some c) (sn_peers n)\<rparr>"
      "RPCAddPeer n sock h p = (AnswerOf c, [SetDisconnectCallback c (Some (h, p)), Start c,
         Call c (AddPeer (sn_host n) (sn_port n))] @ hello m c (h, p), m)"
  by (cases sock) (force simp: RPCAddPeer_def Let_def)+

lemma RPCAddPeer_ok:
  assumes "sn_ok n"
  shows "sn_ok (snd (snd (RPCAddPeer n sock h p)))"
    and "sn_groups (snd (snd (RPCAddPeer n sock h p))) = sn_groups n"
    and "sn_callbacks (snd (snd (RPCAddPeer n sock h p))) = sn_callbacks n"
  by (cases rule: RPCAddPeer_cases [of n h p sock]; simp add: assms sn_ok_store_peer)+

lemma sn_exec_ok:
  assumes "sn_ok n" and "counts_within k n" and "k < 2 ^ 31 - 1"
  shows "\<exists>ev m. sn_exec conn n op = Inr (ev, m) \<and> sn_ok m \<and> counts_within (Suc k) m"
proof -
  have same: "sn_groups m = sn_groups n \<or> sn_groups m = touch (sn_groups n) g \<Longrightarrow> counts_within (Suc k) m" for m g
    using counts_within_mono [OF assms(2), of m g "Suc k"] by auto
  show ?thesis
  proof (cases op)
    case (Incoming pc)
    then show ?thesis
    proof (cases pc)
      case (AddPeer h p)
      show ?thesis using Incoming AddPeer RPCAddPeer_ok [OF assms(1)] same by (simp add: prod_eq_iff)
    qed (use Incoming RPCAddToGroup_ok [OF assms] RPCRemoveFromGroup_ok [OF assms(1,2)] in auto)
  next
    case (AddCallback g cb)
    then show ?thesis using assms(1) same [where m = "n\<lparr>sn_groups := touch (sn_groups n) g\<rparr>" and g = g]
      by (simp add: addGroupCallback_eq sn_ok_intros)
  next
    case (RemoveCallbacks g)
    then show ?thesis using assms(1) same by (simp add: removeGroupCallback_def sn_ok_intros)
  next
    case (LostPeer a)
    then show ?thesis using assms(1) same by (simp add: RemovePeer_eq sn_ok_erase_peer)
  next
    case Shutdown
    then show ?thesis using assms(1) same by (simp add: shutdown_def sn_ok_def)
  qed (use addToGroup_ok [OF assms] removeFromGroup_ok [OF assms(1,2)] in auto)
qed

lemma sn_run_snoc:
  "sn_run conn n (ops @ [op]) =
     rbind (sn_run conn n ops) (\<lambda>s. rbind (sn_exec conn (snd s) op) (\<lambda>r. Inr (fst s @ fst r, snd r)))"
  by (simp add: sn_run_def rfold_snoc)

lemma sn_run_ok:
  "sn_ok n \<Longrightarrow> counts_within k n \<Longrightarrow> k + length ops < 2 ^ 31 - 1 \<Longrightarrow>
   \<exists>ev m. sn_run conn n ops = Inr (ev, m) \<and> sn_ok m \<and> counts_within (k + length ops) m"
proof (induction ops rule: rev_induct)
  case Nil
  then show ?case by (simp add: sn_run_def)
next
  case (snoc op ops)
  then obtain ev m where run: "sn_run conn n ops = Inr (ev, m)"
    and m: "sn_ok m" "counts_within (k + length ops) m" by fastforce
  from sn_exec_ok [OF m, of conn op] snoc.prems obtain ev' m' where
    "sn_exec conn m op = Inr (ev', m')" "sn_ok m'" "counts_within (Suc (k + length ops)) m'" by auto
  with run show ?case by (simp add: sn_run_snoc)
qed

lemma new_internal_ok [simp]: "sn_ok (new_internal h p)" "counts_within 0 (new_internal h p)"
  by (simp_all add: new_internal_def sn_ok_def counts_within_def count_of_def)

subsection \<open>What a callback hears\<close>

text \<open>
  The set of names a callback of group \<open>g\<close> would hold if it added and removed names as told.
\<close>

fun hear :: "string \<Rightarrow> callback \<Rightarrow> string set \<Rightarrow> sn_event \<Rightarrow> string set" where
  "hear g cb S (Notify g' cb' x b) =
     (if g' = g \<and> cb' = cb then (if b then insert x S else S - {x}) else S)"
| "hear g cb S _ = S"

definition view :: "sn_event list \<Rightarrow> string \<Rightarrow> callback \<Rightarrow> string set" where
  "view h g cb = foldl (hear g cb) {} h"

lemma hear_calls [simp]: "foldl (hear g cb) S (map (\<lambda>c. Call c pc) cs) = S"
  by (induction cs) simp_all

lemma hear_other: "\<forall>e \<in> set ev. \<forall>g cb x b. e \<noteq> Notify g cb x b \<Longrightarrow> foldl (hear g cb) S ev = S"
proof (induction ev arbitrary: S)
  case (Cons e ev)
  then show ?case by (cases e) auto
qed simp

lemma hear_fire [simp]:
  "foldl (hear g cb) S (fire g' cbs x b) =
     (if g' = g \<and> cb \<in> set cbs then (if b then insert x S else S - {x}) else S)"
  by (induction cbs arbitrary: S) (auto simp: fire_def)

lemma hear_snapshot:
  "foldl (hear g cb) S (map (\<lambda>i. Notify g' cb' (fst i) True) ms) =
     (if g' = g \<and> cb' = cb then S \<union> fst ` set ms else S)"
  by (induction ms arbitrary: S) auto

lemma hear_fresh: "\<forall>x b. Notify g cb x b \<notin> set h \<Longrightarrow> foldl (hear g cb) S h = S"
proof (induction h arbitrary: S)
  case (Cons e h)
  then show ?case by (cases e) auto
qed simp

lemma members_index: "groups_ok (sn_groups n) \<Longrightarrow> fst ` set (fst (map_index [] (sn_groups n) g)) = members n g"
proof (cases "map_of (sn_groups n) g")
  case (Some ms)
  assume "groups_ok (sn_groups n)"
  with Some have "fst ` set ms = {x. map_of ms x \<noteq> None}"
    by (intro smap.entry_keys groups_okD)
  with Some show ?thesis by (simp add: members_def count_of_def)
qed (simp add: members_def count_of_def)

text \<open>
  What registered callbacks were told, against the names that are listed: nothing is told that is
  not listed, and what is listed and was not told is among the names \<open>strays\<close>.
\<close>

definition told :: "string set \<Rightarrow> string set \<Rightarrow> string set \<Rightarrow> bool" where
  "told S V M \<longleftrightarrow> V \<subseteq> M \<and> M - V \<subseteq> S"

lemma told_intros:
  "told S M M" "told S V M \<Longrightarrow> told S (insert x V) (insert x M)" "told S V M \<Longrightarrow> told S (V - {x}) (M - {x})"
  by (auto simp: told_def)

lemma told_stray: "told (S `` {h}) V M \<Longrightarrow> told (insert (g, x) S `` {h}) V (if h = g then insert x M else M)"
  by (auto simp: told_def)

definition in_step :: "sn_event list \<Rightarrow> (string \<times> string) set \<Rightarrow> service_node \<Rightarrow> bool" where
  "in_step h strays n \<longleftrightarrow> sn_ok n \<and> (\<forall>g. \<forall>cb \<in> set (registered n g). told (strays `` {g}) (view h g cb) (members n g))"

lemma registered_simps [simp]:
  "registered (n\<lparr>sn_groups := gs\<rparr>) g = registered n g"
  "registered (n\<lparr>sn_peers := ps\<rparr>) g = registered n g"
  "registered (n\<lparr>sn_callbacks := cs, sn_groups := gs\<rparr>) g = registered (n\<lparr>sn_callbacks := cs\<rparr>) g"
  "registered (n\<lparr>sn_groups := gs, sn_callbacks := cs\<rparr>) g = registered (n\<lparr>sn_callbacks := cs\<rparr>) g"
  "registered (n\<lparr>sn_callbacks := snd (map_index [] (sn_callbacks n) g')\<rparr>) g = registered n g"
  by (simp_all add: registered_def find_index_callbacks)

lemma members_simps [simp]:
  "members (n\<lparr>sn_callbacks := cs\<rparr>) g = members n g"
  "members (n\<lparr>sn_peers := ps\<rparr>) g = members n g"
  "members (n\<lparr>sn_groups := gs, sn_callbacks := cs\<rparr>) g = members (n\<lparr>sn_groups := gs\<rparr>) g"
  "members (n\<lparr>sn_callbacks := cs, sn_groups := gs\<rparr>) g = members (n\<lparr>sn_groups := gs\<rparr>) g"
  "members (n\<lparr>sn_groups := touch (sn_groups n) g'\<rparr>) g = members n g"
  "members (n\<lparr>sn_groups := set_count (touch (sn_groups n) g') g' x c\<rparr>) g =
     (if g = g' then insert x (members n g) else members n g)"
  "members (n\<lparr>sn_groups := erase_count (touch (sn_groups n) g') g' x\<rparr>) g =
     (if g = g' then members n g - {x} else members n g)"
  by (auto simp: members_def)

lemma view_append: "view (h @ ev) g cb = foldl (hear g cb) (view h g cb) ev"
  by (simp add: view_def)

lemma members_None: "count_of (sn_groups n) g x = None \<longleftrightarrow> x \<notin> members n g"
  by (simp add: members_def)

lemma overflow_addToGroup:
  "sn_ok n \<Longrightarrow> count_of (sn_groups n) g x = Some c \<Longrightarrow> \<not> sint c < 2 ^ 31 - 1 \<Longrightarrow>
   addToGroup n g x = Inl SignedOverflow \<and> RPCAddToGroup n g x = Inl SignedOverflow"
  using sint_range_size [of c]
  by (simp add: addToGroup_def RPCAddToGroup_def call_peers_ok count_up_def size_word.rep_eq)

lemma in_step_add:
  assumes "in_step h strays n" and "addToGroup n g x = Inr (ev, m) \<or> RPCAddToGroup n g x = Inr (ev, m)"
  shows "in_step (h @ ev) strays m"
proof (cases "count_of (sn_groups n) g x")
  case None
  with assms show ?thesis
    by (auto simp: in_step_def group_eqs view_append sn_ok_intros told_intros)
next
  case (Some c)
  then have x: "x \<in> members n g" by (simp add: members_def)
  have "sint c < 2 ^ 31 - 1"
  proof (rule ccontr)
    assume "\<not> sint c < 2 ^ 31 - 1"
    from overflow_addToGroup [OF _ Some this] assms show False by (auto simp: in_step_def)
  qed
  with assms Some x show ?thesis
    by (auto simp: in_step_def group_eqs view_append sn_ok_intros told_intros insert_absorb split: if_splits)
qed

lemma in_step_remove:
  assumes "in_step h strays n" and "removeFromGroup n g x = Inr (ev, m) \<or> RPCRemoveFromGroup n g x = Inr (ev, m)"
  shows "in_step (h @ ev) (strays \<union> (if x \<in> members n g then {} else {(g, x)})) m"
proof (cases "count_of (sn_groups n) g x")
  case None
  then have "x \<notin> members n g" by (simp add: members_def)
  moreover have "sn_ok n" using assms(1) by (simp add: in_step_def)
  with None assms(2) have "sn_ok m" "\<And>f. registered m f = registered n f" "\<And>f cb. view (h @ ev) f cb = view h f cb"
    "\<And>f. members m f = (if f = g then insert x (members n f) else members n f)"
    by (auto simp: group_eqs view_append sn_ok_intros members_def split: if_splits)
  ultimately show ?thesis
    using assms(1) told_stray [of strays _ _ _ g x] by (simp add: in_step_def del: if_image_distrib)
next
  case (Some c)
  then have "x \<in> members n g" by (simp add: members_def)
  with Some assms show ?thesis
    by (cases "c = 1") (auto simp: in_step_def group_eqs view_append sn_ok_intros told_intros)
qed

lemma registered_store:
  "registered (n\<lparr>sn_callbacks := map_store g cbs (snd (map_index [] (sn_callbacks n) g))\<rparr>) g' =
     (if g' = g then cbs else registered n g')"
  by (cases "map_of (sn_callbacks n) g") (auto simp: registered_def smap.find_store)

lemma registered_erase:
  "registered (n\<lparr>sn_callbacks := map_erase g (sn_callbacks n)\<rparr>) g' = (if g' = g then [] else registered n g')"
  by (simp add: registered_def map_of_map_erase)

lemma in_step_callback:
  assumes "in_step h strays n" and "\<forall>x b. Notify g cb x b \<notin> set h" and "addGroupCallback n g cb = (ev, m)"
  shows "in_step (h @ ev) strays m"
proof -
  have "view h g cb = {}" using assms(2) by (simp add: view_def hear_fresh)
  moreover have "groups_ok (sn_groups n)" using assms(1) by (simp add: in_step_def sn_ok_def)
  ultimately show ?thesis using assms(1,3)
    by (auto simp: in_step_def addGroupCallback_eq view_append hear_snapshot members_index
        registered_store sn_ok_intros told_intros split: if_splits)
qed

lemma hello_no_notify: "e \<in> set (hello n c a) \<Longrightarrow> e \<noteq> Notify g cb x b"
  by (auto simp: hello_def)

lemma in_step_peer:
  assumes "in_step h strays n" and "snd (RPCAddPeer n sock a p) = (ev, m)"
  shows "in_step (h @ ev) strays m"
proof -
  have "\<forall>e \<in> set ev. \<forall>g cb x b. e \<noteq> Notify g cb x b"
    using assms(2) by (cases rule: RPCAddPeer_cases [of n a p sock]) (auto dest: hello_no_notify)
  then have "view (h @ ev) g cb = view h g cb" for g cb
    by (simp add: view_append hear_other)
  with assms RPCAddPeer_ok [of n sock a p] show ?thesis
    by (auto simp: in_step_def registered_def members_def)
qed

text \<open>
  All runs of a node, with the names that were removed while they were not listed. The number of
  a callback stands for one registration of it, so a group registers it before it notifies it.
\<close>

fun fresh_callback :: "sn_event list \<Rightarrow> sn_op \<Rightarrow> bool" where
  "fresh_callback h (AddCallback g cb) \<longleftrightarrow> (\<forall>e \<in> set h. case e of Notify g' cb' x b \<Rightarrow> (g', cb') \<noteq> (g, cb) | _ \<Rightarrow> True)"
| "fresh_callback h _ \<longleftrightarrow> True"

fun removed_absent :: "service_node \<Rightarrow> sn_op \<Rightarrow> (string \<times> string) set" where
  "removed_absent n (LocalRemove g x) = (if count_of (sn_groups n) g x = None then {(g, x)} else {})"
| "removed_absent n (Incoming (RemoveFromGroup g x)) = (if count_of (sn_groups n) g x = None then {(g, x)} else {})"
| "removed_absent n _ = {}"

inductive sn_reach :: "(addr \<Rightarrow> client option) \<Rightarrow> sn_event list \<Rightarrow> (string \<times> string) set \<Rightarrow> service_node \<Rightarrow> bool" for conn where
  start: "sn_reach conn [] {} (new_internal host port)"
| step: "sn_reach conn h strays n \<Longrightarrow> fresh_callback h op \<Longrightarrow> sn_exec conn n op = Inr (ev, m) \<Longrightarrow>
    sn_reach conn (h @ ev) (strays \<union> removed_absent n op) m"

lemma in_step_exec:
  assumes "in_step h strays n" and "fresh_callback h op" and "sn_exec conn n op = Inr (ev, m)"
  shows "in_step (h @ ev) (strays \<union> removed_absent n op) m"
proof (cases op)
  case (Incoming pc)
  then show ?thesis using assms
  proof (cases pc)
    case (RemoveFromGroup g x)
    with Incoming assms in_step_remove [of h strays n g x ev m] show ?thesis by (auto simp: members_None)
  qed (auto intro: in_step_peer in_step_add)
next
  case (AddCallback g cb)
  with assms(2) have "\<forall>x b. Notify g cb x b \<notin> set h" by fastforce
  with AddCallback assms show ?thesis by (auto intro: in_step_callback)
next
  case (LocalRemove g x)
  with assms in_step_remove [of h strays n g x ev m] show ?thesis by (auto simp: members_None)
next
  case (LostPeer a)
  with assms show ?thesis by (auto simp: in_step_def RemovePeer_eq sn_ok_erase_peer view_append)
next
  case (RemoveCallbacks g)
  with assms show ?thesis
    by (auto simp: in_step_def removeGroupCallback_def sn_ok_intros registered_erase split: if_splits)
next
  case Shutdown
  with assms show ?thesis by (auto simp: in_step_def shutdown_def sn_ok_def)
qed (use assms in \<open>auto intro: in_step_add\<close>)

lemma sn_reach_in_step: "sn_reach conn h strays n \<Longrightarrow> in_step h strays n"
proof (induction rule: sn_reach.induct)
  case (start host port)
  then show ?case by (simp add: in_step_def sn_ok_def new_internal_def registered_def)
qed (rule in_step_exec)

subsection \<open>Joining the mesh\<close>

definition calls_to :: "client \<Rightarrow> sn_event list \<Rightarrow> peer_call list" where
  "calls_to c ev = concat (map (\<lambda>e. case e of Call c' pc \<Rightarrow> if c' = c then [pc] else [] | _ \<Rightarrow> []) ev)"

lemma set_calls_to: "set (calls_to c ev) = {pc. Call c pc \<in> set ev}"
  by (force simp: calls_to_def split: sn_event.splits if_splits)

definition peer_addrs :: "service_node \<Rightarrow> addr set" where
  "peer_addrs n = {a. map_of (sn_peers n) a \<noteq> None}"

lemma hello_groups:
  assumes "groups_ok (sn_groups n)"
  shows "Call c (AddToGroup g x) \<in> set (hello n c a) \<longleftrightarrow> x \<in> members n g"
proof -
  have "Call c (AddToGroup g x) \<in> set (hello n c a) \<longleftrightarrow> (\<exists>ms v. (g, ms) \<in> set (sn_groups n) \<and> (x, v) \<in> set ms)"
    by (force simp: hello_def)
  also have "\<dots> \<longleftrightarrow> (\<exists>ms. map_of (sn_groups n) g = Some ms \<and> (\<exists>v. (x, v) \<in> set ms))"
    using smap.entries_find [of "sn_groups n" g] assms by (simp add: groups_ok_def)
  also have "\<dots> \<longleftrightarrow> (\<exists>ms. map_of (sn_groups n) g = Some ms \<and> (\<exists>v. map_of ms x = Some v))"
    using smap.entries_find [OF groups_okD [OF assms]] by blast
  also have "\<dots> \<longleftrightarrow> x \<in> members n g"
    by (auto simp: members_def count_of_def split: option.splits)
  finally show ?thesis .
qed

lemma hello_peers:
  assumes "map_ok (sn_peers n)"
  shows "Call c (AddPeer h p) \<in> set (hello n c a) \<longleftrightarrow> (h, p) \<in> peer_addrs n \<and> (h, p) \<noteq> a"
proof -
  have "Call c (AddPeer h p) \<in> set (hello n c a) \<longleftrightarrow> (\<exists>v. ((h, p), v) \<in> set (sn_peers n)) \<and> (h, p) \<noteq> a"
    by (force simp: hello_def)
  then show ?thesis using smap.entries_find [OF assms, of "(h, p)"] by (simp add: peer_addrs_def)
qed

lemma handle_additions:
  assumes "sn_ok n" and "handle_call conn n pc = Inr (ev, m)" and "\<forall>g x. pc \<noteq> RemoveFromGroup g x"
  shows "members m g = members n g \<union> {x. pc = AddToGroup g x}"
    and "peer_addrs m = peer_addrs n \<union> {a. pc = AddPeer (fst a) (snd a) \<and> conn a \<noteq> None}"
proof -
  have "members m g = members n g \<union> {x. pc = AddToGroup g x} \<and>
        peer_addrs m = peer_addrs n \<union> {a. pc = AddPeer (fst a) (snd a) \<and> conn a \<noteq> None}"
  proof (cases pc)
    case (AddPeer h p)
    then have m: "snd (RPCAddPeer n (conn (h, p)) h p) = (ev, m)" using assms(2) by simp
    show ?thesis
      by (cases rule: RPCAddPeer_cases [of n h p "conn (h, p)"])
         (use m AddPeer in \<open>auto simp: peer_addrs_def smap.find_store split: if_splits\<close>)
  next
    case (AddToGroup g' x)
    then have m: "RPCAddToGroup n g' x = Inr (ev, m)" using assms(2) by simp
    show ?thesis
    proof (cases "count_of (sn_groups n) g' x")
      case None
      with m AddToGroup show ?thesis by (auto simp: group_eqs peer_addrs_def split: if_splits)
    next
      case (Some c)
      moreover from this have "x \<in> members n g'" by (simp add: members_def)
      moreover have "sint c < 2 ^ 31 - 1"
      proof (rule ccontr)
        assume "\<not> sint c < 2 ^ 31 - 1"
        from overflow_addToGroup [OF assms(1) Some this] m show False by simp
      qed
      ultimately show ?thesis using m AddToGroup
        by (auto simp: group_eqs peer_addrs_def insert_absorb split: if_splits)
    qed
  qed (use assms(3) in auto)
  then show "members m g = members n g \<union> {x. pc = AddToGroup g x}"
    and "peer_addrs m = peer_addrs n \<union> {a. pc = AddPeer (fst a) (snd a) \<and> conn a \<noteq> None}" by blast+
qed

lemma run_additions:
  assumes "sn_ok n" and "counts_within k n"
  shows "k + length pcs < 2 ^ 31 - 1 \<Longrightarrow> \<forall>pc \<in> set pcs. \<forall>g x. pc \<noteq> RemoveFromGroup g x \<Longrightarrow>
   \<exists>ev m. sn_run conn n (map Incoming pcs) = Inr (ev, m) \<and> sn_ok m \<and>
     (\<forall>g. members m g = members n g \<union> {x. AddToGroup g x \<in> set pcs}) \<and>
     peer_addrs m = peer_addrs n \<union> {a. AddPeer (fst a) (snd a) \<in> set pcs \<and> conn a \<noteq> None}"
proof (induction pcs rule: rev_induct)
  case Nil
  then show ?case using assms by (simp add: sn_run_def)
next
  case (snoc pc pcs)
  from snoc obtain ev m where run: "sn_run conn n (map Incoming pcs) = Inr (ev, m)" and ok: "sn_ok m"
    and IH: "\<And>g. members m g = members n g \<union> {x. AddToGroup g x \<in> set pcs}"
      "peer_addrs m = peer_addrs n \<union> {a. AddPeer (fst a) (snd a) \<in> set pcs \<and> conn a \<noteq> None}"
    by fastforce
  from sn_run_ok [OF assms, of "map Incoming (pcs @ [pc])" conn] snoc.prems(1) obtain ev' m' where
    run': "sn_run conn n (map Incoming (pcs @ [pc])) = Inr (ev', m')" and ok': "sn_ok m'" by auto
  with run obtain ev'' where "handle_call conn m pc = Inr (ev'', m')"
    by (auto simp: sn_run_snoc rbind_Inr_iff)
  from handle_additions [OF ok this] snoc.prems(2) IH run' ok' show ?case by auto
qed

subsection \<open>Properties\<close>

text \<open>
  C21. Any sequence of fewer than \<open>2 ^ 31 - 1\<close> operations on a fresh service node (local and
  remote group changes, callback registration, peers coming and going, shutdown), whatever the
  answers of \<open>TcpSocket::connect\<close>, runs to its end: no reference count overflows and no
  null client is called; the maps stay well formed and no peer entry is null.
\<close>

theorem service_node_runs_are_safe:
  assumes "length ops < 2 ^ 31 - 1"
  shows "\<exists>ev m. sn_run conn (new_internal h p) ops = Inr (ev, m) \<and> sn_ok m"
  using sn_run_ok [of "new_internal h p" 0 ops conn] assms by auto

theorem service_node_runs_are_safe_witness:
  "\<exists>ev m. sn_run (\<lambda>a. Some 1) (new_internal ''a'' 1)
     [Incoming (AddPeer ''b'' 2), LocalRemove ''g'' ''x'', LocalAdd ''g'' ''x'', LostPeer (''c'', 3)] = Inr (ev, m) \<and> sn_ok m"
  by (rule service_node_runs_are_safe) simp

text \<open>
  C11. Group callbacks are told the truth: after any sequence of operations, in which a callback
  that is registered for a group was told nothing of it before, a registered callback that applied the
  additions and removals it was told, from its registration on, holds only names the node lists for
  the group, and it holds all of them but those that were at some time removed while they were not
  listed, which the code then lists without telling anyone.
\<close>

theorem callback_view_is_membership:
  assumes "sn_reach conn h strays n" and "cb \<in> set (registered n g)"
  shows "view h g cb \<subseteq> members n g \<and> members n g - view h g cb \<subseteq> {x. (g, x) \<in> strays}"
  using sn_reach_in_step [OF assms(1)] assms(2) by (fastforce simp: in_step_def told_def)

text \<open>A concrete run: a name present before the registration, one added and one removed after it.\<close>

definition example_node :: service_node where
  "example_node = \<lparr>sn_host = ''h'', sn_port = 1, sn_peers = [], sn_groups = [(''g'', [(''b'', 1)])],
     sn_callbacks = [(''g'', [7])]\<rparr>"

lemma sn_reach_stepI:
  "sn_reach conn h strays n \<Longrightarrow> fresh_callback h op \<Longrightarrow> sn_exec conn n op = Inr (ev, m) \<Longrightarrow> h' = h @ ev \<Longrightarrow>
   strays' = strays \<union> removed_absent n op \<Longrightarrow> sn_reach conn h' strays' m"
  using sn_reach.step by blast

lemma example_node_reach:
  "sn_reach conn [Notify ''g'' 7 ''a'' True, Notify ''g'' 7 ''b'' True, Notify ''g'' 7 ''a'' False] {} example_node"
proof -
  let ?n = "\<lambda>gs cs. \<lparr>sn_host = ''h'', sn_port = 1, sn_peers = [], sn_groups = gs, sn_callbacks = cs\<rparr>"
  let ?a = "[Notify ''g'' 7 ''a'' True]" and ?b = "[Notify ''g'' 7 ''b'' True]"
  have 0: "sn_reach conn [] {} (?n [] [])"
    using sn_reach.start [of conn "''h''" 1] by (simp add: new_internal_def)
  have 1: "sn_reach conn [] {} (?n [(''g'', [(''a'', 1)])] [(''g'', [])])"
    by (rule sn_reach_stepI [OF 0, where op = "LocalAdd ''g'' ''a''"]) (code_simp, code_simp, simp_all)
  have 2: "sn_reach conn ?a {} (?n [(''g'', [(''a'', 1)])] [(''g'', [7])])"
    by (rule sn_reach_stepI [OF 1, where op = "AddCallback ''g'' 7"]) (code_simp, code_simp, simp_all)
  have 3: "sn_reach conn (?a @ ?b) {} (?n [(''g'', [(''a'', 1), (''b'', 1)])] [(''g'', [7])])"
    by (rule sn_reach_stepI [OF 2, where op = "LocalAdd ''g'' ''b''"]) (code_simp, code_simp, simp_all)
  show ?thesis
    by (rule sn_reach_stepI [OF 3, where op = "LocalRemove ''g'' ''a''"])
       (code_simp, code_simp, simp, simp add: count_of_def)
qed

theorem callback_view_is_membership_witness:
  "view [Notify ''g'' 7 ''a'' True, Notify ''g'' 7 ''b'' True, Notify ''g'' 7 ''a'' False] ''g'' 7 =
     members example_node ''g''"
proof -
  have "7 \<in> set (registered example_node ''g'')" by (simp add: registered_def example_node_def)
  from callback_view_is_membership [OF example_node_reach [of "\<lambda>a. None"] this] show ?thesis by blast
qed

text \<open>
  Joining the mesh: when a node accepts a new peer, the calls it sends over the new
  connection, delivered in order to a node in good order with room in its counts, are all
  answered, and afterwards that node lists every name of every group that the sender lists, next
  to its own, and holds a peer entry for the sender and for each of the sender's peers that it
  can connect to: one contact leads to the whole network.
\<close>

lemma join_shares_directory_and_peers:
  assumes "sn_ok n" and "map_of (sn_peers n) (h, p) = None"
    and "RPCAddPeer n (Some c) h p = (ans, ev, n')"
    and "sn_ok m" and "counts_within k m" and "k + length (calls_to c ev) < 2 ^ 31 - 1"
  shows "\<exists>out m'. sn_run conn m (map Incoming (calls_to c ev)) = Inr (out, m') \<and> sn_ok m' \<and>
     (\<forall>g. members m' g = members m g \<union> members n g) \<and>
     peer_addrs m' = peer_addrs m \<union> {a \<in> insert (sn_host n, sn_port n) (peer_addrs n). conn a \<noteq> None}"
proof -
  have n': "n' = n\<lparr>sn_peers := map_store (h, p) (Some c) (sn_peers n)\<rparr>"
    and ev: "ev = [SetDisconnectCallback c (Some (h, p)), Start c, Call c (AddPeer (sn_host n) (sn_port n))] @
      hello n' c (h, p)"
    using assms(2,3) by (auto simp: RPCAddPeer_def Let_def)
  have ok: "sn_ok n'" using assms(1) unfolding n' by (rule sn_ok_store_peer)
  have addrs: "a \<in> peer_addrs n' \<and> a \<noteq> (h, p) \<longleftrightarrow> a \<in> peer_addrs n" for a
    using assms(2) by (auto simp: n' peer_addrs_def smap.find_store)
  have add: "AddToGroup g x \<in> set (calls_to c ev) \<longleftrightarrow> x \<in> members n g" for g x
    using hello_groups [of n'] sn_ok_parts(1) [OF ok] by (simp add: set_calls_to ev n')
  have peer: "AddPeer (fst a) (snd a) \<in> set (calls_to c ev) \<longleftrightarrow> a \<in> insert (sn_host n, sn_port n) (peer_addrs n)" for a
    using hello_peers [OF sn_ok_parts(3) [OF ok], of c "fst a" "snd a"] addrs [of a]
    by (auto simp: set_calls_to ev prod_eq_iff)
  have "\<forall>pc \<in> set (calls_to c ev). \<forall>g x. pc \<noteq> RemoveFromGroup g x"
    by (auto simp: set_calls_to ev hello_def)
  from run_additions [OF assms(4,5,6) this, of conn] show ?thesis by (simp add: add peer)
qed

text \<open>
  C12. Replicas of the directory: if a node and a peer hold the same directory, then after a local
  \<open>addToGroup\<close> and the peer's handling of the broadcast call they hold the same directory again, and
  after a local \<open>removeFromGroup\<close> and the peer's handling of it they do exactly if the name was
  listed. The local operation sends exactly one call to every peer before it notifies the callbacks.
\<close>

theorem broadcast_keeps_replicas_equal:
  assumes "sn_ok n" and "sn_ok m" and "sn_groups n = sn_groups m" and "counts_within k n" and "k < 2 ^ 31 - 1"
  shows "(\<exists>ev n' ev' m'. addToGroup n g x = Inr (map (\<lambda>c. Call c (AddToGroup g x)) (clients n) @ ev, n') \<and>
           handle_call conn m (AddToGroup g x) = Inr (ev', m') \<and> sn_groups n' = sn_groups m') \<and>
         (\<exists>ev n' ev' m'. removeFromGroup n g x = Inr (map (\<lambda>c. Call c (RemoveFromGroup g x)) (clients n) @ ev, n') \<and>
           handle_call conn m (RemoveFromGroup g x) = Inr (ev', m') \<and> (sn_groups n' = sn_groups m' \<longleftrightarrow> x \<in> members n g))"
proof (intro conjI)
  show "\<exists>ev n' ev' m'. addToGroup n g x = Inr (map (\<lambda>c. Call c (AddToGroup g x)) (clients n) @ ev, n') \<and>
           handle_call conn m (AddToGroup g x) = Inr (ev', m') \<and> sn_groups n' = sn_groups m'"
  proof (cases "count_of (sn_groups n) g x")
    case None
    with assms show ?thesis by (simp add: addToGroup_new RPCAddToGroup_new)
  next
    case (Some c)
    with assms counts_within_small(2) [OF assms(4,5) Some] show ?thesis
      by (simp add: addToGroup_again RPCAddToGroup_again)
  qed
  show "\<exists>ev n' ev' m'. removeFromGroup n g x = Inr (map (\<lambda>c. Call c (RemoveFromGroup g x)) (clients n) @ ev, n') \<and>
           handle_call conn m (RemoveFromGroup g x) = Inr (ev', m') \<and> (sn_groups n' = sn_groups m' \<longleftrightarrow> x \<in> members n g)"
  proof (cases "count_of (sn_groups n) g x")
    case None
    let ?gs = "touch (sn_groups n) g"
    have "count_of (set_count ?gs g x 0) g x \<noteq> count_of (set_count (set_count ?gs g x 0) g x (- 1)) g x" by simp
    then have "set_count ?gs g x 0 \<noteq> set_count (set_count ?gs g x 0) g x (- 1)" by metis
    with None assms show ?thesis
      by (simp add: removeFromGroup_absent RPCRemoveFromGroup_absent members_def)
  next
    case (Some c)
    then have "x \<in> members n g" by (simp add: members_def)
    with Some assms show ?thesis
      by (cases "c = 1") (simp_all add: removeFromGroup_last RPCRemoveFromGroup_last
          removeFromGroup_other RPCRemoveFromGroup_other)
  qed
qed

theorem broadcast_keeps_replicas_equal_witness:
  "\<exists>ev n' ev' m'. removeFromGroup example_node ''g'' ''b'' =
       Inr (map (\<lambda>c. Call c (RemoveFromGroup ''g'' ''b'')) (clients example_node) @ ev, n') \<and>
     handle_call (\<lambda>a. None) (example_node\<lparr>sn_port := 2\<rparr>) (RemoveFromGroup ''g'' ''b'') = Inr (ev', m') \<and>
     sn_groups n' = sn_groups m'"
proof -
  have "sn_ok example_node" by code_simp
  moreover have "sn_ok (example_node\<lparr>sn_port := 2\<rparr>)" by code_simp
  moreover have "counts_within 1 example_node"
    by (auto simp: counts_within_def example_node_def count_of_def split: if_splits)
  moreover have "''b'' \<in> members example_node ''g''" by (simp add: members_def count_of_def example_node_def)
  ultimately show ?thesis
    using broadcast_keeps_replicas_equal [where k = 1 and n = example_node and m = "example_node\<lparr>sn_port := 2\<rparr>"
        and g = "''g''" and x = "''b''" and conn = "\<lambda>a. None", THEN conjunct2] by simp
qed

text \<open>
  What \<open>addToGroup\<close> does, on both branches: the name's count becomes one more, or one if it
  was absent; no other count changes; the group's callbacks hear of the name exactly when it was
  absent, after every peer was called.
\<close>

lemma addToGroup_counts:
  assumes "sn_ok n" and "counts_within k n" and "k < 2 ^ 31 - 1"
  shows "\<exists>m. addToGroup n g x =
       Inr (map (\<lambda>c. Call c (AddToGroup g x)) (clients n) @
            (if x \<in> members n g then [] else map (\<lambda>cb. Notify g cb x True) (registered n g)), m) \<and>
     count_of (sn_groups m) g x = Some (case count_of (sn_groups n) g x of None \<Rightarrow> 1 | Some c \<Rightarrow> c + 1) \<and>
     (\<forall>g' x'. (g', x') \<noteq> (g, x) \<longrightarrow> count_of (sn_groups m) g' x' = count_of (sn_groups n) g' x') \<and>
     sn_peers m = sn_peers n \<and> (\<forall>g'. registered m g' = registered n g')"
proof (cases "count_of (sn_groups n) g x")
  case None
  with assms(1) show ?thesis by (simp add: addToGroup_new members_def fire_def)
next
  case (Some c)
  with assms(1) counts_within_small(2) [OF assms(2,3) Some] show ?thesis
    by (simp add: addToGroup_again members_def)
qed

text \<open>Whatever a node does next, a count of two or more does not go down.\<close>

lemma sn_exec_keeps_repeated:
  assumes "sn_ok n" and "count_of (sn_groups n) g x = Some c" and "2 \<le> sint c" and "sn_exec conn n op = Inr (ev, m)"
  shows "\<exists>c'. count_of (sn_groups m) g x = Some c' \<and> sint c \<le> sint c'"
proof -
  have ne: "c \<noteq> 1" using assms(3) by auto
  have up: "sint d \<le> sint (d + 1)" if "sint d < 2 ^ 31 - 1" for d :: i32 using sint_add_1 [OF that] by simp
  have add: ?thesis if r: "addToGroup n h y = Inr (ev, m) \<or> RPCAddToGroup n h y = Inr (ev, m)" for h y
  proof (cases "count_of (sn_groups n) h y")
    case None
    with assms(1,2) r show ?thesis by (auto simp: group_eqs)
  next
    case (Some d)
    then have "sint d < 2 ^ 31 - 1" using overflow_addToGroup [OF assms(1) Some] r by force
    with Some assms(1,2) r up [OF this] show ?thesis by (auto simp: group_eqs)
  qed
  have remove: ?thesis if r: "removeFromGroup n h y = Inr (ev, m) \<or> RPCRemoveFromGroup n h y = Inr (ev, m)" for h y
  proof (cases "count_of (sn_groups n) h y")
    case None
    with assms(1,2) r show ?thesis by (auto simp: group_eqs)
  next
    case (Some d)
    then show ?thesis using assms(1,2) ne r by (cases "d = 1") (auto simp: group_eqs)
  qed
  show ?thesis
  proof (cases op)
    case (Incoming pc)
    show ?thesis
    proof (cases pc)
      case (AddPeer h p)
      then have "snd (RPCAddPeer n (conn (h, p)) h p) = (ev, m)" using assms(4) Incoming by simp
      then show ?thesis using assms(2) by (cases rule: RPCAddPeer_cases [of n h p "conn (h, p)"]) auto
    next
      case (AddToGroup h y)
      then show ?thesis using assms(4) Incoming by (intro add [of h y]) simp
    next
      case (RemoveFromGroup h y)
      then show ?thesis using assms(4) Incoming by (intro remove [of h y]) simp
    qed
  next
    case (AddCallback h cb)
    then show ?thesis using assms(2,4) by (auto simp: addGroupCallback_eq)
  next
    case (RemoveCallbacks h)
    then show ?thesis using assms(2,4) by (auto simp: removeGroupCallback_def)
  next
    case (LostPeer a)
    then show ?thesis using assms(1,2,4) by (auto simp: RemovePeer_eq)
  next
    case Shutdown
    then show ?thesis using assms(2,4) by (auto simp: shutdown_def)
  next
    case (LocalAdd h y)
    then show ?thesis using assms(4) by (intro add [of h y]) simp
  next
    case (LocalRemove h y)
    then show ?thesis using assms(4) by (intro remove [of h y]) simp
  qed
qed

text \<open>
  C38. A name that was added twice can never leave its group again: once its count is two or more,
  whatever the node and its peers do afterwards, removals of the name included, the count never
  goes down and the name stays listed.
\<close>

theorem repeated_member_never_leaves:
  assumes "sn_ok n" and "counts_within k n" and "k + length ops < 2 ^ 31 - 1"
    and "count_of (sn_groups n) g x = Some c" and "2 \<le> sint c"
  shows "\<exists>ev m c'. sn_run conn n ops = Inr (ev, m) \<and> count_of (sn_groups m) g x = Some c' \<and> sint c \<le> sint c' \<and> x \<in> members m g"
  using assms(3)
proof (induction ops rule: rev_induct)
  case Nil
  then show ?case using assms(4) by (simp add: sn_run_def members_def)
next
  case (snoc op ops)
  then obtain ev m c' where IH: "sn_run conn n ops = Inr (ev, m)" "count_of (sn_groups m) g x = Some c'" "sint c \<le> sint c'"
    by auto
  have "sn_ok m" using sn_run_ok [OF assms(1,2), of ops conn] IH(1) snoc.prems by auto
  obtain ev2 m2 where run: "sn_run conn n (ops @ [op]) = Inr (ev2, m2)"
    using sn_run_ok [OF assms(1,2) snoc.prems, of conn] by auto
  then obtain ev3 where "sn_exec conn m op = Inr (ev3, m2)" using IH(1) by (auto simp: sn_run_snoc rbind_Inr_iff)
  from sn_exec_keeps_repeated [OF \<open>sn_ok m\<close> IH(2) _ this] IH(3) assms(5) obtain c2 where
    "count_of (sn_groups m2) g x = Some c2" "sint c' \<le> sint c2" by auto
  with run IH(3) show ?case by (auto simp: members_def)
qed

theorem repeated_member_never_leaves_witness:
  "\<exists>ev m. sn_run (\<lambda>a. None) (example_node\<lparr>sn_groups := [(''g'', [(''b'', 2)])]\<rparr>)
     [LocalRemove ''g'' ''b'', Incoming (RemoveFromGroup ''g'' ''b''), LocalRemove ''g'' ''b''] = Inr (ev, m) \<and>
     ''b'' \<in> members m ''g''"
proof -
  let ?n = "example_node\<lparr>sn_groups := [(''g'', [(''b'', 2)])]\<rparr>"
  have 1: "sn_ok ?n" by code_simp
  have 2: "counts_within 2 ?n" by (auto simp: counts_within_def example_node_def count_of_def split: if_splits)
  have 3: "count_of (sn_groups ?n) ''g'' ''b'' = Some 2" by code_simp
  from repeated_member_never_leaves [OF 1 2 _ 3, of
      "[LocalRemove ''g'' ''b'', Incoming (RemoveFromGroup ''g'' ''b''), LocalRemove ''g'' ''b'']" "\<lambda>a. None"]
  show ?thesis by auto
qed

text \<open>
  A lost connection removes the peer and nothing else: the names that were learnt from it stay
  listed and no callback is told.
\<close>

lemma lost_peer_stays_listed: "sn_ok n \<Longrightarrow> members (RemovePeer n a) g = members n g"
  by (simp add: RemovePeer_eq members_def)

text \<open>
  Removing a name that is not in the group makes it a member: \<open>removeFromGroup\<close> leaves it
  with count 0 and the peers that get the broadcast with count -1, so the directories of nodes
  that agreed now differ, and no callback is told.
\<close>

lemma removing_absent_name_adds_it:
  assumes "sn_ok n" and "count_of (sn_groups n) g x = None"
  shows "\<exists>m m'. removeFromGroup n g x = Inr (map (\<lambda>c. Call c (RemoveFromGroup g x)) (clients n), m) \<and>
     RPCRemoveFromGroup n g x = Inr ([], m') \<and> x \<in> members m g \<and> x \<in> members m' g \<and>
     count_of (sn_groups m) g x = Some 0 \<and> count_of (sn_groups m') g x = Some (- 1)"
  using assms by (simp add: removeFromGroup_absent RPCRemoveFromGroup_absent members_def)

lemma create_any_port_Some:
  "create_any_port listen host rands = Some n \<Longrightarrow>
   \<exists>r \<in> set rands. listen (of_nat (r mod 40000 + 1024)) \<and> n = new_internal host (of_nat (r mod 40000 + 1024))"
  by (induction rands) (auto simp: Let_def split: if_splits)

lemma create_any_port_None:
  "create_any_port listen host rands = None \<longleftrightarrow> (\<forall>r \<in> set rands. \<not> listen (of_nat (r mod 40000 + 1024)))"
  by (induction rands) (auto simp: Let_def)

text \<open>
  C34. The node created on a random port has a port from 1024 to 41023 that the listen socket
  accepted, and the search for a port ends as soon as \<open>rand()\<close> has given a value whose port can
  be listened on.
\<close>

theorem random_port_in_range:
  "(\<forall>n. create_any_port listen host rands = Some n \<longrightarrow>
      listen (sn_port n) \<and> 1024 \<le> unat (sn_port n) \<and> unat (sn_port n) \<le> 41023 \<and> sn_host n = host) \<and>
   ((\<exists>r \<in> set rands. listen (of_nat (r mod 40000 + 1024))) \<longrightarrow> create_any_port listen host rands \<noteq> None)"
proof -
  have range: "1024 \<le> unat (of_nat (r mod 40000 + 1024) :: u16) \<and>
      unat (of_nat (r mod 40000 + 1024) :: u16) \<le> 41023" for r :: nat
  proof -
    have r: "r mod 40000 < 40000" by simp
    then have "r mod 40000 + 1024 < 2 ^ LENGTH(16)" by simp
    then have "unat (of_nat (r mod 40000 + 1024) :: u16) = r mod 40000 + 1024"
      by (simp only: unsigned_of_nat take_bit_nat_eq_self of_nat_id)
    with r show ?thesis by linarith
  qed
  have "listen (sn_port n) \<and> 1024 \<le> unat (sn_port n) \<and> unat (sn_port n) \<le> 41023 \<and> sn_host n = host"
    if "create_any_port listen host rands = Some n" for n
  proof -
    from create_any_port_Some [OF that] obtain r where
      "listen (of_nat (r mod 40000 + 1024))" and "n = new_internal host (of_nat (r mod 40000 + 1024))" by blast
    with range [of r] show ?thesis by (simp only: new_internal_def service_node.simps)
  qed
  then show ?thesis using create_any_port_None [of listen host rands] by blast
qed

theorem random_port_in_range_witness:
  "create_any_port (\<lambda>p. p \<noteq> 1024) ''h'' [40000, 40001] = Some (new_internal ''h'' 1025) \<and>
   1024 \<le> unat (sn_port (new_internal ''h'' 1025)) \<and> unat (sn_port (new_internal ''h'' 1025)) \<le> 41023"
proof -
  have 1: "create_any_port (\<lambda>p. p \<noteq> 1024) ''h'' [40000, 40001] = Some (new_internal ''h'' 1025)"
    by (simp add: Let_def)
  with random_port_in_range [of "\<lambda>p. p \<noteq> 1024" "''h''" "[40000, 40001]"] show ?thesis by blast
qed

end
