(* ===== verification/Discovery.thy ===== *)
theory Discovery
  imports Main
begin

section \<open>Peer discovery\<close>

text \<open>
  The protocol by which the nodes of \<open>ServiceNode\<close> and of \<open>BlockStoreNode\<close> get to know each other,
  without the nodes: who knows whom, which \<open>addPeer\<close> calls were sent to whom and not yet handled,
  and whom the application asked to add whom. A node that adds a new peer tells it its own address
  and those of all its other peers. Both networks of nodes are refinements of this system, and
  inherit from it who knows whom once all calls are handled.
\<close>

record 'a disc =
  dk_knows :: "('a \<times> 'a) set"
  dk_pending :: "('a \<times> 'a) set" \<comment> \<open>\<open>(a, b)\<close>: a call that tells \<open>a\<close> to add \<open>b\<close>\<close>
  dk_asked :: "('a \<times> 'a) set"

definition disc_start :: "'a disc" where
  "disc_start = \<lparr>dk_knows = {}, dk_pending = {}, dk_asked = {}\<rparr>"

text \<open>What \<open>a\<close> tells \<open>b\<close> when it handles a call to add \<open>b\<close>.\<close>

definition announced :: "'a disc \<Rightarrow> 'a \<Rightarrow> 'a \<Rightarrow> 'a set" where
  "announced d a b = (if (a, b) \<in> dk_knows d then {} else insert a (dk_knows d `` {a}))"

text \<open>The same call may be pending more than once, so handling it may leave it pending.\<close>

inductive disc_step :: "'a set \<Rightarrow> 'a disc \<Rightarrow> 'a disc \<Rightarrow> bool" for A where
  ask: "a \<in> A \<Longrightarrow> b \<in> A \<Longrightarrow> a \<noteq> b \<Longrightarrow>
    disc_step A d \<lparr>dk_knows = insert (a, b) (dk_knows d), dk_pending = dk_pending d \<union> Pair b ` announced d a b,
      dk_asked = insert (a, b) (dk_asked d)\<rparr>"
| deliver: "(a, b) \<in> dk_pending d \<Longrightarrow> insert (a, b) P = dk_pending d \<union> Pair b ` announced d a b \<Longrightarrow>
    disc_step A d \<lparr>dk_knows = insert (a, b) (dk_knows d), dk_pending = P, dk_asked = dk_asked d\<rparr>"

inductive disc_reach :: "'a set \<Rightarrow> 'a disc \<Rightarrow> bool" for A where
  start: "disc_reach A disc_start"
| step: "disc_reach A d \<Longrightarrow> disc_step A d d' \<Longrightarrow> disc_reach A d'"

definition told :: "'a disc \<Rightarrow> ('a \<times> 'a) set" where
  "told d = dk_knows d \<union> dk_pending d"

definition links :: "'a disc \<Rightarrow> ('a \<times> 'a) set" where
  "links d = (dk_asked d \<union> (dk_asked d)\<inverse>)\<^sup>+"

lemma links_sym: "(x, y) \<in> links d \<Longrightarrow> (y, x) \<in> links d"
  unfolding links_def by (metis converse_Un converse_converse sup_commute sym_conv_converse_eq symD sym_trancl)

lemma links_trans: "(x, y) \<in> links d \<Longrightarrow> (y, z) \<in> links d \<Longrightarrow> (x, z) \<in> links d"
  unfolding links_def by (rule trancl_trans)

lemma links_asked: "(x, y) \<in> dk_asked d \<Longrightarrow> (x, y) \<in> links d"
  unfolding links_def by blast

lemma links_mono: "dk_asked d \<subseteq> dk_asked d' \<Longrightarrow> links d \<subseteq> links d'"
  unfolding links_def by (rule trancl_mono_subset) blast

subsection \<open>The invariant\<close>

definition disc_inv :: "'a set \<Rightarrow> 'a disc \<Rightarrow> bool" where
  "disc_inv A d \<longleftrightarrow> told d \<subseteq> A \<times> A \<and> (\<forall>a. (a, a) \<notin> told d) \<and> dk_asked d \<subseteq> dk_knows d \<and> told d \<subseteq> links d \<and>
     (\<forall>a b. (a, b) \<in> dk_knows d \<longrightarrow> (b, a) \<in> told d) \<and>
     (\<forall>a b c. (a, b) \<in> dk_knows d \<longrightarrow> (a, c) \<in> dk_knows d \<longrightarrow> b \<noteq> c \<longrightarrow> (b, c) \<in> told d \<or> (c, b) \<in> told d)"

text \<open>Both kinds of steps: \<open>a\<close> handles a call to add \<open>b\<close>.\<close>

lemma disc_inv_handled:
  assumes inv: "disc_inv A d" and ab: "a \<in> A" "b \<in> A" "a \<noteq> b" "(a, b) \<in> links d'"
    and knows: "dk_knows d' = insert (a, b) (dk_knows d)"
    and told: "told d' = insert (a, b) (told d) \<union> Pair b ` announced d a b"
    and asked: "dk_asked d \<subseteq> dk_asked d'" "dk_asked d' \<subseteq> insert (a, b) (dk_asked d)"
  shows "disc_inv A d'"
proof -
  let ?P = "dk_knows d `` {a}" and ?N = "announced d a b"
  have new: "?N = {} \<and> (a, b) \<in> dk_knows d \<or> (a, b) \<notin> dk_knows d \<and> ?N = insert a ?P"
    by (simp add: announced_def)
  have P: "(a, p) \<in> dk_knows d" "(a, p) \<in> told d" if "p \<in> ?P" for p using that by (auto simp: told_def)
  have "told d \<subseteq> links d'" using inv links_mono [OF asked(1)] by (auto simp: disc_inv_def)
  moreover from this have "(b, p) \<in> links d'" if "p \<in> ?P" for p
    using P(2) [OF that] links_trans [OF links_sym [OF ab(4)], of p] by blast
  ultimately have "told d' \<subseteq> links d'"
    using new ab(4) links_sym [OF ab(4)] unfolding told by auto
  moreover have "?P \<subseteq> A" using P(2) inv unfolding disc_inv_def by blast
  then have "told d' \<subseteq> A \<times> A"
    using new ab inv unfolding told disc_inv_def by auto
  moreover have "(x, x) \<notin> told d'" for x
    using new ab inv unfolding told disc_inv_def by auto
  moreover have "(y, x) \<in> told d'" if "(x, y) \<in> dk_knows d'" for x y
    using that new inv unfolding told knows disc_inv_def by blast
  moreover have "(y, z) \<in> told d' \<or> (z, y) \<in> told d'"
    if "(x, y) \<in> dk_knows d'" "(x, z) \<in> dk_knows d'" "y \<noteq> z" for x y z
  proof (cases "(x, y) \<in> dk_knows d \<and> (x, z) \<in> dk_knows d")
    case True
    then show ?thesis using inv that(3) unfolding told disc_inv_def by blast
  next
    case False
    then have "x = a" and yz: "y = b \<and> z \<in> ?P \<or> z = b \<and> y \<in> ?P" and "(a, b) \<notin> dk_knows d"
      using that unfolding knows by blast+
    then have "?N = insert a ?P" using new by blast
    with yz show ?thesis unfolding told by blast
  qed
  moreover have "dk_asked d' \<subseteq> dk_knows d'" using asked inv by (auto simp: knows disc_inv_def)
  ultimately show ?thesis unfolding disc_inv_def by blast
qed

lemma disc_step_inv:
  assumes "disc_step A d d'" and inv: "disc_inv A d"
  shows "disc_inv A d'"
  using assms(1)
proof cases
  case (ask a b)
  then have "(a, b) \<in> links d'" by (intro links_asked) simp
  with ask show ?thesis by (intro disc_inv_handled [OF inv, of a b]) (auto simp: told_def)
next
  case (deliver a b P)
  then have "(a, b) \<in> told d" by (simp add: told_def)
  then have "a \<in> A" "b \<in> A" "a \<noteq> b" "(a, b) \<in> links d" using inv by (auto simp: disc_inv_def)
  moreover have "links d' = links d" using deliver(1) by (simp add: links_def)
  moreover have "told d' = insert (a, b) (told d) \<union> Pair b ` announced d a b"
  proof -
    have "told d' = dk_knows d \<union> insert (a, b) P" using deliver(1) by (simp add: told_def)
    then show ?thesis unfolding deliver(3) using deliver(2) by (auto simp: told_def)
  qed
  ultimately show ?thesis using deliver(1) by (intro disc_inv_handled [OF inv, of a b]) auto
qed

lemma disc_reach_inv: "disc_reach A d \<Longrightarrow> disc_inv A d"
proof (induction rule: disc_reach.induct)
  case start
  show ?case by (simp add: disc_inv_def disc_start_def told_def)
qed (rule disc_step_inv)

subsection \<open>When all calls are handled\<close>

lemma disc_quiet:
  assumes "disc_inv A d" and "dk_pending d = {}" and "a \<noteq> b"
  shows "(a, b) \<in> dk_knows d \<longleftrightarrow> (a, b) \<in> links d"
proof
  show "(a, b) \<in> links d" if "(a, b) \<in> dk_knows d" using that assms(1) by (auto simp: disc_inv_def told_def)
  assume l: "(a, b) \<in> links d"
  have told: "told d = dk_knows d" using assms(2) by (simp add: told_def)
  have sym: "(y, x) \<in> dk_knows d" if "(x, y) \<in> dk_knows d" for x y
    using assms(1) that unfolding disc_inv_def told by blast
  have trans: "(x, z) \<in> dk_knows d" if "(x, y) \<in> dk_knows d" "(y, z) \<in> dk_knows d" "x \<noteq> z" for x y z
    using assms(1) sym [OF that(1)] that(2,3) sym unfolding disc_inv_def told by blast
  have edge: "(x, y) \<in> dk_knows d" if "(x, y) \<in> dk_asked d \<union> (dk_asked d)\<inverse>" for x y
    using that assms(1) sym unfolding disc_inv_def by blast
  have "b \<noteq> a \<longrightarrow> (a, b) \<in> dk_knows d"
    using l unfolding links_def
  proof (induction rule: trancl_induct)
    case (base y)
    then show ?case using edge by blast
  next
    case (step y z)
    then show ?case using edge [OF step(2)] trans by blast
  qed
  with assms(3) show "(a, b) \<in> dk_knows d" by blast
qed

text \<open>A call about a peer that is not known yet makes fewer of them possible.\<close>

lemma disc_decreases:
  assumes "finite A" and "disc_inv A d" and "(a, b) \<in> dk_pending d" and "(a, b) \<notin> dk_knows d"
  shows "card (A \<times> A - insert (a, b) (dk_knows d)) < card (A \<times> A - dk_knows d)"
proof -
  have "(a, b) \<in> A \<times> A" using assms(2,3) by (auto simp: disc_inv_def told_def)
  with assms(4) have "A \<times> A - insert (a, b) (dk_knows d) \<subset> A \<times> A - dk_knows d" by auto
  then show ?thesis using assms(1) by (simp add: psubset_card_mono)
qed

end
