(* ===== verification/Service_Mesh.thy ===== *)
theory Service_Mesh
  imports Service_Node Discovery
begin

section \<open>The network of service nodes\<close>

text \<open>
  \<open>ServiceNode\<close>s at the addresses of a set, all reachable from each other, and the calls that were
  sent and not yet handled, each with the node it is addressed to. The application makes a node
  add a peer or adds a name to a group at a node; a call is handled by the function registered for
  it at its node, in any order. A node makes a new client object for each new peer. Connections
  are not lost and no name is removed; \<open>sm_asked\<close> and \<open>sm_added\<close> record what the application did.
\<close>

record smesh =
  sm_node :: "addr \<Rightarrow> service_node"
  sm_pending :: "(addr \<times> peer_call) list"
  sm_asked :: "(addr \<times> addr) set"
  sm_added :: "(addr \<times> string \<times> string) set"

text \<open>The calls that an operation made on the clients of the node's peers, with their addressees.\<close>

definition sent :: "service_node \<Rightarrow> sn_event list \<Rightarrow> (addr \<times> peer_call) list" where
  "sent n ev = concat (map (\<lambda>e. case snd e of None \<Rightarrow> [] | Some c \<Rightarrow> map (Pair (fst e)) (calls_to c ev)) (sn_peers n))"

definition smesh_start :: smesh where
  "smesh_start = \<lparr>sm_node = \<lambda>a. new_internal (fst a) (snd a), sm_pending = [], sm_asked = {}, sm_added = {}\<rparr>"

inductive smesh_step :: "addr set \<Rightarrow> smesh \<Rightarrow> smesh \<Rightarrow> bool" for A where
  ask: "a \<in> A \<Longrightarrow> b \<in> A \<Longrightarrow> a \<noteq> b \<Longrightarrow> c \<notin> set (clients (sm_node m a)) \<Longrightarrow>
    handle_call (\<lambda>_. Some c) (sm_node m a) (AddPeer (fst b) (snd b)) = Inr (ev, n) \<Longrightarrow>
    smesh_step A m (m\<lparr>sm_node := (sm_node m)(a := n), sm_pending := sm_pending m @ sent n ev,
      sm_asked := insert (a, b) (sm_asked m)\<rparr>)"
| add: "a \<in> A \<Longrightarrow> addToGroup (sm_node m a) g x = Inr (ev, n) \<Longrightarrow>
    smesh_step A m (m\<lparr>sm_node := (sm_node m)(a := n), sm_pending := sm_pending m @ sent n ev,
      sm_added := insert (a, g, x) (sm_added m)\<rparr>)"
| deliver: "sm_pending m = xs @ (a, pc) # ys \<Longrightarrow> c \<notin> set (clients (sm_node m a)) \<Longrightarrow>
    handle_call (\<lambda>_. Some c) (sm_node m a) pc = Inr (ev, n) \<Longrightarrow>
    smesh_step A m (m\<lparr>sm_node := (sm_node m)(a := n), sm_pending := xs @ ys @ sent n ev\<rparr>)"

inductive smesh_reach :: "addr set \<Rightarrow> smesh \<Rightarrow> bool" for A where
  start: "smesh_reach A smesh_start"
| step: "smesh_reach A m \<Longrightarrow> smesh_step A m m' \<Longrightarrow> smesh_reach A m'"

subsection \<open>What an operation sends\<close>

lemma set_sent: "set (sent n ev) = {(b, pc). \<exists>c. (b, Some c) \<in> set (sn_peers n) \<and> Call c pc \<in> set ev}"
  by (force simp: sent_def set_calls_to split: option.splits)

lemma sent_none: "\<forall>c pc. Call c pc \<notin> set ev \<Longrightarrow> sent n ev = []"
  using set_sent [of n ev] by (auto simp: set_empty [symmetric] simp del: set_empty)

lemma in_clients: "(b, Some c) \<in> set (sn_peers n) \<Longrightarrow> c \<in> set (clients n)"
  by (force simp: clients_def)

text \<open>A new peer is told the node's own address, those of its other peers, and all group members.\<close>

definition greeting :: "service_node \<Rightarrow> peer_call set" where
  "greeting n = insert (AddPeer (sn_host n) (sn_port n))
     ({AddPeer (fst b) (snd b) |b. b \<in> peer_addrs n} \<union> {AddToGroup g x |g x. x \<in> members n g})"

lemma join_effect:
  assumes ok: "sn_ok n" and "c \<notin> set (clients n)"
    and call: "handle_call (\<lambda>_. Some c) n (AddPeer (fst b) (snd b)) = Inr (ev, m)"
  shows "set (sent m ev) = (if b \<in> peer_addrs n then {} else Pair b ` greeting n)"
    and "sn_ok m" and "sn_host m = sn_host n" and "sn_port m = sn_port n"
proof -
  have r: "snd (RPCAddPeer n (Some c) (fst b) (snd b)) = (ev, m)" using call by simp
  then show "sn_ok m" using RPCAddPeer_ok(1) [OF ok, of "Some c" "fst b" "snd b"] by simp
  have "set (sent m ev) = (if b \<in> peer_addrs n then {} else Pair b ` greeting n) \<and> sn_host m = sn_host n \<and> sn_port m = sn_port n"
  proof (cases rule: RPCAddPeer_cases [of n "fst b" "snd b" "Some c"])
    case known
    then show ?thesis using r by (simp add: peer_addrs_def sent_none)
  next
    case (connected c' m')
    then have m: "m = n\<lparr>sn_peers := map_store b (Some c) (sn_peers n)\<rparr>" and new: "map_of (sn_peers n) b = None"
      and ev: "ev = [SetDisconnectCallback c (Some b), Start c, Call c (AddPeer (sn_host n) (sn_port n))] @ hello m c b"
      using r by auto
    have okm: "sn_ok m" using ok unfolding m by (rule sn_ok_store_peer)
    have "map_ok (sn_peers n)" "map_ok (sn_peers m)" using ok okm by (simp_all add: sn_ok_def)
    then have entry: "(x, Some c) \<in> set (sn_peers m) \<longleftrightarrow> x = b" for x
      using assms(2) in_clients [of x c n] smap.entries_find [of "sn_peers n" x "Some c"]
        smap.entries_find [of "sn_peers m" x "Some c"] by (auto simp: m smap.find_store split: if_splits)
    have on_c: "Call y pc \<in> set ev \<Longrightarrow> y = c" for y pc by (auto simp: ev hello_def)
    have peers: "x \<in> peer_addrs m \<and> x \<noteq> b \<longleftrightarrow> x \<in> peer_addrs n" for x
      using new by (auto simp: m peer_addrs_def smap.find_store)
    have "members m = members n" by (simp add: m members_def fun_eq_iff)
    then have "Call c pc \<in> set ev \<longleftrightarrow> pc \<in> greeting n" for pc
      using hello_peers [of m c _ _ b] hello_groups [of m c _ _ b] okm peers
      by (cases pc) (auto simp: greeting_def ev sn_ok_def, auto simp: hello_def)
    then have "set (sent m ev) = Pair b ` greeting n" using entry on_c by (auto simp: set_sent)
    moreover have "b \<notin> peer_addrs n" using new by (simp add: peer_addrs_def)
    ultimately show ?thesis by (simp add: m)
  qed simp
  then show "set (sent m ev) = (if b \<in> peer_addrs n then {} else Pair b ` greeting n)"
    "sn_host m = sn_host n" "sn_port m = sn_port n" by blast+
qed

text \<open>A name added at a node goes to all its peers, one added by a call goes no further.\<close>

lemma add_effect:
  assumes ok: "sn_ok n" and call: "addToGroup n g x = Inr (ev, m) \<or> RPCAddToGroup n g x = Inr (ev, m)"
  shows "sn_peers m = sn_peers n" and "sn_ok m" and "sn_host m = sn_host n" and "sn_port m = sn_port n"
    and "members m h = members n h \<union> {y. h = g \<and> y = x}"
proof -
  have room: "sint c < 2 ^ 31 - 1" if "count_of (sn_groups n) g x = Some c" for c
  proof (rule ccontr)
    assume "\<not> sint c < 2 ^ 31 - 1"
    from overflow_addToGroup [OF ok that this] call show False by auto
  qed
  have "sn_peers m = sn_peers n \<and> sn_ok m \<and> sn_host m = sn_host n \<and> sn_port m = sn_port n \<and>
      members m h = members n h \<union> {y. h = g \<and> y = x}"
  proof (cases "count_of (sn_groups n) g x")
    case None
    with ok call show ?thesis by (auto simp: group_eqs sn_ok_intros split: if_splits)
  next
    case (Some c)
    then have "x \<in> members n g" by (simp add: members_def)
    with Some room [OF Some] ok call show ?thesis by (auto simp: group_eqs sn_ok_intros split: if_splits)
  qed
  then show "sn_peers m = sn_peers n" "sn_ok m" "sn_host m = sn_host n" "sn_port m = sn_port n"
    "members m h = members n h \<union> {y. h = g \<and> y = x}" by blast+
qed

lemma addToGroup_sent:
  assumes ok: "sn_ok n" and call: "addToGroup n g x = Inr (ev, m)"
  shows "set (sent m ev) = (\<lambda>b. (b, AddToGroup g x)) ` peer_addrs n"
proof -
  obtain rest where "ev = map (\<lambda>c. Call c (AddToGroup g x)) (clients n) @ rest" "\<forall>c pc. Call c pc \<notin> set rest"
  proof (cases "count_of (sn_groups n) g x")
    case None
    have "\<forall>c pc. Call c pc \<notin> set (fire g (registered n g) x True)" by (auto simp: fire_def)
    with None ok call that show thesis by (auto simp: group_eqs)
  next
    case (Some c)
    then have "sint c < 2 ^ 31 - 1" using overflow_addToGroup [OF ok Some] call by auto
    with Some ok call that show thesis by (auto simp: group_eqs)
  qed
  then have "set (sent m ev) = {(b, pc). pc = AddToGroup g x \<and> (\<exists>c. (b, Some c) \<in> set (sn_peers n))}"
    using add_effect(1) [OF ok disjI1 [OF call]] in_clients by (auto simp: set_sent)
  moreover have "(\<exists>c. (b, Some c) \<in> set (sn_peers n)) \<longleftrightarrow> b \<in> peer_addrs n" for b
  proof -
    have "map_ok (sn_peers n)" "\<forall>e \<in> set (sn_peers n). snd e \<noteq> None" using ok by (simp_all add: sn_ok_def)
    then show ?thesis using smap.entries_find [of "sn_peers n" b] by (fastforce simp: peer_addrs_def)
  qed
  ultimately show ?thesis by auto
qed

lemma RPCAddToGroup_sent:
  assumes "sn_ok n" and "RPCAddToGroup n g x = Inr (ev, m)"
  shows "sent m ev = []"
proof (rule sent_none)
  show "\<forall>c pc. Call c pc \<notin> set ev"
  proof (cases "count_of (sn_groups n) g x")
    case None
    with assms show ?thesis by (auto simp: group_eqs fire_def)
  next
    case (Some c)
    then have "sint c < 2 ^ 31 - 1" using overflow_addToGroup [OF assms(1) Some] assms(2) by auto
    with Some assms show ?thesis by (auto simp: group_eqs)
  qed
qed

subsection \<open>The network refines peer discovery\<close>

definition sm_knows :: "smesh \<Rightarrow> (addr \<times> addr) set" where
  "sm_knows m = {(a, b). b \<in> peer_addrs (sm_node m a)}"

definition smesh_disc :: "smesh \<Rightarrow> addr disc" where
  "smesh_disc m = \<lparr>dk_knows = sm_knows m, dk_pending = {(a, b). (a, AddPeer (fst b) (snd b)) \<in> set (sm_pending m)},
     dk_asked = sm_asked m\<rparr>"

definition additions :: "(addr \<times> peer_call) list \<Rightarrow> bool" where
  "additions calls \<longleftrightarrow> (\<forall>e \<in> set calls. \<forall>g x. snd e \<noteq> RemoveFromGroup g x)"

lemma additions_simps [simp]:
  "additions []" "additions (e # l) \<longleftrightarrow> (\<forall>g x. snd e \<noteq> RemoveFromGroup g x) \<and> additions l"
  "additions (l @ l') \<longleftrightarrow> additions l \<and> additions l'"
  by (auto simp: additions_def)

definition nodes_ok :: "smesh \<Rightarrow> bool" where
  "nodes_ok m \<longleftrightarrow> (\<forall>a. sn_ok (sm_node m a) \<and> (sn_host (sm_node m a), sn_port (sm_node m a)) = a) \<and> additions (sm_pending m)"

lemma nodes_okD:
  assumes "nodes_ok m"
  shows "sn_ok (sm_node m a)" and "(sn_host (sm_node m a), sn_port (sm_node m a)) = a" and "additions (sm_pending m)"
  using assms unfolding nodes_ok_def by blast+

lemma nodes_ok_update:
  assumes "nodes_ok m" and "sm_node m' = (sm_node m)(a := n)" and "sn_ok n" and "(sn_host n, sn_port n) = a"
    and "additions (sm_pending m')"
  shows "nodes_ok m'"
  using assms unfolding nodes_ok_def by simp metis

lemma greeting_peers: "AddPeer h p \<in> greeting n \<longleftrightarrow> (h, p) = (sn_host n, sn_port n) \<or> (h, p) \<in> peer_addrs n"
  by (auto simp: greeting_def)

lemma knows_update:
  "sm_node m' = (sm_node m)(a := n) \<Longrightarrow> peer_addrs n = peer_addrs (sm_node m a) \<union> P \<Longrightarrow>
   sm_knows m' = sm_knows m \<union> Pair a ` P"
  by (auto simp: sm_knows_def split: if_splits)

text \<open>A node handles a call to add a peer, whether from the application or from a peer.\<close>

lemma join_refines:
  assumes ok: "nodes_ok m" and c: "c \<notin> set (clients (sm_node m a))"
    and call: "handle_call (\<lambda>_. Some c) (sm_node m a) (AddPeer (fst b) (snd b)) = Inr (ev, n)"
    and node: "sm_node m' = (sm_node m)(a := n)"
  shows "sm_knows m' = insert (a, b) (sm_knows m)"
    and "{(x, y). (x, AddPeer (fst y) (snd y)) \<in> set (sent n ev)} = Pair b ` announced (smesh_disc m) a b"
    and "additions (sent n ev)"
    and "sn_ok n" and "(sn_host n, sn_port n) = a"
    and "members n = members (sm_node m a)"
proof -
  note n = nodes_okD(1,2) [OF ok, of a]
  note eff = join_effect [OF n(1) c call] and more = handle_additions [OF n(1) call]
  have "peer_addrs n = peer_addrs (sm_node m a) \<union> {b}" using more(2) by (auto simp: prod_eq_iff)
  from knows_update [OF node this] show "sm_knows m' = insert (a, b) (sm_knows m)" by auto
  have "announced (smesh_disc m) a b = (if b \<in> peer_addrs (sm_node m a) then {} else insert a (peer_addrs (sm_node m a)))"
    by (auto simp: announced_def smesh_disc_def sm_knows_def)
  then show "{(x, y). (x, AddPeer (fst y) (snd y)) \<in> set (sent n ev)} = Pair b ` announced (smesh_disc m) a b"
    using n(2) unfolding eff(1) by (auto simp: greeting_peers image_iff)
  show "additions (sent n ev)" unfolding additions_def eff(1) by (auto simp: greeting_def)
  show "sn_ok n" "(sn_host n, sn_port n) = a" using eff n(2) by simp_all
  show "members n = members (sm_node m a)" using more(1) by (auto simp: fun_eq_iff)
qed

lemma add_refines:
  assumes ok: "nodes_ok m" and call: "addToGroup (sm_node m a) g x = Inr (ev, n) \<or> RPCAddToGroup (sm_node m a) g x = Inr (ev, n)"
    and node: "sm_node m' = (sm_node m)(a := n)"
  shows "sm_knows m' = sm_knows m" and "\<forall>(a, pc) \<in> set (sent n ev). \<exists>g x. pc = AddToGroup g x"
    and "sn_ok n" and "(sn_host n, sn_port n) = a" and "additions (sent n ev)"
proof -
  note n = nodes_okD(1,2) [OF ok, of a]
  note eff = add_effect [OF n(1) call]
  have "peer_addrs n = peer_addrs (sm_node m a) \<union> {}" using eff(1) by (simp add: peer_addrs_def)
  from knows_update [OF node this] show "sm_knows m' = sm_knows m" by simp
  show only: "\<forall>(a, pc) \<in> set (sent n ev). \<exists>g x. pc = AddToGroup g x"
    using call addToGroup_sent [OF n(1), of g x ev n] RPCAddToGroup_sent [OF n(1), of g x ev n] by fastforce
  then show "additions (sent n ev)" by (fastforce simp: additions_def)
  show "sn_ok n" "(sn_host n, sn_port n) = a" using eff n(2) by simp_all
qed

lemma smesh_step_refines:
  assumes "smesh_step A m m'" and ok: "nodes_ok m"
  shows "nodes_ok m' \<and> (smesh_disc m' = smesh_disc m \<or> disc_step A (smesh_disc m) (smesh_disc m'))"
  using assms(1)
proof cases
  case (ask a b c ev n)
  have node: "sm_node m' = (sm_node m)(a := n)" using ask(1) by simp
  note call = join_refines [OF ok ask(5,6) node]
  have "nodes_ok m'"
    using nodes_ok_update [OF ok node call(4,5)] nodes_okD(3) [OF ok] call(3) by (simp add: ask(1))
  moreover have "dk_pending (smesh_disc m') = dk_pending (smesh_disc m) \<union> Pair b ` announced (smesh_disc m) a b"
    unfolding call(2) [symmetric] by (auto simp: smesh_disc_def ask(1))
  then have "smesh_disc m' = \<lparr>dk_knows = insert (a, b) (dk_knows (smesh_disc m)),
        dk_pending = dk_pending (smesh_disc m) \<union> Pair b ` announced (smesh_disc m) a b,
        dk_asked = insert (a, b) (dk_asked (smesh_disc m))\<rparr>"
    using call(1) by (simp add: smesh_disc_def ask(1))
  then have "disc_step A (smesh_disc m) (smesh_disc m')" using disc_step.ask [OF ask(2-4)] by simp
  ultimately show ?thesis by blast
next
  case (add a g x ev n)
  have node: "sm_node m' = (sm_node m)(a := n)" using add(1) by simp
  note call = add_refines [OF ok disjI1 [OF add(3)] node]
  have "nodes_ok m'"
    using nodes_ok_update [OF ok node call(3,4)] nodes_okD(3) [OF ok] call(5) by (simp add: add(1))
  moreover have "smesh_disc m' = smesh_disc m" using call(1,2) by (auto simp: smesh_disc_def add(1))
  ultimately show ?thesis by blast
next
  case (deliver xs a pc ys c ev n)
  have node: "sm_node m' = (sm_node m)(a := n)" and asked: "sm_asked m' = sm_asked m" using deliver(1) by simp_all
  show ?thesis
  proof (cases pc)
    case (AddPeer h p)
    then have "handle_call (\<lambda>_. Some c) (sm_node m a) (AddPeer (fst (h, p)) (snd (h, p))) = Inr (ev, n)"
      using deliver(4) by simp
    note call = join_refines [OF ok deliver(3) this node]
    have "nodes_ok m'"
      using nodes_ok_update [OF ok node call(4,5)] nodes_okD(3) [OF ok] call(3) by (simp add: deliver(1,2))
    moreover have ab: "(a, (h, p)) \<in> dk_pending (smesh_disc m)" using deliver(2) AddPeer by (simp add: smesh_disc_def)
    moreover have "insert (a, (h, p)) (dk_pending (smesh_disc m')) =
        dk_pending (smesh_disc m) \<union> Pair (h, p) ` announced (smesh_disc m) a (h, p)"
      unfolding call(2) [symmetric] using deliver(2) AddPeer by (auto simp: smesh_disc_def deliver(1))
    from disc_step.deliver [OF ab this, of A] have "disc_step A (smesh_disc m) (smesh_disc m')"
      using call(1) asked by (simp add: smesh_disc_def)
    ultimately show ?thesis by blast
  next
    case (AddToGroup g x)
    then have "RPCAddToGroup (sm_node m a) g x = Inr (ev, n)" using deliver(4) by simp
    note call = add_refines [OF ok disjI2 [OF this] node]
    have "nodes_ok m'"
      using nodes_ok_update [OF ok node call(3,4)] nodes_okD(3) [OF ok] call(5) by (simp add: deliver(1,2))
    moreover have "smesh_disc m' = smesh_disc m"
      using call(1,2) AddToGroup deliver(2) by (auto simp: smesh_disc_def deliver(1))
    ultimately show ?thesis by blast
  next
    case (RemoveFromGroup g x)
    then show ?thesis using nodes_okD(3) [OF ok] deliver(2) by auto
  qed
qed

lemma smesh_refines: "smesh_reach A m \<Longrightarrow> nodes_ok m \<and> disc_reach A (smesh_disc m)"
proof (induction rule: smesh_reach.induct)
  case start
  have "smesh_disc smesh_start = disc_start"
    by (simp add: smesh_disc_def smesh_start_def sm_knows_def peer_addrs_def new_internal_def disc_start_def)
  then show ?case
    by (simp add: disc_reach.start nodes_ok_def smesh_start_def) (simp add: new_internal_def)
next
  case (step m m')
  with smesh_step_refines show ?case by (metis disc_reach.step)
qed

subsection \<open>The directory spreads with the peers\<close>

text \<open>Where a name is listed, where it is about to be, and the invariant of both.\<close>

definition listed :: "smesh \<Rightarrow> (addr \<times> string \<times> string) set" where
  "listed m = {(a, g, x). x \<in> members (sm_node m a) g}"

definition arriving :: "smesh \<Rightarrow> (addr \<times> string \<times> string) set" where
  "arriving m = {(a, g, x). (a, AddToGroup g x) \<in> set (sm_pending m)}"

definition sources :: "smesh \<Rightarrow> addr \<Rightarrow> addr set" where
  "sources m a = insert a {b. (a, b) \<in> links (smesh_disc m)}"

definition dir_inv :: "smesh \<Rightarrow> bool" where
  "dir_inv m \<longleftrightarrow> sm_added m \<subseteq> listed m \<and>
     (\<forall>a b e. (a, b) \<in> sm_knows m \<longrightarrow> (a, e) \<in> sm_added m \<longrightarrow> (b, e) \<in> listed m \<union> arriving m) \<and>
     (\<forall>a e. (a, e) \<in> listed m \<union> arriving m \<longrightarrow> (\<exists>b \<in> sources m a. (b, e) \<in> sm_added m))"

lemma sources_linked:
  "(a, b) \<in> links (smesh_disc m) \<Longrightarrow> sources m a \<subseteq> sources m b"
  unfolding sources_def by (auto intro: links_trans links_sym)

lemma sources_mono: "sm_asked m \<subseteq> sm_asked m' \<Longrightarrow> sources m a \<subseteq> sources m' a"
  using links_mono [of "smesh_disc m" "smesh_disc m'"] by (auto simp: sources_def smesh_disc_def)

lemma dir_inv_join:
  assumes inv: "dir_inv m" and ab: "(a, b) \<in> links (smesh_disc m')"
    and kn: "sm_knows m' = insert (a, b) (sm_knows m)" and li: "listed m' = listed m" and ad: "sm_added m' = sm_added m"
    and ar: "arriving m' = arriving m \<union> (if (a, b) \<in> sm_knows m then {} else Pair b ` (listed m `` {a}))"
    and asked: "sm_asked m \<subseteq> sm_asked m'"
  shows "dir_inv m'"
proof -
  have source: "\<exists>b \<in> sources m' x. (b, e) \<in> sm_added m'" if "(x, e) \<in> listed m \<union> arriving m" for x e
    using that inv sources_mono [OF asked, of x] unfolding dir_inv_def ad by blast
  have "\<exists>y \<in> sources m' x. (y, e) \<in> sm_added m'" if "(x, e) \<in> listed m' \<union> arriving m'" for x e
  proof (cases "(x, e) \<in> listed m \<union> arriving m")
    case False
    then have "x = b" "(a, e) \<in> listed m" using that unfolding li ar by (auto split: if_splits)
    then show ?thesis using source [of a e] sources_linked [OF ab] by blast
  qed (rule source)
  moreover have "(y, e) \<in> listed m' \<union> arriving m'" if "(x, y) \<in> sm_knows m'" "(x, e) \<in> sm_added m'" for x y e
  proof (cases "(x, y) \<in> sm_knows m")
    case True
    then show ?thesis using that(2) inv unfolding dir_inv_def li ar ad by blast
  next
    case False
    then have "x = a" "y = b" "(a, b) \<notin> sm_knows m" using that(1) unfolding kn by blast+
    moreover have "(x, e) \<in> listed m" using that(2) inv unfolding dir_inv_def ad by blast
    ultimately show ?thesis unfolding ar by simp
  qed
  moreover have "sm_added m' \<subseteq> listed m'" using inv unfolding dir_inv_def li ad by blast
  ultimately show ?thesis unfolding dir_inv_def by blast
qed

lemma dir_inv_add:
  assumes inv: "dir_inv m" and known: "sm_knows m \<subseteq> links (smesh_disc m)"
    and kn: "sm_knows m' = sm_knows m" and li: "listed m' = insert (a, e) (listed m)" and ad: "sm_added m' = insert (a, e) (sm_added m)"
    and ar: "arriving m' = arriving m \<union> {(b, e) |b. (a, b) \<in> sm_knows m}" and asked: "sm_asked m' = sm_asked m"
  shows "dir_inv m'"
proof -
  have "sources m' x = sources m x" for x using asked by (simp add: sources_def links_def smesh_disc_def)
  moreover have "a \<in> sources m a" "(a, b) \<in> sm_knows m \<Longrightarrow> a \<in> sources m b" for b
    using known by (auto simp: sources_def intro: links_sym)
  ultimately have "\<exists>b \<in> sources m' x. (b, y) \<in> sm_added m'" if "(x, y) \<in> listed m' \<union> arriving m'" for x y
    using that inv unfolding dir_inv_def li ar ad by blast
  moreover have "(z, y) \<in> listed m' \<union> arriving m'" if "(x, z) \<in> sm_knows m'" "(x, y) \<in> sm_added m'" for x y z
    using that inv unfolding dir_inv_def kn li ar ad by blast
  moreover have "sm_added m' \<subseteq> listed m'" using inv unfolding dir_inv_def li ad by blast
  ultimately show ?thesis unfolding dir_inv_def by blast
qed

lemma dir_inv_deliver:
  assumes inv: "dir_inv m" and arr: "(a, e) \<in> arriving m"
    and kn: "sm_knows m' = sm_knows m" and li: "listed m' = insert (a, e) (listed m)" and ad: "sm_added m' = sm_added m"
    and ar: "insert (a, e) (arriving m') = arriving m" and asked: "sm_asked m' = sm_asked m"
  shows "dir_inv m'"
proof -
  have "sources m' x = sources m x" for x using asked by (simp add: sources_def links_def smesh_disc_def)
  moreover have "listed m' \<union> arriving m' = listed m \<union> arriving m" unfolding li ar [symmetric] by blast
  ultimately show ?thesis using inv unfolding dir_inv_def kn ad li by auto
qed

lemma listed_update:
  "sm_node m' = (sm_node m)(a := n) \<Longrightarrow> (\<And>g. members n g = members (sm_node m a) g \<union> D g) \<Longrightarrow>
   listed m' = listed m \<union> {(a, g, x) |g x. x \<in> D g}"
  by (auto simp: listed_def split: if_splits)

lemma join_arriving:
  assumes "nodes_ok m" and "c \<notin> set (clients (sm_node m a))"
    and "handle_call (\<lambda>_. Some c) (sm_node m a) (AddPeer (fst b) (snd b)) = Inr (ev, n)"
  shows "{(d, g, x). (d, AddToGroup g x) \<in> set (sent n ev)} = (if (a, b) \<in> sm_knows m then {} else Pair b ` (listed m `` {a}))"
  unfolding join_effect(1) [OF nodes_okD(1) [OF assms(1)] assms(2,3)]
  by (auto simp: sm_knows_def listed_def greeting_def)

lemma smesh_step_dir:
  assumes "smesh_step A m m'" and ok: "nodes_ok m" and disc: "disc_inv A (smesh_disc m)" and inv: "dir_inv m"
  shows "dir_inv m'"
  using assms(1)
proof cases
  case (ask a b c ev n)
  have node: "sm_node m' = (sm_node m)(a := n)" using ask(1) by simp
  note call = join_refines [OF ok ask(5,6) node]
  have "listed m' = listed m" using call(6) by (auto simp: listed_def ask(1) split: if_splits)
  moreover have "arriving m' = arriving m \<union> (if (a, b) \<in> sm_knows m then {} else Pair b ` (listed m `` {a}))"
    unfolding join_arriving [OF ok ask(5,6), symmetric] by (auto simp: arriving_def ask(1))
  moreover have "(a, b) \<in> links (smesh_disc m')" by (rule links_asked) (simp add: smesh_disc_def ask(1))
  ultimately show ?thesis using call(1) by (intro dir_inv_join [OF inv, of a b]) (auto simp: ask(1))
next
  case (add a g x ev n)
  have node: "sm_node m' = (sm_node m)(a := n)" using add(1) by simp
  note n = nodes_okD(1) [OF ok, of a]
  note call = add_refines [OF ok disjI1 [OF add(3)] node] and mem = add_effect(5) [OF n disjI1 [OF add(3)]]
  have "listed m' = insert (a, g, x) (listed m)" using listed_update [OF node mem] by auto
  moreover have "arriving m' = arriving m \<union> {(b, (g, x)) |b. (a, b) \<in> sm_knows m}"
    using addToGroup_sent [OF n add(3)] by (auto simp: arriving_def sm_knows_def add(1))
  moreover have "sm_knows m \<subseteq> links (smesh_disc m)"
    using disc by (auto simp: disc_inv_def told_def smesh_disc_def)
  ultimately show ?thesis using call(1) by (intro dir_inv_add [OF inv, of m' a "(g, x)"]) (auto simp: add(1))
next
  case (deliver xs a pc ys c ev n)
  have node: "sm_node m' = (sm_node m)(a := n)" using deliver(1) by simp
  note n = nodes_okD(1) [OF ok, of a]
  show ?thesis
  proof (cases pc)
    case (AddPeer h p)
    then have h: "handle_call (\<lambda>_. Some c) (sm_node m a) (AddPeer (fst (h, p)) (snd (h, p))) = Inr (ev, n)"
      using deliver(4) by simp
    note call = join_refines [OF ok deliver(3) h node]
    have "listed m' = listed m" using call(6) by (auto simp: listed_def deliver(1) split: if_splits)
    moreover have "arriving m' = arriving m \<union> (if (a, (h, p)) \<in> sm_knows m then {} else Pair (h, p) ` (listed m `` {a}))"
      unfolding join_arriving [OF ok deliver(3) h, symmetric] using AddPeer by (auto simp: arriving_def deliver(1,2))
    moreover have "(a, (h, p)) \<in> links (smesh_disc m)"
      using disc deliver(2) AddPeer by (auto simp: disc_inv_def told_def smesh_disc_def)
    then have "(a, (h, p)) \<in> links (smesh_disc m')" by (simp add: links_def smesh_disc_def deliver(1))
    ultimately show ?thesis using call(1) by (intro dir_inv_join [OF inv, of a "(h, p)"]) (auto simp: deliver(1))
  next
    case (AddToGroup g x)
    then have r: "RPCAddToGroup (sm_node m a) g x = Inr (ev, n)" using deliver(4) by simp
    note call = add_refines [OF ok disjI2 [OF r] node] and mem = add_effect(5) [OF n disjI2 [OF r]]
    have "listed m' = insert (a, g, x) (listed m)" using listed_update [OF node mem] by auto
    moreover have "(a, (g, x)) \<in> arriving m" using deliver(2) AddToGroup by (simp add: arriving_def)
    moreover have "insert (a, (g, x)) (arriving m') = arriving m"
      using RPCAddToGroup_sent [OF n r] AddToGroup by (auto simp: arriving_def deliver(1,2))
    ultimately show ?thesis using call(1) by (intro dir_inv_deliver [OF inv, of a "(g, x)"]) (auto simp: deliver(1))
  next
    case (RemoveFromGroup g x)
    then show ?thesis using nodes_okD(3) [OF ok] deliver(2) by auto
  qed
qed

lemma smesh_reach_dir: "smesh_reach A m \<Longrightarrow> dir_inv m"
proof (induction rule: smesh_reach.induct)
  case start
  show ?case by (simp add: dir_inv_def smesh_start_def listed_def arriving_def members_def new_internal_def count_of_def)
next
  case (step m m')
  then show ?case using smesh_step_dir smesh_refines disc_reach_inv by blast
qed

subsection \<open>Properties\<close>

text \<open>Handling calls ends: a call adds a peer that was not known, or it is only used up.\<close>

inductive smesh_deliver :: "smesh \<Rightarrow> smesh \<Rightarrow> bool" where
  "sm_pending m = xs @ (a, pc) # ys \<Longrightarrow> c \<notin> set (clients (sm_node m a)) \<Longrightarrow>
   handle_call (\<lambda>_. Some c) (sm_node m a) pc = Inr (ev, n) \<Longrightarrow>
   smesh_deliver m (m\<lparr>sm_node := (sm_node m)(a := n), sm_pending := xs @ ys @ sent n ev\<rparr>)"

lemma deliver_is_step: "smesh_deliver m m' \<Longrightarrow> smesh_step A m m'"
  by (induction rule: smesh_deliver.induct) (rule smesh_step.deliver)

definition smesh_order :: "addr set \<Rightarrow> (smesh \<times> smesh) set" where
  "smesh_order A = measures [\<lambda>m. card (A \<times> A - sm_knows m), \<lambda>m. length (sm_pending m)]"

lemma smesh_deliver_decreases:
  assumes "finite A" and "smesh_reach A m" and "smesh_deliver m m'"
  shows "(m', m) \<in> smesh_order A"
  using assms(3)
proof cases
  case (1 xs a pc ys c ev n)
  have ok: "nodes_ok m" and disc: "disc_inv A (smesh_disc m)" using smesh_refines [OF assms(2)] disc_reach_inv by blast+
  have node: "sm_node m' = (sm_node m)(a := n)" using 1(1) by simp
  note ok1 = nodes_okD(1) [OF ok, of a]
  have used: "(m', m) \<in> smesh_order A" if "sm_knows m' = sm_knows m" "sent n ev = []"
    using that 1(1,2) by (simp add: smesh_order_def)
  show ?thesis
  proof (cases pc)
    case (AddPeer h p)
    then have h: "handle_call (\<lambda>_. Some c) (sm_node m a) (AddPeer (fst (h, p)) (snd (h, p))) = Inr (ev, n)"
      using 1(4) by simp
    note call = join_refines [OF ok 1(3) h node]
    show ?thesis
    proof (cases "(a, (h, p)) \<in> sm_knows m")
      case True
      then have "set (sent n ev) = {}" using join_effect(1) [OF ok1 1(3) h] by (simp add: sm_knows_def)
      with True show ?thesis using used call(1) by (simp add: insert_absorb)
    next
      case False
      moreover have "(a, (h, p)) \<in> dk_pending (smesh_disc m)" using 1(2) AddPeer by (simp add: smesh_disc_def)
      ultimately show ?thesis
        using disc_decreases [OF assms(1) disc, of a "(h, p)"] call(1) by (simp add: smesh_order_def smesh_disc_def)
    qed
  next
    case (AddToGroup g x)
    then have r: "RPCAddToGroup (sm_node m a) g x = Inr (ev, n)" using 1(4) by simp
    show ?thesis using used add_refines(1) [OF ok disjI2 [OF r] node] RPCAddToGroup_sent [OF ok1 r] by blast
  next
    case (RemoveFromGroup g x)
    then show ?thesis using nodes_okD(3) [OF ok] 1(2) by auto
  qed
qed

lemma spreading_terminates:
  assumes "finite A"
  shows "wf {(m', m). smesh_reach A m \<and> smesh_deliver m m'}"
proof (rule wf_subset)
  show "wf (smesh_order A)" by (simp add: smesh_order_def)
  show "{(m', m). smesh_reach A m \<and> smesh_deliver m m'} \<subseteq> smesh_order A"
    using smesh_deliver_decreases [OF assms] by auto
qed

text \<open>Two nodes: one lists a name, is asked to add the other, and three calls follow.\<close>

definition sn_a :: service_node where
  "sn_a = (new_internal ''h'' 1)\<lparr>sn_groups := [(''g'', [(''x'', 1)])], sn_callbacks := [(''g'', [])]\<rparr>"

definition sn_b :: service_node where
  "sn_b = (new_internal ''h'' 2)\<lparr>sn_peers := [((''h'', 1), Some 6)]\<rparr>"

definition example_smesh :: smesh where
  "example_smesh = \<lparr>sm_node = (sm_node smesh_start)((''h'', 1) := sn_a\<lparr>sn_peers := [((''h'', 2), Some 5)]\<rparr>,
       (''h'', 2) := sn_b\<lparr>sn_groups := [(''g'', [(''x'', 1)])]\<rparr>),
     sm_pending = [], sm_asked = {((''h'', 1), (''h'', 2))}, sm_added = {((''h'', 1), ''g'', ''x'')}\<rparr>"

lemma smesh_stepI: "smesh_reach A m \<Longrightarrow> smesh_step A m t \<Longrightarrow> t = m' \<Longrightarrow> smesh_reach A m'"
  using smesh_reach.step by blast

abbreviation sn_a2 :: service_node where
  "sn_a2 \<equiv> sn_a\<lparr>sn_peers := [((''h'', 2), Some 5)]\<rparr>"

abbreviation sn_b2 :: service_node where
  "sn_b2 \<equiv> sn_b\<lparr>sn_groups := [(''g'', [(''x'', 1)])]\<rparr>"

abbreviation greet_b :: "sn_event list" where
  "greet_b \<equiv> [SetDisconnectCallback 5 (Some (''h'', 2)), Start 5, Call 5 (AddPeer ''h'' 1), Call 5 (AddToGroup ''g'' ''x'')]"

abbreviation greet_a :: "sn_event list" where
  "greet_a \<equiv> [SetDisconnectCallback 6 (Some (''h'', 1)), Start 6, Call 6 (AddPeer ''h'' 2)]"

lemma example_calls:
  "addToGroup (new_internal ''h'' 1) ''g'' ''x'' = Inr ([], sn_a)"
  "handle_call (\<lambda>_. Some 5) sn_a (AddPeer ''h'' 2) = Inr (greet_b, sn_a2)"
  "handle_call (\<lambda>_. Some 6) (new_internal ''h'' 2) (AddPeer ''h'' 1) = Inr (greet_a, sn_b)"
  "handle_call (\<lambda>_. Some 7) sn_b (AddToGroup ''g'' ''x'') = Inr ([], sn_b2)"
  "handle_call (\<lambda>_. Some 8) sn_a2 (AddPeer ''h'' 2) = Inr ([], sn_a2)"
  by code_simp+

lemma example_sent:
  "sent sn_a [] = []" "sent sn_a2 greet_b = [((''h'', 2), AddPeer ''h'' 1), ((''h'', 2), AddToGroup ''g'' ''x'')]"
  "sent sn_b greet_a = [((''h'', 1), AddPeer ''h'' 2)]" "sent sn_b2 [] = []" "sent sn_a2 [] = []"
  by code_simp+

lemma example_clients: "clients (new_internal h p) = []" "clients sn_a = []" "clients sn_a2 = [5]" "clients sn_b = [6]"
  by (simp_all add: clients_def new_internal_def sn_a_def sn_b_def)

lemma example_smesh_reach: "smesh_reach {(''h'', 1), (''h'', 2)} example_smesh"
proof -
  let ?A = "{(''h'', 1), (''h'', 2)} :: addr set" and ?a = "(''h'', 1) :: addr" and ?b = "(''h'', 2) :: addr"
  note r = example_calls and s = example_sent and c = example_clients
  define m1 where "m1 = smesh_start\<lparr>sm_node := (sm_node smesh_start)(?a := sn_a), sm_added := {(?a, ''g'', ''x'')}\<rparr>"
  define m2 where "m2 = m1\<lparr>sm_node := (sm_node smesh_start)(?a := sn_a2), sm_asked := {(?a, ?b)},
      sm_pending := [(?b, AddPeer ''h'' 1), (?b, AddToGroup ''g'' ''x'')]\<rparr>"
  define m3 where "m3 = m2\<lparr>sm_node := (sm_node smesh_start)(?a := sn_a2, ?b := sn_b),
      sm_pending := [(?b, AddToGroup ''g'' ''x''), (?a, AddPeer ''h'' 2)]\<rparr>"
  define m4 where "m4 = example_smesh\<lparr>sm_pending := [(?a, AddPeer ''h'' 2)]\<rparr>"
  note defs = m1_def m2_def m3_def m4_def smesh_start_def example_smesh_def
  have 1: "smesh_reach ?A m1"
    by (rule smesh_stepI [OF smesh_reach.start smesh_step.add [where a = ?a and g = "''g''" and x = "''x''" and ev = "[]" and n = sn_a]])
       (simp_all add: defs r s)
  have 2: "smesh_reach ?A m2"
    by (rule smesh_stepI [OF 1 smesh_step.ask [where a = ?a and b = ?b and c = 5 and ev = greet_b and n = sn_a2]])
       (use r(2) in \<open>simp_all add: defs s c del: handle_call.simps\<close>)
  have 3: "smesh_reach ?A m3"
    by (rule smesh_stepI [OF 2 smesh_step.deliver [where xs = "[]" and a = ?b and c = 6 and ev = greet_a and n = sn_b]])
       (use r(3) in \<open>simp_all add: defs s c del: handle_call.simps\<close>)
  have 4: "smesh_reach ?A m4"
    by (rule smesh_stepI [OF 3 smesh_step.deliver [where xs = "[]" and a = ?b and c = 7 and ev = "[]"
          and n = sn_b2]]) (use r(4) in \<open>simp_all add: defs s c del: handle_call.simps\<close>)
  show ?thesis
    by (rule smesh_stepI [OF 4 smesh_step.deliver [where xs = "[]" and a = ?a and c = 8 and ev = "[]" and n = sn_a2]])
       (use r(5) in \<open>simp_all add: defs s c fun_upd_twist del: handle_call.simps\<close>)
qed

text \<open>
  C8. The directory converges: once all calls are handled, in whatever order, every node lists under
  each group exactly the names that the application added there at the node itself or at a node that
  it connected with this one, directly or through others, before or after they were connected.
\<close>

theorem directory_converges:
  assumes "smesh_reach A m" and "sm_pending m = []"
  shows "members (sm_node m a) g =
    {x. \<exists>b. (b = a \<or> (a, b) \<in> (sm_asked m \<union> (sm_asked m)\<inverse>)\<^sup>+) \<and> (b, g, x) \<in> sm_added m}"
proof -
  note inv = smesh_reach_dir [OF assms(1)]
  have disc: "disc_inv A (smesh_disc m)" using smesh_refines [OF assms(1)] disc_reach_inv by blast
  have none: "arriving m = {}" "dk_pending (smesh_disc m) = {}" using assms(2) by (simp_all add: arriving_def smesh_disc_def)
  have "(a, g, x) \<in> listed m \<longleftrightarrow> (\<exists>b \<in> sources m a. (b, g, x) \<in> sm_added m)" for x
  proof
    show "\<exists>b \<in> sources m a. (b, g, x) \<in> sm_added m" if "(a, g, x) \<in> listed m" using that inv unfolding dir_inv_def by blast
    assume "\<exists>b \<in> sources m a. (b, g, x) \<in> sm_added m"
    then obtain b where b: "b = a \<or> (a, b) \<in> links (smesh_disc m)" "(b, g, x) \<in> sm_added m" unfolding sources_def by blast
    show "(a, g, x) \<in> listed m"
    proof (cases "b = a")
      case True
      then show ?thesis using b(2) inv unfolding dir_inv_def by blast
    next
      case False
      then have "(b, a) \<in> sm_knows m"
        using b(1) links_sym disc_quiet [OF disc none(2) False] by (simp add: smesh_disc_def)
      then show ?thesis using b(2) inv none(1) unfolding dir_inv_def by blast
    qed
  qed
  then have "x \<in> members (sm_node m a) g \<longleftrightarrow> (\<exists>b \<in> sources m a. (b, g, x) \<in> sm_added m)" for x by (simp add: listed_def)
  moreover have "links (smesh_disc m) = (sm_asked m \<union> (sm_asked m)\<inverse>)\<^sup>+" by (simp add: links_def smesh_disc_def)
  ultimately show ?thesis unfolding sources_def by blast
qed

theorem directory_converges_witness: "''x'' \<in> members (sm_node example_smesh (''h'', 2)) ''g''"
proof -
  have "sm_pending example_smesh = []" "sm_asked example_smesh = {((''h'', 1), (''h'', 2))}"
    "sm_added example_smesh = {((''h'', 1), ''g'', ''x'')}" by (simp_all add: example_smesh_def)
  moreover have "((''h'', 2), (''h'', 1)) \<in> ({((''h'', 1), (''h'', 2))} \<union> {((''h'', 1), (''h'', 2))}\<inverse>)\<^sup>+" by blast
  ultimately show ?thesis using directory_converges [OF example_smesh_reach, of "(''h'', 2)" "''g''"] by simp
qed

end
