(* ===== verification/Rpc.thy ===== *)
theory Rpc
  imports Std_Map
begin

section \<open>Remote procedure calls (\<open>rpc/rpc.h\<close>, \<open>rpc/rpc.cc\<close>)\<close>

text \<open>
  \<open>RPCClient\<close> numbers its requests, keeps one response callback per pending request and writes
  packed requests to its socket; \<open>RPCServer\<close> keeps a table of functions, and each of its
  \<open>Connection\<close>s unpacks requests, runs the function on a worker thread and writes the packed
  result when the function's \<open>Future\<close> is set.

  The msgpack encoding is the argument \<open>C\<close>; sockets, the event manager and futures belong to
  another library, so what an operation asks of them (write these bytes, enqueue this task, set
  this future) is an event it emits. A future, a registered function and a callback are known by
  number. The template families (\<open>call\<close>, \<open>registerFunction\<close>, \<open>serializeArgs\<close>,
  \<open>deserializeArgs\<close>) take their arguments as a list, of any length the templates allow.
\<close>

record 'v codec =
  pack_args :: "'v list \<Rightarrow> bytes"
  unpack_args :: "nat \<Rightarrow> bytes \<Rightarrow> 'v list option" \<comment> \<open>\<open>None\<close>: no conversion to a tuple of that length\<close>
  pack_val :: "'v \<Rightarrow> bytes"
  unpack_val :: "bytes \<Rightarrow> 'v option"
  pack_req :: "u64 \<times> string \<times> bytes \<Rightarrow> bytes"
  next_req :: "bytes \<Rightarrow> ((u64 \<times> string \<times> bytes) option \<times> bytes) option"
  pack_resp :: "u64 \<times> bytes \<Rightarrow> bytes"
  next_resp :: "bytes \<Rightarrow> ((u64 \<times> bytes) option \<times> bytes) option"
  pac_room :: "nat \<Rightarrow> bool" \<comment> \<open>whether \<open>buffer_capacity()\<close> suffices after \<open>reserve_buffer(n)\<close>\<close>

type_synonym future = nat
type_synonym func = nat

text \<open>A future is set to a value the peer sent or, when the call is aborted, to \<open>A()\<close>.\<close>

datatype 'v outcome = Got 'v | Aborted

datatype 'v rpc_event =
    SetAccept bool
  | SetReceive bool \<comment> \<open>\<open>setReceiveCallback\<close>, to a handler or to null\<close>
  | SetDisconnect bool
  | SocketStart
  | SocketDisconnect
  | Write bytes
  | EnqueueResponse future bytes \<comment> \<open>run the response callback on a worker\<close>
  | EnqueueCall u64 "func \<times> nat" bytes \<comment> \<open>run \<open>deferredRPCCall\<close> on a worker\<close>
  | EnqueueDisconnect
  | FutureSet future "'v outcome"
  | RunCallback nat

subsection \<open>Arguments and results\<close>

definition serializeArgs :: "'v codec \<Rightarrow> u64 \<Rightarrow> string \<Rightarrow> 'v list \<Rightarrow> bytes" where
  "serializeArgs C rid name as = pack_req C (rid, name, pack_args C as)"

text \<open>
  The result is the call the wrapper makes: the function and the arguments it got. The version
  for functions without parameters does not look at the bytes.
\<close>

definition deserializeArgs :: "'v codec \<Rightarrow> (func \<times> nat) \<Rightarrow> bytes \<Rightarrow> (func \<times> 'v list) res" where
  "deserializeArgs C f args =
     (if snd f = 0 then Inr (fst f, [])
      else case unpack_args C (snd f) args of
             None \<Rightarrow> Inl UncaughtException
           | Some as \<Rightarrow> Inr (fst f, as))"

definition serializeFuture :: "'v codec \<Rightarrow> 'v \<Rightarrow> bytes" where
  "serializeFuture C v = pack_val C v"

definition deserializeFuture :: "'v codec \<Rightarrow> future \<Rightarrow> bytes option \<Rightarrow> 'v rpc_event res" where
  "deserializeFuture C dst src =
     (case src of
        None \<Rightarrow> Inr (FutureSet dst Aborted)
      | Some bs \<Rightarrow> (case unpack_val C bs of
          None \<Rightarrow> Inl UncaughtException
        | Some v \<Rightarrow> Inr (FutureSet dst (Got v))))"

subsection \<open>The client\<close>

record rpc_client =
  cl_disconnectCallback :: "nat option"
  cl_pac :: bytes
  cl_reqId :: u64
  cl_respCallbacks :: "(u64, future) smap"

definition new_client :: rpc_client where
  "new_client = \<lparr>cl_disconnectCallback = None, cl_pac = [], cl_reqId = 0, cl_respCallbacks = []\<rparr>"

definition cl_start :: "rpc_client \<Rightarrow> 'v rpc_event list" where
  "cl_start cl = [SetReceive True, SetDisconnect True, SocketStart]"

text \<open>\<open>ret\<close> is the future that \<open>call\<close> makes and returns.\<close>

definition cl_call ::
  "'v codec \<Rightarrow> rpc_client \<Rightarrow> future \<Rightarrow> string \<Rightarrow> 'v list \<Rightarrow> 'v rpc_event list \<times> rpc_client" where
  "cl_call C cl ret name as =
     (let cl = cl\<lparr>cl_respCallbacks := map_store (cl_reqId cl) ret (cl_respCallbacks cl)\<rparr>;
          rid = cl_reqId cl;
          cl = cl\<lparr>cl_reqId := rid + 1\<rparr>
      in ([Write (serializeArgs C rid name as)], cl))"

text \<open>The body of the receive loop for one response.\<close>

definition cl_response ::
  "'v rpc_event list \<times> rpc_client \<Rightarrow> u64 \<times> bytes \<Rightarrow> 'v rpc_event list \<times> rpc_client" where
  "cl_response s req =
     (let (ev, cl) = s; (rid, raw) = req in
      case map_of (cl_respCallbacks cl) rid of
        Some cb \<Rightarrow> (ev @ [EnqueueResponse cb raw], cl\<lparr>cl_respCallbacks := map_erase rid (cl_respCallbacks cl)\<rparr>)
      | None \<Rightarrow> (ev, cl))"

definition cl_onReceive :: "'v codec \<Rightarrow> rpc_client \<Rightarrow> bytes \<Rightarrow> ('v rpc_event list \<times> rpc_client) res" where
  "cl_onReceive C cl buf =
     (if buf \<noteq> [] \<and> \<not> pac_room C (length buf) then Inr ([], cl)
      else let pac = cl_pac cl @ buf in
        rbind (pump (next_resp C) cl_response (length pac) ([], cl) pac) (\<lambda>r.
          Inr (fst (fst r), snd (fst r)\<lparr>cl_pac := snd r\<rparr>)))"

definition cl_disconnect :: "'v codec \<Rightarrow> rpc_client \<Rightarrow> ('v rpc_event list \<times> rpc_client) res" where
  "cl_disconnect C cl =
     rbind (rfold (\<lambda>ev i. rbind (deserializeFuture C (snd i) None) (\<lambda>e. Inr (ev @ [e])))
              [SetReceive False, SetDisconnect False, SocketDisconnect] (cl_respCallbacks cl))
       (\<lambda>ev. Inr (ev, cl\<lparr>cl_respCallbacks := []\<rparr>))"

definition cl_setDisconnectCallback :: "rpc_client \<Rightarrow> nat option \<Rightarrow> rpc_client" where
  "cl_setDisconnectCallback cl cb = cl\<lparr>cl_disconnectCallback := cb\<rparr>"

definition cl_onDisconnect :: "rpc_client \<Rightarrow> 'v rpc_event list" where
  "cl_onDisconnect cl = (case cl_disconnectCallback cl of None \<Rightarrow> [] | Some cb \<Rightarrow> [RunCallback cb])"

definition destroy_client :: "'v codec \<Rightarrow> rpc_client \<Rightarrow> ('v rpc_event list \<times> rpc_client) res" where
  "destroy_client C cl = cl_disconnect C (cl_setDisconnectCallback cl None)"

subsection \<open>The server\<close>

text \<open>
  A registered function is its number and the number of its parameters. The table is shared by the
  server and all its connections.
\<close>

type_synonym funcs = "(string, func \<times> nat) smap"

record rpc_server =
  sv_funcs :: funcs
  sv_connections :: "nat set"
  sv_acceptCallback :: "nat option"

record rpc_conn =
  co_pac :: bytes
  co_disconnectCallback :: "nat option"

definition new_server :: rpc_server where
  "new_server = \<lparr>sv_funcs = [], sv_connections = {}, sv_acceptCallback = None\<rparr>"

definition registerFunction :: "rpc_server \<Rightarrow> string \<Rightarrow> func \<times> nat \<Rightarrow> rpc_server" where
  "registerFunction sv name f = sv\<lparr>sv_funcs := map_store name f (sv_funcs sv)\<rparr>"

definition sv_start :: "'v rpc_event list" where
  "sv_start = [SetAccept True]"

text \<open>
  The connections the server holds are destroyed, and a connection's destructor disconnects it:
  the first component is the set of connections that are disconnected by \<open>co_disconnect\<close>.
\<close>

definition setAcceptCallback :: "rpc_server \<Rightarrow> nat option \<Rightarrow> nat set \<times> rpc_server" where
  "setAcceptCallback sv cb = (sv_connections sv, sv\<lparr>sv_acceptCallback := cb, sv_connections := {}\<rparr>)"

definition destroy_server :: "rpc_server \<Rightarrow> 'v rpc_event list \<times> nat set" where
  "destroy_server sv = ([SetAccept False], sv_connections sv)"

definition new_conn :: rpc_conn where
  "new_conn = \<lparr>co_pac = [], co_disconnectCallback = None\<rparr>"

definition co_start :: "'v rpc_event list" where
  "co_start = [SetReceive True, SetDisconnect True, SocketStart]"

text \<open>\<open>c\<close> is the connection object made for the accepted socket.\<close>

definition onAccept :: "rpc_server \<Rightarrow> nat \<Rightarrow> 'v rpc_event list \<times> rpc_server" where
  "onAccept sv c =
     (case sv_acceptCallback sv of
        Some cb \<Rightarrow> ([RunCallback cb], sv)
      | None \<Rightarrow> (co_start, sv\<lparr>sv_connections := insert c (sv_connections sv)\<rparr>))"

definition co_disconnect :: "'v rpc_event list" where
  "co_disconnect = [SetReceive False, SetDisconnect False, SocketDisconnect]"

definition responseCallback :: "'v codec \<Rightarrow> u64 \<Rightarrow> bytes \<Rightarrow> 'v rpc_event list" where
  "responseCallback C rid obj = [Write (pack_resp C (rid, obj))]"

definition deferredRPCCall :: "'v codec \<Rightarrow> func \<times> nat \<Rightarrow> bytes \<Rightarrow> (func \<times> 'v list) res" where
  "deferredRPCCall C f args = deserializeArgs C f args"

text \<open>The body of the receive loop for one request: \<open>find\<close>, then \<open>at\<close>, in the function table.\<close>

definition co_request ::
  "funcs \<Rightarrow> 'v rpc_event list \<Rightarrow> u64 \<times> string \<times> bytes \<Rightarrow> 'v rpc_event list" where
  "co_request funcs ev req =
     (let (rid, name, raw) = req in
      case map_of funcs name of
        Some f \<Rightarrow> ev @ [EnqueueCall rid f raw]
      | None \<Rightarrow> ev @ [EnqueueDisconnect])"

definition co_onReceive ::
  "'v codec \<Rightarrow> funcs \<Rightarrow> rpc_conn \<Rightarrow> bytes \<Rightarrow> ('v rpc_event list \<times> rpc_conn) res" where
  "co_onReceive C funcs co buf =
     (if buf \<noteq> [] \<and> \<not> pac_room C (length buf) then Inr ([], co)
      else let pac = co_pac co @ buf in
        rbind (pump (next_req C) (co_request funcs) (length pac) [] pac) (\<lambda>r.
          Inr (fst r, co\<lparr>co_pac := snd r\<rparr>)))"

definition co_setDisconnectCallback :: "rpc_conn \<Rightarrow> nat option \<Rightarrow> rpc_conn" where
  "co_setDisconnectCallback co cb = co\<lparr>co_disconnectCallback := cb\<rparr>"

definition co_onDisconnect :: "rpc_conn \<Rightarrow> 'v rpc_event list" where
  "co_onDisconnect co = (case co_disconnectCallback co of None \<Rightarrow> [] | Some cb \<Rightarrow> [RunCallback cb])"

text \<open>
  The classes the application holds forward to their \<open>Internal\<close> objects, which live on in the
  callbacks of the socket; the destructor of \<open>Connection\<close> disconnects.
\<close>

definition RPCClient_start :: "rpc_client \<Rightarrow> 'v rpc_event list" where
  "RPCClient_start cl = cl_start cl"

definition RPCClient_disconnect :: "'v codec \<Rightarrow> rpc_client \<Rightarrow> ('v rpc_event list \<times> rpc_client) res" where
  "RPCClient_disconnect C cl = cl_disconnect C cl"

definition RPCClient_setDisconnectCallback :: "rpc_client \<Rightarrow> nat option \<Rightarrow> rpc_client" where
  "RPCClient_setDisconnectCallback cl cb = cl_setDisconnectCallback cl cb"

definition Connection_start :: "'v rpc_event list" where
  "Connection_start = co_start"

definition Connection_disconnect :: "'v rpc_event list" where
  "Connection_disconnect = co_disconnect"

definition Connection_setDisconnectCallback :: "rpc_conn \<Rightarrow> nat option \<Rightarrow> rpc_conn" where
  "Connection_setDisconnectCallback co cb = co_setDisconnectCallback co cb"

definition destroy_Connection :: "'v rpc_event list" where
  "destroy_Connection = co_disconnect"

definition destroy_conn_internal :: "'v rpc_event list" where
  "destroy_conn_internal = [SetReceive False, SetDisconnect False]"

text \<open>What the socket calls, after the events of its client or connection.\<close>

fun socket_calls :: "'v rpc_event list \<Rightarrow> bool \<times> bool \<Rightarrow> bool \<times> bool" where
  "socket_calls [] s = s"
| "socket_calls (SetReceive b # ev) s = socket_calls ev (b, snd s)"
| "socket_calls (SetDisconnect b # ev) s = socket_calls ev (fst s, b)"
| "socket_calls (_ # ev) s = socket_calls ev s"

text \<open>A started connection is called by its socket, one that was destroyed never again.\<close>

lemma connection_callbacks:
  "socket_calls Connection_start s = (True, True)" "socket_calls (Connection_start @ destroy_Connection) s = (False, False)"
  "socket_calls (destroy_Connection @ destroy_conn_internal) s = (False, False)"
  by (simp_all add: Connection_start_def destroy_Connection_def destroy_conn_internal_def co_start_def co_disconnect_def)

subsection \<open>What is used of the encoding\<close>

locale msgpack =
  req: framing "pack_req C" "next_req C" + resp: framing "pack_resp C" "next_resp C"
  for C :: "'v codec" +
  assumes args_roundtrip: "unpack_args C (length as) (pack_args C as) = Some as"
    and val_roundtrip: "unpack_val C (pack_val C v) = Some v"
    and room: "pac_room C n"
begin

lemma cl_onReceive_stream:
  assumes "(cl_pac cl @ buf) @ rest = concat (map (pack_resp C) ms)"
  shows "\<exists>k l. cl_onReceive C cl buf =
       Inr (fst (fold (\<lambda>m s. cl_response s m) (take k ms) ([], cl)),
            snd (fold (\<lambda>m s. cl_response s m) (take k ms) ([] :: 'v rpc_event list, cl))\<lparr>cl_pac := l\<rparr>) \<and>
     l @ rest = concat (map (pack_resp C) (drop k ms)) \<and> k \<le> length ms \<and>
     (rest = [] \<longrightarrow> k = length ms \<and> l = [])"
proof -
  from resp.pump_stream [OF assms, of "length (cl_pac cl @ buf)" cl_response "([] :: 'v rpc_event list, cl)"] obtain k l where
    "pump (next_resp C) cl_response (length (cl_pac cl @ buf)) ([] :: 'v rpc_event list, cl) (cl_pac cl @ buf) =
       Inr (fold (\<lambda>m s. cl_response s m) (take k ms) ([], cl), l)"
    "l @ rest = concat (map (pack_resp C) (drop k ms))" "k \<le> length ms" "rest = [] \<longrightarrow> k = length ms \<and> l = []"
    by blast
  then show ?thesis
    unfolding cl_onReceive_def Let_def using room by (intro exI [of _ k] exI [of _ l]) simp
qed

lemma co_onReceive_stream:
  assumes "(co_pac co @ buf) @ rest = concat (map (pack_req C) ms)"
  shows "\<exists>k l. co_onReceive C fs co buf =
       Inr (fold (\<lambda>m s. co_request fs s m) (take k ms) [], co\<lparr>co_pac := l\<rparr>) \<and>
     l @ rest = concat (map (pack_req C) (drop k ms)) \<and> k \<le> length ms \<and>
     (rest = [] \<longrightarrow> k = length ms \<and> l = [])"
proof -
  from req.pump_stream [OF assms, of "length (co_pac co @ buf)" "co_request fs" "[] :: 'v rpc_event list"] obtain k l where
    "pump (next_req C) (co_request fs) (length (co_pac co @ buf)) ([] :: 'v rpc_event list) (co_pac co @ buf) =
       Inr (fold (\<lambda>m s. co_request fs s m) (take k ms) [], l)"
    "l @ rest = concat (map (pack_req C) (drop k ms))" "k \<le> length ms" "rest = [] \<longrightarrow> k = length ms \<and> l = []"
    by blast
  then show ?thesis
    unfolding co_onReceive_def Let_def using room by (intro exI [of _ k] exI [of _ l]) simp
qed

end

lemma co_request_fold:
  "(\<forall>m \<in> set ms. map_of fs (fst (snd m)) \<noteq> None) \<Longrightarrow>
   fold (\<lambda>m s. co_request fs s m) ms ev =
     ev @ map (\<lambda>m. EnqueueCall (fst m) (the (map_of fs (fst (snd m)))) (snd (snd m))) ms"
proof (induction ms arbitrary: ev)
  case (Cons m ms)
  then obtain f where "map_of fs (fst (snd m)) = Some f" by auto
  with Cons show ?case by (cases m) (simp add: co_request_def)
qed simp

text \<open>Responses to distinct pending requests: each enqueues its own callback and forgets it.\<close>

lemma cl_response_fold:
  "distinct (map fst ms) \<Longrightarrow> (\<forall>m \<in> set ms. map_of (cl_respCallbacks cl) (fst m) \<noteq> None) \<Longrightarrow>
   fold (\<lambda>m s. cl_response s m) ms (ev, cl) =
     (ev @ map (\<lambda>m. EnqueueResponse (the (map_of (cl_respCallbacks cl) (fst m))) (snd m)) ms,
      cl\<lparr>cl_respCallbacks := filter (\<lambda>e. fst e \<notin> fst ` set ms) (cl_respCallbacks cl)\<rparr>)"
proof (induction ms arbitrary: ev cl)
  case (Cons m ms)
  then obtain cb where cb: "map_of (cl_respCallbacks cl) (fst m) = Some cb" by auto
  let ?cl = "cl\<lparr>cl_respCallbacks := map_erase (fst m) (cl_respCallbacks cl)\<rparr>"
  have same: "map_of (cl_respCallbacks ?cl) (fst x) = map_of (cl_respCallbacks cl) (fst x)" if "x \<in> set ms" for x
  proof -
    have "fst x \<in> fst ` set ms" using that by (rule imageI)
    moreover have "fst m \<notin> fst ` set ms" using Cons.prems(1) by simp
    ultimately have "fst x \<noteq> fst m" by metis
    then show ?thesis by (simp add: map_of_map_erase)
  qed
  have step: "cl_response (ev, cl) m = (ev @ [EnqueueResponse cb (snd m)], ?cl)"
    using cb by (cases m) (simp add: cl_response_def)
  have "fold (\<lambda>m s. cl_response s m) ms (ev @ [EnqueueResponse cb (snd m)], ?cl) =
     ((ev @ [EnqueueResponse cb (snd m)]) @ map (\<lambda>m. EnqueueResponse (the (map_of (cl_respCallbacks ?cl) (fst m))) (snd m)) ms,
      ?cl\<lparr>cl_respCallbacks := filter (\<lambda>e. fst e \<notin> fst ` set ms) (cl_respCallbacks ?cl)\<rparr>)"
    using Cons.prems same by (intro Cons.IH) auto
  moreover have "map (\<lambda>m. EnqueueResponse (the (map_of (cl_respCallbacks ?cl) (fst m))) (snd m)) ms =
      (map (\<lambda>m. EnqueueResponse (the (map_of (cl_respCallbacks cl) (fst m))) (snd m)) ms :: 'a rpc_event list)"
    using same by simp
  moreover have "filter (\<lambda>e. fst e \<notin> fst ` set ms) (cl_respCallbacks ?cl) =
      filter (\<lambda>e. fst e \<notin> fst ` set (m # ms)) (cl_respCallbacks cl)"
    by (simp add: map_erase_def conj_commute)
  ultimately show ?case using step cb by simp
qed simp

end
