(* ===== verification/Unary_Codec.thy ===== *)
theory Unary_Codec
  imports Rpc
begin

section \<open>An encoding that keeps the contract\<close>

text \<open>
  A concrete encoding of numbers, requests and responses that satisfies \<open>msgpack\<close>: a number in
  unary notation closed by a zero byte, a message as the list of its numbers after their number.
  It shows that the contract can be met, and concrete executions are evaluated over it.
\<close>

definition un :: "nat \<Rightarrow> bytes" where
  "un n = replicate n 1 @ [0]"

fun get_un :: "bytes \<Rightarrow> (nat \<times> bytes) option" where
  "get_un [] = None"
| "get_un (b # bs) = (if b = 0 then Some (0, bs)
     else case get_un bs of None \<Rightarrow> None | Some (n, r) \<Rightarrow> Some (Suc n, r))"

fun get_n :: "nat \<Rightarrow> bytes \<Rightarrow> (nat list \<times> bytes) option" where
  "get_n 0 b = Some ([], b)"
| "get_n (Suc k) b = (case get_un b of None \<Rightarrow> None
     | Some (n, r) \<Rightarrow> (case get_n k r of None \<Rightarrow> None | Some (ns, r) \<Rightarrow> Some (n # ns, r)))"

definition enc_list :: "nat list \<Rightarrow> bytes" where
  "enc_list ns = un (length ns) @ concat (map un ns)"

definition get_list :: "bytes \<Rightarrow> (nat list \<times> bytes) option" where
  "get_list b = (case get_un b of None \<Rightarrow> None | Some (k, r) \<Rightarrow> get_n k r)"

lemma get_un_whole: "get_un (un n @ r) = Some (n, r)"
  by (induction n) (simp_all add: un_def)

lemma get_un_part: "un n = p @ q \<Longrightarrow> q \<noteq> [] \<Longrightarrow> get_un p = None"
proof (induction n arbitrary: p)
  case 0
  then show ?case by (cases p) (auto simp: un_def)
next
  case (Suc n)
  then show ?case by (cases p) (auto simp: un_def)
qed

lemma prefix_cases:
  assumes "a @ b = p @ q"
  obtains (inside) u where "a = p @ u" "u \<noteq> []" | (beyond) p' where "p = a @ p'" "b = p' @ q"
proof (cases "length p < length a")
  case True
  then have "a = p @ drop (length p) a" using assms
    by (metis append_eq_conv_conj append_take_drop_id less_imp_le take_all_iff take_append take_take min.absorb2 diff_is_0_eq append_Nil2 take0)
  with True inside [of "drop (length p) a"] show thesis by simp
next
  case False
  then have "p = a @ drop (length a) p" "b = drop (length a) p @ q" using assms
    by (metis append_eq_append_conv_if append_take_drop_id leI, metis append_eq_append_conv_if append_take_drop_id leI same_append_eq append.assoc)
  then show thesis by (rule beyond)
qed

lemma get_n_whole: "get_n (length ns) (concat (map un ns) @ r) = Some (ns, r)"
  by (induction ns) (simp_all add: get_un_whole)

lemma get_n_part: "concat (map un ns) = p @ q \<Longrightarrow> q \<noteq> [] \<Longrightarrow> get_n (length ns) p = None"
proof (induction ns arbitrary: p)
  case (Cons n ns)
  have "un n @ concat (map un ns) = p @ q" using Cons.prems(1) by simp
  then show ?case
  proof (cases rule: prefix_cases)
    case (inside u)
    then show ?thesis by (simp add: get_un_part)
  next
    case (beyond p')
    then show ?thesis using Cons.IH [of p'] Cons.prems(2) by (simp add: get_un_whole)
  qed
qed simp

lemma get_list_whole: "get_list (enc_list ns @ r) = Some (ns, r)"
  by (simp add: enc_list_def get_list_def get_un_whole get_n_whole)

lemma get_list_part:
  assumes "enc_list ns = p @ q" and "q \<noteq> []"
  shows "get_list p = None"
  using assms(1) unfolding enc_list_def
proof (cases rule: prefix_cases)
  case (inside u)
  then show ?thesis by (simp add: get_list_def get_un_part)
next
  case (beyond p')
  then show ?thesis using get_n_part [of ns p' q] assms(2) by (simp add: get_list_def get_un_whole)
qed

text \<open>A message type that numbers represent gets its framing from that of the lists.\<close>

lemma framing_via:
  assumes "\<And>m. from (to m) = Some m"
  shows "framing (enc_list \<circ> to) (\<lambda>b. map_option (\<lambda>(ns, r). (from ns, r)) (get_list b))"
proof
  show "(enc_list \<circ> to) m \<noteq> []" for m by (simp add: enc_list_def un_def)
  show "map_option (\<lambda>(ns, r). (from ns, r)) (get_list ((enc_list \<circ> to) m @ r)) = Some (Some m, r)" for m r
    by (simp add: get_list_whole assms)
  show "map_option (\<lambda>(ns, r). (from ns, r)) (get_list p) = None" if "(enc_list \<circ> to) m = p @ q" "q \<noteq> []" for m p q
    using that by (simp add: get_list_part)
qed

fun req_nums :: "u64 \<times> string \<times> bytes \<Rightarrow> nat list" where
  "req_nums (rid, name, args) = unat rid # length name # map of_char name @ map unat args"

fun nums_req :: "nat list \<Rightarrow> (u64 \<times> string \<times> bytes) option" where
  "nums_req (rid # n # ns) = Some (of_nat rid, map char_of (take n ns), map of_nat (drop n ns))"
| "nums_req _ = None"

fun resp_nums :: "u64 \<times> bytes \<Rightarrow> nat list" where
  "resp_nums (rid, raw) = unat rid # map unat raw"

fun nums_resp :: "nat list \<Rightarrow> (u64 \<times> bytes) option" where
  "nums_resp (rid # ns) = Some (of_nat rid, map of_nat ns)"
| "nums_resp _ = None"

lemma nums_req_nums: "nums_req (req_nums m) = Some m"
  by (cases m) (simp add: comp_def)

lemma nums_resp_nums: "nums_resp (resp_nums m) = Some m"
  by (cases m) (simp add: comp_def)

definition unary :: "nat codec" where
  "unary = \<lparr>
     pack_args = (\<lambda>as. concat (map un as)),
     unpack_args = (\<lambda>n b. map_option fst (get_n n b)),
     pack_val = un,
     unpack_val = (\<lambda>b. map_option fst (get_un b)),
     pack_req = enc_list \<circ> req_nums,
     next_req = (\<lambda>b. map_option (\<lambda>(ns, r). (nums_req ns, r)) (get_list b)),
     pack_resp = enc_list \<circ> resp_nums,
     next_resp = (\<lambda>b. map_option (\<lambda>(ns, r). (nums_resp ns, r)) (get_list b)),
     pac_room = (\<lambda>n. True)\<rparr>"

interpretation unary: msgpack unary
proof -
  have 1: "framing (pack_req unary) (next_req unary)"
    using framing_via [of nums_req req_nums, OF nums_req_nums] by (simp add: unary_def)
  have 2: "framing (pack_resp unary) (next_resp unary)"
    using framing_via [of nums_resp resp_nums, OF nums_resp_nums] by (simp add: unary_def)
  have 3: "unpack_args unary (length as) (pack_args unary as) = Some as" for as
    using get_n_whole [of as "[]"] by (simp add: unary_def)
  have 4: "unpack_val unary (pack_val unary v) = Some v" for v
    using get_un_whole [of v "[]"] by (simp add: unary_def)
  have 5: "pac_room unary n" for n by (simp add: unary_def)
  show "msgpack unary"
    by (intro msgpack.intro msgpack_axioms.intro 1 2 3 4 5)
qed

subsection \<open>Other types of values\<close>

text \<open>The same for any type of values that lists of numbers represent.\<close>

fun get_lists :: "nat \<Rightarrow> bytes \<Rightarrow> (nat list list \<times> bytes) option" where
  "get_lists 0 b = Some ([], b)"
| "get_lists (Suc k) b = (case get_list b of None \<Rightarrow> None
     | Some (ns, r) \<Rightarrow> (case get_lists k r of None \<Rightarrow> None | Some (nss, r) \<Rightarrow> Some (ns # nss, r)))"

fun all_some :: "'a option list \<Rightarrow> 'a list option" where
  "all_some [] = Some []"
| "all_some (None # xs) = None"
| "all_some (Some x # xs) = map_option ((#) x) (all_some xs)"

definition unary_via :: "('v \<Rightarrow> nat list) \<Rightarrow> (nat list \<Rightarrow> 'v option) \<Rightarrow> 'v codec" where
  "unary_via to from = \<lparr>
     pack_args = (\<lambda>as. concat (map (enc_list \<circ> to) as)),
     unpack_args = (\<lambda>n b. case get_lists n b of None \<Rightarrow> None | Some (nss, r) \<Rightarrow> all_some (map from nss)),
     pack_val = enc_list \<circ> to,
     unpack_val = (\<lambda>b. case get_list b of None \<Rightarrow> None | Some (ns, r) \<Rightarrow> from ns),
     pack_req = pack_req unary, next_req = next_req unary,
     pack_resp = pack_resp unary, next_resp = next_resp unary,
     pac_room = (\<lambda>n. True)\<rparr>"

lemma get_lists_whole: "get_lists (length as) (concat (map (enc_list \<circ> to) as) @ r) = Some (map to as, r)"
  by (induction as) (simp_all add: get_list_whole)

lemma all_some_map: "(\<And>v. from (to v) = Some v) \<Longrightarrow> all_some (map (from \<circ> to) as) = Some as"
  by (induction as) simp_all

lemma msgpack_unary_via:
  assumes "\<And>v. from (to v) = Some v"
  shows "msgpack (unary_via to from)"
proof -
  have "unpack_args (unary_via to from) (length as) (pack_args (unary_via to from) as) = Some as" for as
    using get_lists_whole [of as to "[]"] all_some_map [of "from" to as] assms by (simp add: unary_via_def)
  moreover have "unpack_val (unary_via to from) (pack_val (unary_via to from) v) = Some v" for v
    using get_list_whole [of "to v" "[]"] assms by (simp add: unary_via_def)
  moreover have "framing (pack_req (unary_via to from)) (next_req (unary_via to from))"
    "framing (pack_resp (unary_via to from)) (next_resp (unary_via to from))"
    using unary.req.framing_axioms unary.resp.framing_axioms by (simp_all add: unary_via_def)
  moreover have "pac_room (unary_via to from) n" for n by (simp add: unary_via_def)
  ultimately show ?thesis by (intro msgpack.intro msgpack_axioms.intro)
qed

end
