(* ===== verification/Rpc_System.thy ===== *)
theory Rpc_System
  imports Unary_Codec
begin

section \<open>A client and a server connection\<close>

text \<open>
  One \<open>RPCClient\<close> talking to one \<open>RPCServer::Connection\<close> over a byte stream in each direction.
  The network delivers any non-empty part of what is in flight, so messages arrive split and
  merged; worker threads run the enqueued tasks in any order; a registered function's future may
  be set at any later time. The last three fields record history: the calls made, what the
  functions answered, and the futures set.
\<close>

record 'v rpc_sys =
  sy_client :: rpc_client
  sy_conn :: rpc_conn
  sy_c2s :: bytes
  sy_s2c :: bytes
  sy_server_tasks :: "(u64 \<times> (func \<times> nat) \<times> bytes) list"
  sy_running :: "(u64 \<times> func \<times> 'v list) list"
  sy_client_tasks :: "(future \<times> bytes) list"
  sy_open :: bool
  sy_calls :: "(future \<times> u64 \<times> string \<times> 'v list) list"
  sy_served :: "(u64 \<times> func \<times> 'v list \<times> 'v) set"
  sy_done :: "(future \<times> 'v outcome) list"

text \<open>What the events of an operation ask of the socket, the event manager and the futures.\<close>

fun written :: "'v rpc_event list \<Rightarrow> bytes" where
  "written [] = []"
| "written (Write bs # ev) = bs @ written ev"
| "written (_ # ev) = written ev"

fun enqueued_calls :: "'v rpc_event list \<Rightarrow> (u64 \<times> (func \<times> nat) \<times> bytes) list" where
  "enqueued_calls [] = []"
| "enqueued_calls (EnqueueCall rid f raw # ev) = (rid, f, raw) # enqueued_calls ev"
| "enqueued_calls (_ # ev) = enqueued_calls ev"

fun enqueued_responses :: "'v rpc_event list \<Rightarrow> (future \<times> bytes) list" where
  "enqueued_responses [] = []"
| "enqueued_responses (EnqueueResponse fut raw # ev) = (fut, raw) # enqueued_responses ev"
| "enqueued_responses (_ # ev) = enqueued_responses ev"

fun futures_set :: "'v rpc_event list \<Rightarrow> (future \<times> 'v outcome) list" where
  "futures_set [] = []"
| "futures_set (FutureSet fut r # ev) = (fut, r) # futures_set ev"
| "futures_set (_ # ev) = futures_set ev"

definition rpc_start :: "'v rpc_sys" where
  "rpc_start = \<lparr>sy_client = new_client, sy_conn = new_conn, sy_c2s = [], sy_s2c = [], sy_server_tasks = [],
     sy_running = [], sy_client_tasks = [], sy_open = True, sy_calls = [], sy_served = {}, sy_done = []\<rparr>"

text \<open>
  Calls are of registered functions with the right number of arguments, each returning a new
  future, and request numbers have not wrapped round. After \<open>disconnect\<close> the client makes no
  further call and receives nothing.
\<close>

inductive rpc_step :: "'v codec \<Rightarrow> funcs \<Rightarrow> 'v rpc_sys \<Rightarrow> 'v rpc_sys \<Rightarrow> bool" for C fs where
  call: "sy_open s \<Longrightarrow> fut \<notin> fst ` set (sy_calls s) \<Longrightarrow> map_of fs name = Some (f, length as) \<Longrightarrow>
    length (sy_calls s) < 2 ^ 64 \<Longrightarrow> cl_call C (sy_client s) fut name as = (ev, cl) \<Longrightarrow>
    rpc_step C fs s (s\<lparr>sy_client := cl, sy_c2s := sy_c2s s @ written ev,
      sy_calls := sy_calls s @ [(fut, cl_reqId (sy_client s), name, as)]\<rparr>)"
| to_server: "sy_c2s s = buf @ rest \<Longrightarrow> buf \<noteq> [] \<Longrightarrow> co_onReceive C fs (sy_conn s) buf = Inr (ev, co) \<Longrightarrow>
    rpc_step C fs s (s\<lparr>sy_conn := co, sy_c2s := rest,
      sy_server_tasks := sy_server_tasks s @ enqueued_calls ev\<rparr>)"
| run_call: "sy_server_tasks s = xs @ (rid, f, raw) # ys \<Longrightarrow> deferredRPCCall C f raw = Inr (g, as) \<Longrightarrow>
    rpc_step C fs s (s\<lparr>sy_server_tasks := xs @ ys, sy_running := sy_running s @ [(rid, g, as)]\<rparr>)"
| answer: "sy_running s = xs @ (rid, g, as) # ys \<Longrightarrow>
    rpc_step C fs s (s\<lparr>sy_running := xs @ ys,
      sy_s2c := sy_s2c s @ written (responseCallback C rid (serializeFuture C v)),
      sy_served := insert (rid, g, as, v) (sy_served s)\<rparr>)"
| to_client: "sy_open s \<Longrightarrow> sy_s2c s = buf @ rest \<Longrightarrow> buf \<noteq> [] \<Longrightarrow> cl_onReceive C (sy_client s) buf = Inr (ev, cl) \<Longrightarrow>
    rpc_step C fs s (s\<lparr>sy_client := cl, sy_s2c := rest,
      sy_client_tasks := sy_client_tasks s @ enqueued_responses ev\<rparr>)"
| run_response: "sy_client_tasks s = xs @ (fut, raw) # ys \<Longrightarrow> deserializeFuture C fut (Some raw) = Inr e \<Longrightarrow>
    rpc_step C fs s (s\<lparr>sy_client_tasks := xs @ ys, sy_done := sy_done s @ futures_set [e]\<rparr>)"
| disconnect: "sy_open s \<Longrightarrow> cl_disconnect C (sy_client s) = Inr (ev, cl) \<Longrightarrow>
    rpc_step C fs s (s\<lparr>sy_client := cl, sy_open := False, sy_done := sy_done s @ futures_set ev\<rparr>)"

inductive rpc_reach :: "'v codec \<Rightarrow> funcs \<Rightarrow> 'v rpc_sys \<Rightarrow> bool" for C fs where
  start: "rpc_reach C fs rpc_start"
| step: "rpc_reach C fs s \<Longrightarrow> rpc_step C fs s s' \<Longrightarrow> rpc_reach C fs s'"

subsection \<open>The invariant\<close>

definition good_req :: "'v codec \<Rightarrow> funcs \<Rightarrow> 'v rpc_sys \<Rightarrow> u64 \<times> string \<times> bytes \<Rightarrow> bool" where
  "good_req C fs s m \<longleftrightarrow> (\<exists>rid name as fut f. m = (rid, name, pack_args C as) \<and>
     (fut, rid, name, as) \<in> set (sy_calls s) \<and> map_of fs name = Some (f, length as))"

definition good_task :: "'v codec \<Rightarrow> funcs \<Rightarrow> 'v rpc_sys \<Rightarrow> u64 \<times> (func \<times> nat) \<times> bytes \<Rightarrow> bool" where
  "good_task C fs s m \<longleftrightarrow> (\<exists>rid name as fut f. m = (rid, (f, length as), pack_args C as) \<and>
     (fut, rid, name, as) \<in> set (sy_calls s) \<and> map_of fs name = Some (f, length as))"

definition good_run :: "funcs \<Rightarrow> 'v rpc_sys \<Rightarrow> u64 \<times> func \<times> 'v list \<Rightarrow> bool" where
  "good_run fs s m \<longleftrightarrow> (\<exists>rid name as fut f. m = (rid, f, as) \<and>
     (fut, rid, name, as) \<in> set (sy_calls s) \<and> map_of fs name = Some (f, length as))"

text \<open>The future, the request and the value of a call that was answered.\<close>

definition answered :: "funcs \<Rightarrow> 'v rpc_sys \<Rightarrow> future \<Rightarrow> u64 \<Rightarrow> 'v \<Rightarrow> bool" where
  "answered fs s fut rid v \<longleftrightarrow> (\<exists>name as f. (fut, rid, name, as) \<in> set (sy_calls s) \<and>
     map_of fs name = Some (f, length as) \<and> (rid, f, as, v) \<in> sy_served s)"

definition good_resp :: "'v codec \<Rightarrow> funcs \<Rightarrow> 'v rpc_sys \<Rightarrow> u64 \<times> bytes \<Rightarrow> bool" where
  "good_resp C fs s m \<longleftrightarrow> (\<exists>fut v. snd m = pack_val C v \<and> answered fs s fut (fst m) v)"

definition good_delivery :: "'v codec \<Rightarrow> funcs \<Rightarrow> 'v rpc_sys \<Rightarrow> future \<times> bytes \<Rightarrow> bool" where
  "good_delivery C fs s m \<longleftrightarrow> (\<exists>rid v. snd m = pack_val C v \<and> answered fs s (fst m) rid v)"

definition good_done :: "funcs \<Rightarrow> 'v rpc_sys \<Rightarrow> future \<times> 'v outcome \<Rightarrow> bool" where
  "good_done fs s m \<longleftrightarrow> (case snd m of Got v \<Rightarrow> \<exists>rid. answered fs s (fst m) rid v | Aborted \<Rightarrow> \<not> sy_open s)"

definition numbered :: "'v rpc_sys \<Rightarrow> bool" where
  "numbered s \<longleftrightarrow> map (fst \<circ> snd) (sy_calls s) = map of_nat [0..<length (sy_calls s)] \<and>
     length (sy_calls s) \<le> 2 ^ 64 \<and> distinct (map fst (sy_calls s)) \<and>
     cl_reqId (sy_client s) = of_nat (length (sy_calls s))"

definition accounted :: "'v rpc_sys \<Rightarrow> bool" where
  "accounted s \<longleftrightarrow> mset (map snd (cl_respCallbacks (sy_client s))) + mset (map fst (sy_client_tasks s)) +
     mset (map fst (sy_done s)) = mset (map fst (sy_calls s))"

definition live :: "'v codec \<Rightarrow> funcs \<Rightarrow> 'v rpc_sys \<Rightarrow> bool" where
  "live C fs s \<longleftrightarrow> (\<exists>Q1 Q2.
     co_pac (sy_conn s) @ sy_c2s s = concat (map (pack_req C) Q1) \<and> (\<forall>m \<in> set Q1. good_req C fs s m) \<and>
     cl_pac (sy_client s) @ sy_s2c s = concat (map (pack_resp C) Q2) \<and> (\<forall>m \<in> set Q2. good_resp C fs s m) \<and>
     (sy_open s \<longrightarrow>
        mset (map fst Q1) + mset (map fst (sy_server_tasks s)) + mset (map fst (sy_running s)) + mset (map fst Q2) =
        mset (map fst (cl_respCallbacks (sy_client s)))))"

text \<open>Nothing stays in an unpacker once all bytes were delivered, nor a callback once disconnected.\<close>

definition settled :: "'v rpc_sys \<Rightarrow> bool" where
  "settled s \<longleftrightarrow> (sy_c2s s = [] \<longrightarrow> co_pac (sy_conn s) = []) \<and> (sy_s2c s = [] \<longrightarrow> cl_pac (sy_client s) = []) \<and>
     (\<not> sy_open s \<longrightarrow> cl_respCallbacks (sy_client s) = [])"

definition sys_inv :: "'v codec \<Rightarrow> funcs \<Rightarrow> 'v rpc_sys \<Rightarrow> bool" where
  "sys_inv C fs s \<longleftrightarrow> numbered s \<and> map_ok (cl_respCallbacks (sy_client s)) \<and> accounted s \<and>
     (\<forall>e \<in> set (cl_respCallbacks (sy_client s)). \<exists>name as. (snd e, fst e, name, as) \<in> set (sy_calls s)) \<and>
     (\<forall>m \<in> set (sy_server_tasks s). good_task C fs s m) \<and> (\<forall>m \<in> set (sy_running s). good_run fs s m) \<and>
     (\<forall>m \<in> set (sy_client_tasks s). good_delivery C fs s m) \<and> (\<forall>m \<in> set (sy_done s). good_done fs s m) \<and>
     live C fs s \<and> settled s"

text \<open>All of these only say more as calls and answers are added.\<close>

lemma good_mono:
  assumes "set (sy_calls s) \<subseteq> set (sy_calls s')" and "sy_served s \<subseteq> sy_served s'"
  shows "good_req C fs s q \<Longrightarrow> good_req C fs s' q" "good_task C fs s t \<Longrightarrow> good_task C fs s' t"
    "good_run fs s r \<Longrightarrow> good_run fs s' r" "answered fs s fut rid v \<Longrightarrow> answered fs s' fut rid v"
    "good_resp C fs s p \<Longrightarrow> good_resp C fs s' p" "good_delivery C fs s d \<Longrightarrow> good_delivery C fs s' d"
  using assms unfolding good_req_def good_task_def good_run_def answered_def good_resp_def good_delivery_def
  by blast+

lemma good_done_mono:
  assumes "set (sy_calls s) \<subseteq> set (sy_calls s')" and "sy_served s \<subseteq> sy_served s'" and "sy_open s' \<Longrightarrow> sy_open s"
    and "good_done fs s d"
  shows "good_done fs s' d"
proof (cases "snd d")
  case (Got v)
  with assms(4) good_mono(4) [OF assms(1,2)] show ?thesis by (fastforce simp: good_done_def)
next
  case Aborted
  with assms(3,4) show ?thesis by (auto simp: good_done_def)
qed

lemma distinct_numbers:
  assumes "n \<le> 2 ^ 64"
  shows "distinct (map (of_nat :: nat \<Rightarrow> u64) [0..<n])"
proof -
  have "inj_on (of_nat :: nat \<Rightarrow> u64) {0..<n}"
  proof (rule inj_onI)
    fix x y assume "x \<in> {0..<n}" "y \<in> {0..<n}" and eq: "(of_nat x :: u64) = of_nat y"
    then have "x < 2 ^ LENGTH(64)" "y < 2 ^ LENGTH(64)" using assms by auto
    then have "unat (of_nat x :: u64) = x" "unat (of_nat y :: u64) = y"
      by (simp_all only: unsigned_of_nat take_bit_nat_eq_self of_nat_id)
    with eq show "x = y" by metis
  qed
  then show ?thesis by (simp add: distinct_map)
qed

lemma numbered_unique:
  assumes "numbered s" and "(fut, rid, name, as) \<in> set (sy_calls s)" and "(fut', rid, name', as') \<in> set (sy_calls s)"
  shows "fut' = fut \<and> name' = name \<and> as' = as"
proof -
  have "distinct (map (fst \<circ> snd) (sy_calls s))"
    using assms(1) distinct_numbers by (simp add: numbered_def)
  then have "inj_on (fst \<circ> snd) (set (sy_calls s))" by (simp add: distinct_map)
  from inj_onD [OF this _ assms(2,3)] show ?thesis by simp
qed

lemma numbered_fresh:
  assumes "numbered s" and "length (sy_calls s) < 2 ^ 64"
  shows "cl_reqId (sy_client s) \<notin> (fst \<circ> snd) ` set (sy_calls s)"
proof -
  let ?n = "length (sy_calls s)"
  have "distinct (map (of_nat :: nat \<Rightarrow> u64) [0..<Suc ?n])" using assms(2) by (intro distinct_numbers) simp
  then have "(of_nat ?n :: u64) \<notin> set (map of_nat [0..<?n])" by simp
  moreover have "(fst \<circ> snd) ` set (sy_calls s) = set (map of_nat [0..<?n])"
    using assms(1) by (metis numbered_def set_map)
  ultimately show ?thesis using assms(1) by (simp add: numbered_def)
qed

lemma mset_split_keys:
  assumes "distinct (map fst m)" and "distinct ks" and "set ks \<subseteq> fst ` set m"
  shows "mset m = mset (filter (\<lambda>e. fst e \<notin> set ks) m) + mset (map (\<lambda>k. (k, the (map_of m k))) ks)"
proof -
  let ?get = "\<lambda>k. (k, the (map_of m k))"
  have "distinct m" using assms(1) by (simp add: distinct_map)
  have "e \<in> ?get ` set ks" if "e \<in> set m" "fst e \<in> set ks" for e
    using that map_of_is_SomeI [OF assms(1), of "fst e" "snd e"]
    by (intro image_eqI [of _ _ "fst e"]) (simp_all add: prod_eq_iff)
  moreover have "?get k \<in> set m" if "k \<in> set ks" for k
    using that assms(1,3) by (force dest: map_of_is_SomeI)
  ultimately have "set (filter (\<lambda>e. fst e \<in> set ks) m) = set (map ?get ks)" by auto
  moreover have "distinct (map ?get ks)" using assms(2) by (simp add: distinct_map inj_on_def)
  moreover have "distinct (filter (\<lambda>e. fst e \<in> set ks) m)" using \<open>distinct m\<close> by simp
  ultimately have "mset (filter (\<lambda>e. fst e \<in> set ks) m) = mset (map ?get ks)"
    by (metis set_eq_iff_mset_eq_distinct)
  then show ?thesis
    using multiset_partition [of "mset m" "\<lambda>e. fst e \<notin> set ks"] by simp
qed

lemma mset_map_store: "map_of m k = None \<Longrightarrow> mset (map_store k v m) = add_mset (k, v) (mset m)"
  by (induction k v m rule: map_store.induct) (auto split: if_splits)

lemma enqueued_calls_map:
  "enqueued_calls (map (\<lambda>m. EnqueueCall (a m) (b m) (c m)) ms) = map (\<lambda>m. (a m, b m, c m)) ms"
  by (induction ms) simp_all

lemma enqueued_responses_map:
  "enqueued_responses (map (\<lambda>m. EnqueueResponse (a m) (b m)) ms) = map (\<lambda>m. (a m, b m)) ms"
  by (induction ms) simp_all

lemma futures_set_append: "futures_set (ev @ ev') = futures_set ev @ futures_set ev'"
  by (induction ev rule: futures_set.induct) simp_all

lemma cl_disconnect_eq:
  "cl_disconnect C cl =
     Inr ([SetReceive False, SetDisconnect False, SocketDisconnect] @
            map (\<lambda>i. FutureSet (snd i) Aborted) (cl_respCallbacks cl), cl\<lparr>cl_respCallbacks := []\<rparr>)"
proof -
  have "rfold (\<lambda>ev i. rbind (deserializeFuture C (snd i) None) (\<lambda>e. Inr (ev @ [e]))) ev0 m =
      Inr (ev0 @ map (\<lambda>i. FutureSet (snd i) Aborted) m)" for ev0 :: "'a rpc_event list" and m :: "(u64, future) smap"
    by (induction m arbitrary: ev0) (simp_all add: deserializeFuture_def)
  then show ?thesis by (simp add: cl_disconnect_def)
qed

lemma futures_set_aborts: "futures_set (map (\<lambda>i. FutureSet (snd i) Aborted) m) = map (\<lambda>i. (snd i, Aborted)) m"
  by (induction m) simp_all

lemma liveI:
  "co_pac (sy_conn s) @ sy_c2s s = concat (map (pack_req C) Q1) \<Longrightarrow> \<forall>m \<in> set Q1. good_req C fs s m \<Longrightarrow>
   cl_pac (sy_client s) @ sy_s2c s = concat (map (pack_resp C) Q2) \<Longrightarrow> \<forall>m \<in> set Q2. good_resp C fs s m \<Longrightarrow>
   (sy_open s \<Longrightarrow>
      mset (map fst Q1) + mset (map fst (sy_server_tasks s)) + mset (map fst (sy_running s)) + mset (map fst Q2) =
      mset (map fst (cl_respCallbacks (sy_client s)))) \<Longrightarrow> live C fs s"
  unfolding live_def by blast

lemma inv_parts:
  assumes "sys_inv C fs s"
  shows "numbered s" and "accounted s" and "settled s" and "\<forall>d \<in> set (sy_done s). good_done fs s d"
  using assms by (simp_all add: sys_inv_def)

lemma liveE:
  assumes "sys_inv C fs s"
  obtains Q1 Q2 where "co_pac (sy_conn s) @ sy_c2s s = concat (map (pack_req C) Q1)" "\<forall>m \<in> set Q1. good_req C fs s m"
    "cl_pac (sy_client s) @ sy_s2c s = concat (map (pack_resp C) Q2)" "\<forall>m \<in> set Q2. good_resp C fs s m"
    "sy_open s \<Longrightarrow>
      mset (map fst Q1) + mset (map fst (sy_server_tasks s)) + mset (map fst (sy_running s)) + mset (map fst Q2) =
      mset (map fst (cl_respCallbacks (sy_client s)))"
  using assms unfolding sys_inv_def live_def by blast

text \<open>The number of the next request has no callback, as long as numbers have not wrapped round.\<close>

lemma next_number_free:
  assumes inv: "sys_inv C fs s" and room: "length (sy_calls s) < 2 ^ 64"
  shows "map_of (cl_respCallbacks (sy_client s)) (cl_reqId (sy_client s)) = None"
proof (rule ccontr)
  let ?rid = "cl_reqId (sy_client s)" and ?cbs = "cl_respCallbacks (sy_client s)"
  assume "map_of ?cbs ?rid \<noteq> None"
  then obtain c where "(?rid, c) \<in> set ?cbs" by (auto dest: map_of_SomeD)
  then obtain name' as' where "(c, ?rid, name', as') \<in> set (sy_calls s)" using inv by (force simp: sys_inv_def)
  with numbered_fresh [OF inv_parts(1) [OF inv] room] show False by force
qed

text \<open>A response that reaches a pending callback carries the answer to the call of that callback.\<close>

lemma response_reaches_call:
  assumes inv: "sys_inv C fs s" and resp: "good_resp C fs s m"
    and known: "map_of (cl_respCallbacks (sy_client s)) (fst m) = Some fut"
  shows "good_delivery C fs s (fut, snd m)"
proof -
  obtain fut' v where v: "snd m = pack_val C v" "answered fs s fut' (fst m) v"
    using resp by (auto simp: good_resp_def)
  obtain name as where "(fut, fst m, name, as) \<in> set (sy_calls s)"
    using inv map_of_SomeD [OF known] by (force simp: sys_inv_def)
  moreover obtain name' as' where "(fut', fst m, name', as') \<in> set (sy_calls s)" using v(2) by (auto simp: answered_def)
  ultimately have "fut' = fut" using numbered_unique [OF inv_parts(1) [OF inv]] by blast
  then show ?thesis using v by (auto simp: good_delivery_def)
qed

text \<open>Handling some of the responses takes exactly their callbacks out of the table.\<close>

lemma callbacks_taken:
  fixes cbs :: "(u64, future) smap" and ms :: "(u64 \<times> bytes) list"
  assumes dk: "distinct (map fst cbs)" and eq: "mset (map fst cbs) = mset (map fst ms @ others)"
  shows "distinct (map fst ms)" and "\<forall>m \<in> set ms. map_of cbs (fst m) \<noteq> None"
    and "mset (map fst (filter (\<lambda>e. fst e \<notin> fst ` set ms) cbs)) = mset others"
    and "mset (map snd cbs) = mset (map snd (filter (\<lambda>e. fst e \<notin> fst ` set ms) cbs)) +
      mset (map (\<lambda>m. the (map_of cbs (fst m))) ms)"
proof -
  let ?keep = "filter (\<lambda>e. fst e \<notin> fst ` set ms) cbs" and ?cb = "\<lambda>m. the (map_of cbs (fst m))"
  show dms: "distinct (map fst ms)"
    using dk mset_eq_imp_distinct_iff [OF eq] by simp
  have sub: "set (map fst ms) \<subseteq> fst ` set cbs" using mset_eq_setD [OF eq] by auto
  then show "\<forall>m \<in> set ms. map_of cbs (fst m) \<noteq> None" by (auto simp: map_of_eq_None_iff)
  have part: "mset cbs = mset ?keep + mset (map (\<lambda>m. (fst m, ?cb m)) ms)"
    using mset_split_keys [OF dk dms sub] by (simp add: comp_def)
  have "mset (map fst cbs) = mset (map fst ?keep) + mset (map fst ms)"
    and part_snd: "mset (map snd cbs) = mset (map snd ?keep) + mset (map ?cb ms)"
    unfolding mset_map [of _ cbs] part by (simp_all add: image_mset.compositionality comp_def)
  then show "mset (map fst ?keep) = mset others" using eq by simp
  show "mset (map snd cbs) = mset (map snd ?keep) + mset (map ?cb ms)" by (rule part_snd)
qed

context msgpack
begin

lemma inv_call:
  assumes inv: "sys_inv C fs s" and "sy_open s" and fut: "fut \<notin> fst ` set (sy_calls s)"
    and f: "map_of fs name = Some (f, length as)" and room: "length (sy_calls s) < 2 ^ 64"
    and call: "cl_call C (sy_client s) fut name as = (ev, cl)"
  shows "sys_inv C fs (s\<lparr>sy_client := cl, sy_c2s := sy_c2s s @ written ev,
      sy_calls := sy_calls s @ [(fut, cl_reqId (sy_client s), name, as)]\<rparr>)" (is "sys_inv C fs ?s")
proof -
  let ?rid = "cl_reqId (sy_client s)" and ?cbs = "cl_respCallbacks (sy_client s)"
  let ?m = "(?rid, name, pack_args C as)"
  have cl: "cl = (sy_client s)\<lparr>cl_respCallbacks := map_store ?rid fut ?cbs, cl_reqId := ?rid + 1\<rparr>"
    and ev: "written ev = pack_req C ?m"
    using call by (auto simp: cl_call_def Let_def serializeArgs_def)
  have "numbered s" using inv by (simp add: sys_inv_def)
  note new = next_number_free [OF inv room]
  have cbs: "mset (map_store ?rid fut ?cbs) = add_mset (?rid, fut) (mset ?cbs)" by (rule mset_map_store [OF new])
  have setcbs: "set (map_store ?rid fut ?cbs) = insert (?rid, fut) (set ?cbs)"
    using cbs by (metis set_mset_add_mset_insert set_mset_mset)
  have sub: "set (sy_calls s) \<subseteq> set (sy_calls ?s)" "sy_served s \<subseteq> sy_served ?s" by auto
  note mono = good_mono [OF sub] good_done_mono [OF sub]
  have num: "numbered ?s" using \<open>numbered s\<close> fut room by (simp add: numbered_def cl)
  have acc: "accounted ?s" using inv by (simp add: accounted_def sys_inv_def cl mset_map cbs)
  have callbacks: "\<forall>e \<in> set (cl_respCallbacks (sy_client ?s)). \<exists>name as. (snd e, fst e, name, as) \<in> set (sy_calls ?s)"
  proof
    fix e assume "e \<in> set (cl_respCallbacks (sy_client ?s))"
    then have "e = (?rid, fut) \<or> e \<in> set ?cbs" by (simp add: cl setcbs)
    moreover have "\<exists>name as. (snd e, fst e, name, as) \<in> set (sy_calls s)" if "e \<in> set ?cbs"
      using inv that by (simp add: sys_inv_def)
    ultimately show "\<exists>name as. (snd e, fst e, name, as) \<in> set (sy_calls ?s)" by fastforce
  qed
  obtain Q1 Q2 where Q: "co_pac (sy_conn s) @ sy_c2s s = concat (map (pack_req C) Q1)" "\<forall>m \<in> set Q1. good_req C fs s m"
    "cl_pac (sy_client s) @ sy_s2c s = concat (map (pack_resp C) Q2)" "\<forall>m \<in> set Q2. good_resp C fs s m"
    "mset (map fst Q1) + mset (map fst (sy_server_tasks s)) + mset (map fst (sy_running s)) + mset (map fst Q2) =
       mset (map fst ?cbs)"
    by (rule liveE [OF inv]) (use \<open>sy_open s\<close> in blast)
  have m: "good_req C fs ?s ?m" unfolding good_req_def using f by fastforce
  have "live C fs ?s"
  proof (rule liveI [of _ _ "Q1 @ [?m]" _ Q2])
    show "co_pac (sy_conn ?s) @ sy_c2s ?s = concat (map (pack_req C) (Q1 @ [?m]))"
      using Q(1) ev by (simp add: append_assoc [symmetric] del: append_assoc)
    show "\<forall>q \<in> set (Q1 @ [?m]). good_req C fs ?s q" using Q(2) mono(1) m by auto
    show "cl_pac (sy_client ?s) @ sy_s2c ?s = concat (map (pack_resp C) Q2)" using Q(3) by (simp add: cl)
    show "\<forall>q \<in> set Q2. good_resp C fs ?s q" using Q(4) mono(5) by blast
    show "mset (map fst (Q1 @ [?m])) + mset (map fst (sy_server_tasks ?s)) + mset (map fst (sy_running ?s)) + mset (map fst Q2) =
        mset (map fst (cl_respCallbacks (sy_client ?s)))"
      using Q(5) by (simp add: cl mset_map cbs)
  qed
  moreover have "settled ?s"
    using inv \<open>sy_open s\<close> req.enc_nonempty [of ?m] by (simp add: sys_inv_def settled_def cl ev)
  ultimately show ?thesis
    using inv mono num acc callbacks unfolding sys_inv_def by (simp add: cl smap.ok_store)
qed

lemma inv_to_server:
  assumes inv: "sys_inv C fs s" and c2s: "sy_c2s s = buf @ rest"
  shows "\<exists>ev co. co_onReceive C fs (sy_conn s) buf = Inr (ev, co)"
    and "co_onReceive C fs (sy_conn s) buf = Inr (ev, co) \<Longrightarrow>
      sys_inv C fs (s\<lparr>sy_conn := co, sy_c2s := rest, sy_server_tasks := sy_server_tasks s @ enqueued_calls ev\<rparr>)"
proof -
  obtain Q1 Q2 where Q: "co_pac (sy_conn s) @ sy_c2s s = concat (map (pack_req C) Q1)" "\<forall>m \<in> set Q1. good_req C fs s m"
    "cl_pac (sy_client s) @ sy_s2c s = concat (map (pack_resp C) Q2)" "\<forall>m \<in> set Q2. good_resp C fs s m"
    "sy_open s \<Longrightarrow>
      mset (map fst Q1) + mset (map fst (sy_server_tasks s)) + mset (map fst (sy_running s)) + mset (map fst Q2) =
      mset (map fst (cl_respCallbacks (sy_client s)))"
    by (rule liveE [OF inv]) blast
  have "(co_pac (sy_conn s) @ buf) @ rest = concat (map (pack_req C) Q1)" using Q(1) c2s by simp
  from co_onReceive_stream [OF this, of fs] obtain k l where
    rcv: "co_onReceive C fs (sy_conn s) buf =
       Inr (fold (\<lambda>m s. co_request fs s m) (take k Q1) [], (sy_conn s)\<lparr>co_pac := l\<rparr>)"
    and l: "l @ rest = concat (map (pack_req C) (drop k Q1))" and fin: "rest = [] \<longrightarrow> l = []" by blast
  then show "\<exists>ev co. co_onReceive C fs (sy_conn s) buf = Inr (ev, co)" by blast
  let ?task = "\<lambda>m. (fst m, the (map_of fs (fst (snd m))), snd (snd m))"
  have known: "\<forall>m \<in> set (take k Q1). map_of fs (fst (snd m)) \<noteq> None"
    using Q(2) by (fastforce simp: good_req_def dest: in_set_takeD)
  assume "co_onReceive C fs (sy_conn s) buf = Inr (ev, co)"
  then have ev: "enqueued_calls ev = map ?task (take k Q1)" and co: "co = (sy_conn s)\<lparr>co_pac := l\<rparr>"
    using rcv by (auto simp: co_request_fold [OF known] enqueued_calls_map)
  let ?s = "s\<lparr>sy_conn := co, sy_c2s := rest, sy_server_tasks := sy_server_tasks s @ enqueued_calls ev\<rparr>"
  have sub: "set (sy_calls s) \<subseteq> set (sy_calls ?s)" "sy_served s \<subseteq> sy_served ?s" by auto
  note mono = good_mono [OF sub] good_done_mono [OF sub]
  have task: "good_task C fs ?s (?task m)" if "m \<in> set (take k Q1)" for m
    using that Q(2) by (fastforce simp: good_req_def good_task_def dest: in_set_takeD)
  have "mset (map fst Q1) = mset (map fst (take k Q1)) + mset (map fst (drop k Q1))"
    by (metis append_take_drop_id map_append mset_append)
  then have ids: "mset (map fst (drop k Q1)) + mset (map fst (sy_server_tasks ?s)) = mset (map fst Q1) + mset (map fst (sy_server_tasks s))"
    by (simp add: ev comp_def ac_simps)
  have "live C fs ?s"
  proof (rule liveI [of _ _ "drop k Q1" _ Q2])
    show "co_pac (sy_conn ?s) @ sy_c2s ?s = concat (map (pack_req C) (drop k Q1))" using l by (simp add: co)
    show "\<forall>q \<in> set (drop k Q1). good_req C fs ?s q" using Q(2) mono(1) by (meson in_set_dropD)
    show "\<forall>q \<in> set Q2. good_resp C fs ?s q" using Q(4) mono(5) by blast
    show "mset (map fst (drop k Q1)) + mset (map fst (sy_server_tasks ?s)) + mset (map fst (sy_running ?s)) + mset (map fst Q2) =
        mset (map fst (cl_respCallbacks (sy_client ?s)))" if "sy_open ?s"
      unfolding ids using Q(5) that by simp
  qed (use Q(3) in simp)
  then show "sys_inv C fs ?s"
    using inv mono task fin unfolding sys_inv_def by (auto simp: ev co numbered_def accounted_def settled_def)
qed

lemma inv_run_call:
  assumes inv: "sys_inv C fs s" and tasks: "sy_server_tasks s = xs @ (rid, f, raw) # ys"
  shows "\<exists>g as. deferredRPCCall C f raw = Inr (g, as)"
    and "deferredRPCCall C f raw = Inr (g, as) \<Longrightarrow>
      sys_inv C fs (s\<lparr>sy_server_tasks := xs @ ys, sy_running := sy_running s @ [(rid, g, as)]\<rparr>)"
proof -
  have "good_task C fs s (rid, f, raw)" using inv tasks by (simp add: sys_inv_def)
  then obtain name as0 fut f0 where t: "f = (f0, length as0)" "raw = pack_args C as0"
    "(fut, rid, name, as0) \<in> set (sy_calls s)" "map_of fs name = Some (f0, length as0)"
    by (auto simp: good_task_def)
  have run: "deferredRPCCall C f raw = Inr (f0, as0)"
    using t args_roundtrip [of as0] by (simp add: deferredRPCCall_def deserializeArgs_def)
  then show "\<exists>g as. deferredRPCCall C f raw = Inr (g, as)" by blast
  assume "deferredRPCCall C f raw = Inr (g, as)"
  then have g: "g = f0" "as = as0" using run by auto
  let ?s = "s\<lparr>sy_server_tasks := xs @ ys, sy_running := sy_running s @ [(rid, g, as)]\<rparr>"
  have sub: "set (sy_calls s) \<subseteq> set (sy_calls ?s)" "sy_served s \<subseteq> sy_served ?s" by auto
  note mono = good_mono [OF sub] good_done_mono [OF sub]
  obtain Q1 Q2 where Q: "co_pac (sy_conn s) @ sy_c2s s = concat (map (pack_req C) Q1)" "\<forall>m \<in> set Q1. good_req C fs s m"
    "cl_pac (sy_client s) @ sy_s2c s = concat (map (pack_resp C) Q2)" "\<forall>m \<in> set Q2. good_resp C fs s m"
    "sy_open s \<Longrightarrow>
      mset (map fst Q1) + mset (map fst (sy_server_tasks s)) + mset (map fst (sy_running s)) + mset (map fst Q2) =
      mset (map fst (cl_respCallbacks (sy_client s)))"
    by (rule liveE [OF inv]) blast
  have "live C fs ?s" using Q mono tasks by (intro liveI [of _ _ Q1 _ Q2]) auto
  moreover have "good_run fs ?s (rid, g, as)" using t g by (auto simp: good_run_def)
  ultimately show "sys_inv C fs ?s"
    using inv mono tasks unfolding sys_inv_def by (auto simp: numbered_def accounted_def settled_def)
qed

lemma inv_answer:
  assumes inv: "sys_inv C fs s" and running: "sy_running s = xs @ (rid, g, as) # ys"
  shows "sys_inv C fs (s\<lparr>sy_running := xs @ ys,
      sy_s2c := sy_s2c s @ written (responseCallback C rid (serializeFuture C v)),
      sy_served := insert (rid, g, as, v) (sy_served s)\<rparr>)" (is "sys_inv C fs ?s")
proof -
  let ?m = "(rid, pack_val C v)"
  have sub: "set (sy_calls s) \<subseteq> set (sy_calls ?s)" "sy_served s \<subseteq> sy_served ?s" by auto
  note mono = good_mono [OF sub] good_done_mono [OF sub]
  have "good_run fs s (rid, g, as)" using inv running by (simp add: sys_inv_def)
  then have "\<exists>fut. answered fs ?s fut rid v" by (auto simp: good_run_def answered_def)
  then have m: "good_resp C fs ?s ?m" by (auto simp: good_resp_def)
  have w: "written (responseCallback C rid (serializeFuture C v)) = pack_resp C ?m"
    by (simp add: responseCallback_def serializeFuture_def)
  obtain Q1 Q2 where Q: "co_pac (sy_conn s) @ sy_c2s s = concat (map (pack_req C) Q1)" "\<forall>m \<in> set Q1. good_req C fs s m"
    "cl_pac (sy_client s) @ sy_s2c s = concat (map (pack_resp C) Q2)" "\<forall>m \<in> set Q2. good_resp C fs s m"
    "sy_open s \<Longrightarrow>
      mset (map fst Q1) + mset (map fst (sy_server_tasks s)) + mset (map fst (sy_running s)) + mset (map fst Q2) =
      mset (map fst (cl_respCallbacks (sy_client s)))"
    by (rule liveE [OF inv]) blast
  have "live C fs ?s"
  proof (rule liveI [of _ _ Q1 _ "Q2 @ [?m]"])
    show "cl_pac (sy_client ?s) @ sy_s2c ?s = concat (map (pack_resp C) (Q2 @ [?m]))"
      using Q(3) w by (simp add: append_assoc [symmetric] del: append_assoc)
    show "\<forall>q \<in> set (Q2 @ [?m]). good_resp C fs ?s q" using Q(4) mono(5) m by auto
    show "\<forall>q \<in> set Q1. good_req C fs ?s q" using Q(2) mono(1) by blast
  qed (use Q running in auto)
  moreover have "settled ?s"
    using inv resp.enc_nonempty [of ?m] by (simp add: sys_inv_def settled_def w)
  ultimately show ?thesis
    using inv mono running unfolding sys_inv_def by (auto simp: numbered_def accounted_def)
qed

lemma inv_to_client:
  assumes inv: "sys_inv C fs s" and op: "sy_open s" and s2c: "sy_s2c s = buf @ rest"
  shows "\<exists>ev cl. cl_onReceive C (sy_client s) buf = Inr (ev, cl)"
    and "cl_onReceive C (sy_client s) buf = Inr (ev, cl) \<Longrightarrow>
      sys_inv C fs (s\<lparr>sy_client := cl, sy_s2c := rest, sy_client_tasks := sy_client_tasks s @ enqueued_responses ev\<rparr>)"
proof -
  let ?cbs = "cl_respCallbacks (sy_client s)"
  obtain Q1 Q2 where Q: "co_pac (sy_conn s) @ sy_c2s s = concat (map (pack_req C) Q1)" "\<forall>m \<in> set Q1. good_req C fs s m"
    "cl_pac (sy_client s) @ sy_s2c s = concat (map (pack_resp C) Q2)" "\<forall>m \<in> set Q2. good_resp C fs s m"
    "mset (map fst Q1) + mset (map fst (sy_server_tasks s)) + mset (map fst (sy_running s)) + mset (map fst Q2) =
      mset (map fst ?cbs)"
    by (rule liveE [OF inv]) (use op in blast)
  have "(cl_pac (sy_client s) @ buf) @ rest = concat (map (pack_resp C) Q2)" using Q(3) s2c by simp
  from cl_onReceive_stream [OF this] obtain k l where
    rcv: "cl_onReceive C (sy_client s) buf =
       Inr (fst (fold (\<lambda>m s. cl_response s m) (take k Q2) ([], sy_client s)),
            snd (fold (\<lambda>m s. cl_response s m) (take k Q2) ([] :: 'v rpc_event list, sy_client s))\<lparr>cl_pac := l\<rparr>)"
    and l: "l @ rest = concat (map (pack_resp C) (drop k Q2))" and fin: "rest = [] \<longrightarrow> l = []" by blast
  then show "\<exists>ev cl. cl_onReceive C (sy_client s) buf = Inr (ev, cl)" by blast
  let ?ms = "take k Q2"
  let ?keep = "filter (\<lambda>e. fst e \<notin> fst ` set ?ms) ?cbs" and ?cb = "\<lambda>m. the (map_of ?cbs (fst m))"
  let ?others = "map fst (drop k Q2) @ map fst Q1 @ map fst (sy_server_tasks s) @ map fst (sy_running s)"
  have split: "mset (map fst Q2) = mset (map fst ?ms) + mset (map fst (drop k Q2))"
    by (metis append_take_drop_id map_append mset_append)
  have eq: "mset (map fst ?cbs) = mset (map fst ?ms @ ?others)"
    unfolding Q(5) [symmetric] split by (simp add: ac_simps)
  have "distinct (map fst ?cbs)" using inv by (simp add: sys_inv_def map_ok_distinct)
  note taken = callbacks_taken [OF this eq]
  assume "cl_onReceive C (sy_client s) buf = Inr (ev, cl)"
  then have ev: "enqueued_responses ev = map (\<lambda>m. (?cb m, snd m)) ?ms"
    and cl: "cl = (sy_client s)\<lparr>cl_respCallbacks := ?keep, cl_pac := l\<rparr>"
    using rcv by (auto simp: cl_response_fold [OF taken(1,2)] enqueued_responses_map)
  let ?s = "s\<lparr>sy_client := cl, sy_s2c := rest, sy_client_tasks := sy_client_tasks s @ enqueued_responses ev\<rparr>"
  have same: "set (sy_calls s) \<subseteq> set (sy_calls ?s)" "sy_served s \<subseteq> sy_served ?s" by auto
  note mono = good_mono [OF same] good_done_mono [OF same]
  have "good_delivery C fs s (?cb m, snd m)" if m: "m \<in> set ?ms" for m
    using response_reaches_call [OF inv, of m "?cb m"] Q(4) in_set_takeD [OF m] taken(2) m by force
  then have delivery: "\<forall>d \<in> set (sy_client_tasks ?s). good_delivery C fs ?s d"
    using inv mono(6) by (auto simp: ev sys_inv_def)
  have "mset (map fst Q1) + mset (map fst (sy_server_tasks s)) + mset (map fst (sy_running s)) + mset (map fst (drop k Q2)) =
      mset (map fst ?keep)"
    unfolding taken(3) by (simp add: ac_simps)
  then have "live C fs ?s"
    using l Q mono by (intro liveI [of _ _ Q1 _ "drop k Q2"]) (auto simp: cl dest: in_set_dropD)
  moreover have "accounted ?s"
    using inv taken(4) by (simp add: accounted_def sys_inv_def cl ev comp_def ac_simps)
  moreover have "map_ok ?keep" using inv by (auto simp: sys_inv_def map_ok_def sorted_wrt_map intro: sorted_wrt_filter)
  moreover have "settled ?s" using inv op fin by (simp add: sys_inv_def settled_def cl)
  ultimately show "sys_inv C fs ?s"
    using inv mono delivery unfolding sys_inv_def by (auto simp: cl numbered_def)
qed

lemma inv_run_response:
  assumes inv: "sys_inv C fs s" and tasks: "sy_client_tasks s = xs @ (fut, raw) # ys"
  shows "\<exists>e. deserializeFuture C fut (Some raw) = Inr e"
    and "deserializeFuture C fut (Some raw) = Inr e \<Longrightarrow>
      sys_inv C fs (s\<lparr>sy_client_tasks := xs @ ys, sy_done := sy_done s @ futures_set [e]\<rparr>)"
proof -
  have "good_delivery C fs s (fut, raw)" using inv tasks by (simp add: sys_inv_def)
  then obtain rid v where v: "raw = pack_val C v" "answered fs s fut rid v" by (auto simp: good_delivery_def)
  then have eq: "deserializeFuture C fut (Some raw) = Inr (FutureSet fut (Got v))"
    by (simp add: deserializeFuture_def val_roundtrip)
  then show "\<exists>e. deserializeFuture C fut (Some raw) = Inr e" by blast
  assume "deserializeFuture C fut (Some raw) = Inr e"
  then have e: "futures_set [e] = [(fut, Got v)]" using eq by auto
  let ?s = "s\<lparr>sy_client_tasks := xs @ ys, sy_done := sy_done s @ futures_set [e]\<rparr>"
  have same: "set (sy_calls s) \<subseteq> set (sy_calls ?s)" "sy_served s \<subseteq> sy_served ?s" by auto
  note mono = good_mono [OF same] good_done_mono [OF same]
  have "good_done fs ?s (fut, Got v)" unfolding good_done_def using mono(4) [OF v(2)] by auto
  moreover have "live C fs ?s"
    by (rule liveE [OF inv], rule liveI) (use mono in auto)
  moreover have "accounted ?s" using inv tasks by (simp add: accounted_def sys_inv_def e)
  ultimately show "sys_inv C fs ?s"
    using inv mono tasks unfolding sys_inv_def by (auto simp: numbered_def settled_def e)
qed

lemma inv_disconnect:
  assumes inv: "sys_inv C fs s" and ev: "cl_disconnect C (sy_client s) = Inr (ev, cl)"
  shows "sys_inv C fs (s\<lparr>sy_client := cl, sy_open := False, sy_done := sy_done s @ futures_set ev\<rparr>)" (is "sys_inv C fs ?s")
proof -
  let ?cbs = "cl_respCallbacks (sy_client s)"
  have set: "futures_set ev = map (\<lambda>i. (snd i, Aborted)) ?cbs" and cl: "cl = (sy_client s)\<lparr>cl_respCallbacks := []\<rparr>"
    using ev by (auto simp: cl_disconnect_eq futures_set_append futures_set_aborts)
  have same: "set (sy_calls s) \<subseteq> set (sy_calls ?s)" "sy_served s \<subseteq> sy_served ?s" by auto
  note mono = good_mono [OF same] good_done_mono [OF same]
  have "live C fs ?s"
    by (rule liveE [OF inv], rule liveI) (use mono in \<open>auto simp: cl\<close>)
  moreover have "accounted ?s" using inv by (simp add: accounted_def sys_inv_def cl set comp_def ac_simps)
  moreover have "\<forall>d \<in> set (sy_done ?s). good_done fs ?s d"
    using inv mono by (auto simp: sys_inv_def set) (auto simp: good_done_def)
  ultimately show ?thesis
    using inv mono unfolding sys_inv_def by (auto simp: cl numbered_def settled_def map_ok_def)
qed

lemma inv_step:
  assumes "rpc_step C fs s s'" and inv: "sys_inv C fs s"
  shows "sys_inv C fs s'"
  using assms(1)
proof cases
  case call
  with inv_call [OF inv] show ?thesis by blast
next
  case to_server
  with inv_to_server(2) [OF inv] show ?thesis by blast
next
  case run_call
  with inv_run_call(2) [OF inv] show ?thesis by blast
next
  case answer
  with inv_answer [OF inv] show ?thesis by blast
next
  case to_client
  with inv_to_client(2) [OF inv] show ?thesis by blast
next
  case run_response
  with inv_run_response(2) [OF inv] show ?thesis by blast
next
  case disconnect
  with inv_disconnect [OF inv] show ?thesis by blast
qed

lemma inv_start: "sys_inv C fs rpc_start"
proof -
  have "live C fs rpc_start"
    by (rule liveI [of _ _ "[]" _ "[]"]) (simp_all add: rpc_start_def new_client_def new_conn_def)
  then show ?thesis
    by (simp add: sys_inv_def numbered_def accounted_def settled_def rpc_start_def new_client_def new_conn_def map_ok_def)
qed

lemma reach_inv: "rpc_reach C fs s \<Longrightarrow> sys_inv C fs s"
  by (induction rule: rpc_reach.induct) (auto intro: inv_start inv_step)

lemma all_answered_when_idle:
  assumes "rpc_reach C fs s" and "sy_open s" and "sy_c2s s = []" and "sy_s2c s = []" and "sy_server_tasks s = []"
    and "sy_running s = []" and "sy_client_tasks s = []"
  shows "mset (map fst (sy_done s)) = mset (map fst (sy_calls s)) \<and> (\<forall>d \<in> set (sy_done s). snd d \<noteq> Aborted)"
proof -
  note inv = reach_inv [OF assms(1)]
  obtain Q1 Q2 where Q: "co_pac (sy_conn s) @ sy_c2s s = concat (map (pack_req C) Q1)"
    "cl_pac (sy_client s) @ sy_s2c s = concat (map (pack_resp C) Q2)"
    "mset (map fst Q1) + mset (map fst (sy_server_tasks s)) + mset (map fst (sy_running s)) + mset (map fst Q2) =
      mset (map fst (cl_respCallbacks (sy_client s)))"
    by (rule liveE [OF inv]) (use assms(2) in blast)
  have "concat (map (pack_req C) Q1) = []" "concat (map (pack_resp C) Q2) = []"
    using Q(1,2) inv assms(3,4) by (simp_all add: sys_inv_def settled_def)
  then have "\<forall>m \<in> set Q1. pack_req C m = []" "\<forall>m \<in> set Q2. pack_resp C m = []" by simp_all
  then have "Q1 = []" "Q2 = []"
    using req.enc_nonempty resp.enc_nonempty by (metis list.set_intros(1) list.exhaust)+
  then have "cl_respCallbacks (sy_client s) = []" using Q(3) assms(5,6) by simp
  then have "mset (map fst (sy_done s)) = mset (map fst (sy_calls s))"
    using inv_parts(2) [OF inv] assms(7) by (simp add: accounted_def)
  moreover have "\<forall>d \<in> set (sy_done s). snd d \<noteq> Aborted"
    using inv assms(2) by (auto simp: sys_inv_def good_done_def)
  ultimately show ?thesis by blast
qed

lemma all_settled_when_closed:
  assumes "rpc_reach C fs s" and "\<not> sy_open s" and "sy_client_tasks s = []"
  shows "mset (map fst (sy_done s)) = mset (map fst (sy_calls s))"
  using inv_parts(2,3) [OF reach_inv [OF assms(1)]] assms(2,3) by (simp add: settled_def accounted_def)

lemma set_at_most_once:
  assumes "rpc_reach C fs s"
  shows "distinct (map fst (sy_done s)) \<and> fst ` set (sy_done s) \<subseteq> fst ` set (sy_calls s)"
proof -
  note inv = reach_inv [OF assms]
  let ?rest = "map snd (cl_respCallbacks (sy_client s)) @ map fst (sy_client_tasks s)"
  have eq: "mset (?rest @ map fst (sy_done s)) = mset (map fst (sy_calls s))"
    using inv_parts(2) [OF inv] by (simp add: accounted_def add.assoc)
  have "distinct (map fst (sy_calls s))" using inv by (simp add: sys_inv_def numbered_def)
  then have "distinct (?rest @ map fst (sy_done s))" using mset_eq_imp_distinct_iff [OF eq] by blast
  moreover have "set (map fst (sy_done s)) \<subseteq> set (map fst (sy_calls s))"
    using mset_eq_setD [OF eq] by auto
  ultimately show ?thesis by simp
qed

end

subsection \<open>A concrete execution\<close>

text \<open>One call of a function of one parameter, delivered to the server in two pieces.\<close>

definition example_funcs :: funcs where
  "example_funcs = [([CHR 0x01], (1, 1))]"

abbreviation example_req :: bytes where
  "example_req \<equiv> pack_req unary (0, [CHR 0x01], [1, 1, 0])"

abbreviation example_resp :: bytes where
  "example_resp \<equiv> pack_resp unary (0, [1, 1, 1, 0])"

definition example_called :: "nat rpc_sys" where
  "example_called = rpc_start\<lparr>sy_client := new_client\<lparr>cl_reqId := 1, cl_respCallbacks := [(0, 7)]\<rparr>,
     sy_c2s := example_req, sy_calls := [(7, 0, [CHR 0x01], [2])]\<rparr>"

definition example_done :: "nat rpc_sys" where
  "example_done = rpc_start\<lparr>sy_client := new_client\<lparr>cl_reqId := 1\<rparr>, sy_calls := [(7, 0, [CHR 0x01], [2])],
     sy_served := {(0, 1, [2], 3)}, sy_done := [(7, Got 3)]\<rparr>"

lemma rpc_reach_stepI: "rpc_reach C fs s \<Longrightarrow> rpc_step C fs s t \<Longrightarrow> t = s' \<Longrightarrow> rpc_reach C fs s'"
  using rpc_reach.step by blast

lemma example_called_reach: "rpc_reach unary example_funcs example_called"
proof (rule rpc_reach_stepI [OF rpc_reach.start])
  have "cl_call unary new_client 7 [CHR 0x01] [2] =
      ([Write example_req], new_client\<lparr>cl_reqId := 1, cl_respCallbacks := [(0, 7)]\<rparr>)" by code_simp
  then show "rpc_step unary example_funcs rpc_start
      (rpc_start\<lparr>sy_client := new_client\<lparr>cl_reqId := 1, cl_respCallbacks := [(0, 7)]\<rparr>,
         sy_c2s := sy_c2s (rpc_start :: nat rpc_sys) @ written [Write example_req :: nat rpc_event],
         sy_calls := sy_calls rpc_start @ [(7, cl_reqId (sy_client (rpc_start :: nat rpc_sys)), [CHR 0x01], [2])]\<rparr>)"
    by (intro rpc_step.call [where f = 1]) (simp_all add: rpc_start_def example_funcs_def new_client_def)
qed (simp add: example_called_def rpc_start_def new_client_def)

lemma example_done_reach: "rpc_reach unary example_funcs example_done"
proof -
  let ?cl = "new_client\<lparr>cl_reqId := 1, cl_respCallbacks := [(0, 7)]\<rparr>"
  let ?a = "take 5 example_req" and ?b = "drop 5 example_req"
  define s2 where "s2 = example_called\<lparr>sy_conn := \<lparr>co_pac = ?a, co_disconnectCallback = None\<rparr>, sy_c2s := ?b\<rparr>"
  define s3 where "s3 = example_called\<lparr>sy_c2s := [], sy_server_tasks := [(0, (1, 1), [1, 1, 0])]\<rparr>"
  define s4 where "s4 = example_called\<lparr>sy_c2s := [], sy_running := [(0, 1, [2])]\<rparr>"
  define s5 where "s5 = example_called\<lparr>sy_c2s := [], sy_s2c := example_resp, sy_served := {(0, 1, [2], 3)}\<rparr>"
  define s6 where "s6 = example_done\<lparr>sy_client_tasks := [(7, [1, 1, 1, 0])], sy_done := []\<rparr>"
  note defs = s2_def s3_def s4_def s5_def s6_def example_called_def example_done_def rpc_start_def
  have r: "co_onReceive unary example_funcs new_conn ?a = Inr ([], \<lparr>co_pac = ?a, co_disconnectCallback = None\<rparr>)"
    "co_onReceive unary example_funcs \<lparr>co_pac = ?a, co_disconnectCallback = None\<rparr> ?b =
      Inr ([EnqueueCall 0 (1, 1) [1, 1, 0]], new_conn)"
    "deferredRPCCall unary (1, 1) [1, 1, 0] = Inr (1, [2])"
    "responseCallback unary 0 (serializeFuture unary 3) = [Write example_resp]"
    "cl_onReceive unary ?cl example_resp = Inr ([EnqueueResponse 7 [1, 1, 1, 0]], new_client\<lparr>cl_reqId := 1\<rparr>)"
    "deserializeFuture unary 7 (Some [1, 1, 1, 0]) = Inr (FutureSet 7 (Got 3))"
    "?a \<noteq> []" "?b \<noteq> []" "example_resp \<noteq> []" by code_simp+
  have "rpc_step unary example_funcs example_called
      (example_called\<lparr>sy_conn := \<lparr>co_pac = ?a, co_disconnectCallback = None\<rparr>, sy_c2s := ?b,
         sy_server_tasks := sy_server_tasks example_called @ enqueued_calls ([] :: nat rpc_event list)\<rparr>)"
  proof (rule rpc_step.to_server [OF _ r(7)])
    show "sy_c2s example_called = ?a @ ?b" by (simp only: append_take_drop_id) (simp add: example_called_def)
    show "co_onReceive unary example_funcs (sy_conn example_called) ?a =
        Inr ([], \<lparr>co_pac = ?a, co_disconnectCallback = None\<rparr>)"
      using r(1) by (simp add: example_called_def rpc_start_def)
  qed
  then have 2: "rpc_reach unary example_funcs s2"
    by (rule rpc_reach_stepI [OF example_called_reach]) (simp add: defs)
  have 3: "rpc_reach unary example_funcs s3"
    by (rule rpc_reach_stepI [OF 2 rpc_step.to_server [OF _ r(8), where rest = "[]" and
         ev = "[EnqueueCall 0 (1, 1) [1, 1, 0] :: nat rpc_event]" and co = new_conn]])
       (use r(2) in \<open>simp_all add: defs\<close>)
  have 4: "rpc_reach unary example_funcs s4"
    by (rule rpc_reach_stepI [OF 3 rpc_step.run_call [OF _ r(3), where xs = "[]" and ys = "[]" and rid = 0]])
       (simp_all add: defs)
  have 5: "rpc_reach unary example_funcs s5"
    by (rule rpc_reach_stepI [OF 4 rpc_step.answer [where xs = "[]" and ys = "[]" and rid = 0 and g = 1 and as = "[2]" and v = 3]])
       (use r(4) in \<open>simp_all add: defs\<close>)
  have 6: "rpc_reach unary example_funcs s6"
    by (rule rpc_reach_stepI [OF 5 rpc_step.to_client [OF _ _ r(9), where rest = "[]" and
         ev = "[EnqueueResponse 7 [1, 1, 1, 0] :: nat rpc_event]" and cl = "new_client\<lparr>cl_reqId := 1\<rparr>"]])
       (use r(5) in \<open>simp_all add: defs\<close>)
  show ?thesis
    by (rule rpc_reach_stepI [OF 6 rpc_step.run_response [OF _ r(6), where xs = "[]" and ys = "[]"]])
       (simp_all add: defs)
qed

end
