(* ===== verification/Rpc_Correct.thy ===== *)
theory Rpc_Correct
  imports Rpc_System
begin

section \<open>Correctness of remote procedure calls\<close>

text \<open>
  The properties of the client and connection of \<open>Rpc_System\<close>, over every reachable state. The
  encoding \<open>C\<close> is any one that satisfies \<open>msgpack\<close>; the witnesses use \<open>unary\<close>. A step of
  \<open>rpc_work\<close> is one that the system makes by itself: a delivery, a task, an answer.
\<close>

definition rpc_work :: "'v codec \<Rightarrow> funcs \<Rightarrow> 'v rpc_sys \<Rightarrow> 'v rpc_sys \<Rightarrow> bool" where
  "rpc_work C fs s s' \<longleftrightarrow> rpc_step C fs s s' \<and> sy_calls s' = sy_calls s \<and> sy_open s' = sy_open s"

definition rpc_idle :: "'v rpc_sys \<Rightarrow> bool" where
  "rpc_idle s \<longleftrightarrow> sy_c2s s = [] \<and> sy_s2c s = [] \<and> sy_server_tasks s = [] \<and> sy_running s = [] \<and> sy_client_tasks s = []"

text \<open>
  A message has at least one byte, so a request in the byte stream weighs more than the task it
  becomes, and that more than the running function. An answer may be of any length, so the bytes
  to the client come after these in the order.
\<close>

definition server_load :: "'v rpc_sys \<Rightarrow> nat" where
  "server_load s = 3 * (length (co_pac (sy_conn s)) + length (sy_c2s s)) + 2 * length (sy_server_tasks s) +
     length (sy_running s)"

definition client_load :: "'v rpc_sys \<Rightarrow> nat" where
  "client_load s = 2 * (length (cl_pac (sy_client s)) + length (sy_s2c s)) + length (sy_client_tasks s)"

definition work_order :: "('v rpc_sys \<times> 'v rpc_sys) set" where
  "work_order = measures [server_load, \<lambda>s. length (sy_c2s s), client_load, \<lambda>s. length (sy_s2c s)]"

context framing
begin

lemma frames_length: "length ms \<le> length (concat (map enc ms))"
proof (induction ms)
  case (Cons m ms)
  moreover have "0 < length (enc m)" using enc_nonempty by simp
  ultimately show ?case by (simp only: list.map concat.simps length_append list.size)
qed simp

lemma frames_taken:
  assumes "p @ rest = concat (map enc ms)" and "l @ rest = concat (map enc (drop k ms))"
  shows "length (take k ms) + length l \<le> length p"
proof -
  have "concat (map enc ms) = concat (map enc (take k ms)) @ concat (map enc (drop k ms))"
    by (metis append_take_drop_id concat_append map_append)
  then have "length (p @ rest) = length (concat (map enc (take k ms))) + length (l @ rest)"
    using assms by (metis length_append)
  then show ?thesis using frames_length [of "take k ms"] by simp
qed

end

lemma enqueued_calls_append: "enqueued_calls (ev @ ev') = enqueued_calls ev @ enqueued_calls ev'"
  by (induction ev rule: enqueued_calls.induct) simp_all

lemma enqueued_responses_append: "enqueued_responses (ev @ ev') = enqueued_responses ev @ enqueued_responses ev'"
  by (induction ev rule: enqueued_responses.induct) simp_all

lemma enqueued_calls_bound:
  "length (enqueued_calls (fold (\<lambda>m s. co_request fs s m) ms ev)) \<le> length (enqueued_calls ev) + length ms"
proof (induction ms arbitrary: ev)
  case (Cons m ms)
  have "length (enqueued_calls (co_request fs ev m)) \<le> Suc (length (enqueued_calls ev))"
    by (cases m) (simp add: co_request_def enqueued_calls_append split: option.split)
  then show ?case using Cons.IH [of "co_request fs ev m"] by simp
qed simp

lemma enqueued_responses_bound:
  "length (enqueued_responses (fst (fold (\<lambda>m s. cl_response s m) ms st))) \<le>
     length (enqueued_responses (fst st)) + length ms"
proof (induction ms arbitrary: st)
  case (Cons m ms)
  have "length (enqueued_responses (fst (cl_response st m))) \<le> Suc (length (enqueued_responses (fst st)))"
    by (cases m; cases st) (simp add: cl_response_def enqueued_responses_append split: option.split)
  then show ?case using Cons.IH [of "cl_response st m"] by simp
qed simp

context msgpack
begin

lemma to_server_decreases:
  assumes inv: "sys_inv C fs s" and c2s: "sy_c2s s = buf @ rest" "buf \<noteq> []"
    and rcv: "co_onReceive C fs (sy_conn s) buf = Inr (ev, co)"
  shows "(s\<lparr>sy_conn := co, sy_c2s := rest, sy_server_tasks := sy_server_tasks s @ enqueued_calls ev\<rparr>, s) \<in> work_order"
proof -
  obtain Q1 where Q: "co_pac (sy_conn s) @ sy_c2s s = concat (map (pack_req C) Q1)"
    by (rule liveE [OF inv]) blast
  then have Q': "(co_pac (sy_conn s) @ buf) @ rest = concat (map (pack_req C) Q1)" using c2s by simp
  from co_onReceive_stream [OF this, of fs] obtain k l where
    eq: "co_onReceive C fs (sy_conn s) buf =
       Inr (fold (\<lambda>m s. co_request fs s m) (take k Q1) [], (sy_conn s)\<lparr>co_pac := l\<rparr>)"
    and l: "l @ rest = concat (map (pack_req C) (drop k Q1))" by blast
  then have ev: "ev = fold (\<lambda>m s. co_request fs s m) (take k Q1) []" and co: "co_pac co = l"
    using rcv by simp_all
  have "length (take k Q1) + length l \<le> length (co_pac (sy_conn s) @ buf)"
    by (rule req.frames_taken [OF Q' l])
  moreover have "length (enqueued_calls ev) \<le> length (take k Q1)"
    using enqueued_calls_bound [of fs "take k Q1" "[]"] by (simp only: ev enqueued_calls.simps list.size add_0)
  ultimately have "length l + length (enqueued_calls ev) \<le> length (co_pac (sy_conn s)) + length buf"
    unfolding length_append by linarith
  then show ?thesis
    using c2s co by (simp add: work_order_def server_load_def) arith
qed

lemma to_client_decreases:
  assumes inv: "sys_inv C fs s" and s2c: "sy_s2c s = buf @ rest" "buf \<noteq> []"
    and rcv: "cl_onReceive C (sy_client s) buf = Inr (ev, cl)"
  shows "(s\<lparr>sy_client := cl, sy_s2c := rest, sy_client_tasks := sy_client_tasks s @ enqueued_responses ev\<rparr>, s) \<in> work_order"
proof -
  obtain Q2 where Q: "cl_pac (sy_client s) @ sy_s2c s = concat (map (pack_resp C) Q2)"
    by (rule liveE [OF inv]) blast
  then have Q': "(cl_pac (sy_client s) @ buf) @ rest = concat (map (pack_resp C) Q2)" using s2c by simp
  let ?st = "([] :: 'v rpc_event list, sy_client s)"
  from cl_onReceive_stream [OF Q'] obtain k l where
    eq: "cl_onReceive C (sy_client s) buf =
       Inr (fst (fold (\<lambda>m s. cl_response s m) (take k Q2) ?st),
            snd (fold (\<lambda>m s. cl_response s m) (take k Q2) ?st)\<lparr>cl_pac := l\<rparr>)"
    and l: "l @ rest = concat (map (pack_resp C) (drop k Q2))" by blast
  then have ev: "ev = fst (fold (\<lambda>m s. cl_response s m) (take k Q2) ?st)" and cl: "cl_pac cl = l"
    using rcv by simp_all
  have "length (take k Q2) + length l \<le> length (cl_pac (sy_client s) @ buf)"
    by (rule resp.frames_taken [OF Q' l])
  moreover have "length (enqueued_responses ev) \<le> length (take k Q2)"
    using enqueued_responses_bound [of "take k Q2" ?st] by (simp only: ev fst_conv enqueued_responses.simps list.size add_0)
  ultimately have "length l + length (enqueued_responses ev) \<le> length (cl_pac (sy_client s)) + length buf"
    unfolding length_append by linarith
  then show ?thesis
    using s2c cl by (simp add: work_order_def client_load_def server_load_def) arith
qed

lemma work_decreases:
  assumes "rpc_work C fs s s'" and inv: "sys_inv C fs s"
  shows "(s', s) \<in> work_order"
proof -
  have same: "sy_calls s' = sy_calls s" "sy_open s' = sy_open s" using assms(1) by (simp_all add: rpc_work_def)
  have "rpc_step C fs s s'" using assms(1) by (simp add: rpc_work_def)
  then show ?thesis
  proof cases
    case to_server
    with to_server_decreases [OF inv] show ?thesis by blast
  next
    case to_client
    with to_client_decreases [OF inv] show ?thesis by blast
  next
    case run_call
    then show ?thesis by (simp add: work_order_def server_load_def)
  next
    case answer
    then show ?thesis by (simp add: work_order_def server_load_def)
  next
    case run_response
    then show ?thesis by (simp add: work_order_def server_load_def client_load_def)
  qed (use same in auto)
qed

lemma work_terminates: "wf {(s', s). rpc_reach C fs s \<and> rpc_work C fs s s'}"
proof (rule wf_subset)
  show "wf work_order" by (simp add: work_order_def)
  show "{(s', s). rpc_reach C fs s \<and> rpc_work C fs s s'} \<subseteq> work_order"
    using work_decreases reach_inv by auto
qed

lemma progress:
  assumes "rpc_reach C fs s" and op: "sy_open s" and "\<not> rpc_idle s"
  shows "\<exists>s'. rpc_work C fs s s'"
proof -
  note inv = reach_inv [OF assms(1)]
  from assms(3) consider "sy_c2s s \<noteq> []" | "sy_s2c s \<noteq> []" | "sy_server_tasks s \<noteq> []" | "sy_running s \<noteq> []"
    | "sy_client_tasks s \<noteq> []" by (auto simp: rpc_idle_def)
  then show ?thesis
  proof cases
    case 1
    have "sy_c2s s = sy_c2s s @ []" by simp
    from inv_to_server(1) [OF inv this] rpc_step.to_server [OF this 1] show ?thesis
      by (fastforce simp: rpc_work_def)
  next
    case 2
    have "sy_s2c s = sy_s2c s @ []" by simp
    from inv_to_client(1) [OF inv op this] rpc_step.to_client [OF op this 2] show ?thesis
      by (fastforce simp: rpc_work_def)
  next
    case 3
    then obtain rid f raw ys where "sy_server_tasks s = [] @ (rid, f, raw) # ys"
      by (metis append_Nil list.exhaust prod_cases3)
    from inv_run_call(1) [OF inv this] rpc_step.run_call [OF this] show ?thesis
      by (fastforce simp: rpc_work_def)
  next
    case 4
    then obtain rid g as ys where "sy_running s = [] @ (rid, g, as) # ys"
      by (metis append_Nil list.exhaust prod_cases3)
    from rpc_step.answer [OF this] show ?thesis by (fastforce simp: rpc_work_def)
  next
    case 5
    then obtain fut raw ys where "sy_client_tasks s = [] @ (fut, raw) # ys"
      by (metis append_Nil list.exhaust surj_pair)
    from inv_run_response(1) [OF inv this] rpc_step.run_response [OF this] show ?thesis
      by (fastforce simp: rpc_work_def)
  qed
qed

lemma work_reach: "(rpc_work C fs)\<^sup>*\<^sup>* s s' \<Longrightarrow> rpc_reach C fs s \<Longrightarrow>
    rpc_reach C fs s' \<and> sy_calls s' = sy_calls s \<and> sy_open s' = sy_open s"
  by (induction rule: rtranclp_induct) (auto simp: rpc_work_def intro: rpc_reach.step)

lemma work_ends: "rpc_reach C fs s \<Longrightarrow> \<exists>s'. (rpc_work C fs)\<^sup>*\<^sup>* s s' \<and> (\<nexists>t. rpc_work C fs s' t)"
proof (induction s rule: wf_induct_rule [OF work_terminates [of fs]])
  case (1 s)
  show ?case
  proof (cases "\<exists>t. rpc_work C fs s t")
    case True
    then obtain t where t: "rpc_work C fs s t" by blast
    then have "rpc_reach C fs t" using 1(2) by (auto simp: rpc_work_def intro: rpc_reach.step)
    with 1 t obtain s' where "(rpc_work C fs)\<^sup>*\<^sup>* t s'" "\<nexists>t. rpc_work C fs s' t" by blast
    with t show ?thesis by (meson converse_rtranclp_into_rtranclp)
  qed blast
qed

end
text \<open>
  C7. A future that holds a value holds the answer to its own call: the value the registered
  function of that name gave for exactly these arguments, however requests and responses were
  split, merged and reordered on the way.\<close>

theorem answers_match_calls:
  assumes "msgpack C" and "rpc_reach C fs s" and "(fut, Got v) \<in> set (sy_done s)"
  shows "\<exists>rid name as f. (fut, rid, name, as) \<in> set (sy_calls s) \<and> map_of fs name = Some (f, length as) \<and>
     (rid, f, as, v) \<in> sy_served s"
proof -
  have "good_done fs s (fut, Got v)"
    using msgpack.reach_inv [OF assms(1,2)] assms(3) by (auto simp: sys_inv_def)
  then show ?thesis by (auto simp: good_done_def answered_def)
qed

theorem answers_match_calls_witness:
  "\<exists>rid name as f. (7, rid, name, as) \<in> set (sy_calls example_done) \<and>
     map_of example_funcs name = Some (f, length as) \<and> (rid, f, as, 3) \<in> sy_served example_done"
  by (rule answers_match_calls [OF unary.msgpack_axioms example_done_reach]) (simp add: example_done_def)

text \<open>
  C26. A future is set at most once, and only futures that a call returned are set: a future has one
  entry in the history of \<open>set\<close> calls, even when \<open>disconnect\<close> aborts the calls that are pending.\<close>

theorem futures_set_once:
  assumes "msgpack C" and "rpc_reach C fs s"
  shows "distinct (map fst (sy_done s)) \<and> fst ` set (sy_done s) \<subseteq> fst ` set (sy_calls s)"
  by (rule msgpack.set_at_most_once [OF assms])

theorem futures_set_once_witness:
  "distinct (map fst (sy_done example_done)) \<and> fst ` set (sy_done example_done) \<subseteq> fst ` set (sy_calls example_done)"
  by (rule futures_set_once [OF unary.msgpack_axioms example_done_reach])

text \<open>
  While the client is connected and something is in flight the system can go on: a receive
  handler never raises on the bytes in flight, a function's arguments unpack, a result converts.\<close>

lemma rpc_progress:
  assumes "msgpack C" and "rpc_reach C fs s" and "sy_open s" and "\<not> rpc_idle s"
  shows "\<exists>s'. rpc_work C fs s s'"
  by (rule msgpack.progress [OF assms])

text \<open>What a connection does with the pieces that its socket delivers, one after the other.\<close>

definition receive_all ::
  "'v codec \<Rightarrow> funcs \<Rightarrow> rpc_conn \<Rightarrow> bytes list \<Rightarrow> ('v rpc_event list \<times> rpc_conn) res" where
  "receive_all C fs co bufs =
     rfold (\<lambda>s buf. rbind (co_onReceive C fs (snd s) buf) (\<lambda>r. Inr (fst s @ fst r, snd r))) ([], co) bufs"

text \<open>What one request makes the connection do.\<close>

definition dispatched :: "funcs \<Rightarrow> u64 \<times> string \<times> bytes \<Rightarrow> 'v rpc_event" where
  "dispatched fs m = (case m of (rid, name, raw) \<Rightarrow>
     (case map_of fs name of Some f \<Rightarrow> EnqueueCall rid f raw | None \<Rightarrow> EnqueueDisconnect))"

lemma co_request_dispatched: "fold (\<lambda>m s. co_request fs s m) ms ev = ev @ map (dispatched fs) ms"
  by (induction ms arbitrary: ev) (auto simp: co_request_def dispatched_def split: option.split)

context msgpack
begin

lemma receive_pieces:
  "co_pac co @ concat bufs = concat (map (pack_req C) ms) \<Longrightarrow> (concat bufs = [] \<Longrightarrow> ms = []) \<Longrightarrow>
   rfold (\<lambda>s buf. rbind (co_onReceive C fs (snd s) buf) (\<lambda>r. Inr (fst s @ fst r, snd r))) (ev, co) bufs =
     Inr (ev @ map (dispatched fs) ms, co\<lparr>co_pac := []\<rparr>)"
proof (induction bufs arbitrary: co ms ev)
  case Nil
  then have "ms = []" "co_pac co = []" by simp_all
  then show ?case by simp
next
  case (Cons buf bufs)
  have "(co_pac co @ buf) @ concat bufs = concat (map (pack_req C) ms)" using Cons.prems(1) by simp
  from co_onReceive_stream [OF this, of fs] obtain k l where
    eq: "co_onReceive C fs co buf = Inr (map (dispatched fs) (take k ms), co\<lparr>co_pac := l\<rparr>)"
    and l: "l @ concat bufs = concat (map (pack_req C) (drop k ms))" "concat bufs = [] \<longrightarrow> k = length ms"
    by (auto simp: co_request_dispatched)
  have "rfold (\<lambda>s buf. rbind (co_onReceive C fs (snd s) buf) (\<lambda>r. Inr (fst s @ fst r, snd r)))
      (ev @ map (dispatched fs) (take k ms), co\<lparr>co_pac := l\<rparr>) bufs =
    Inr ((ev @ map (dispatched fs) (take k ms)) @ map (dispatched fs) (drop k ms), co\<lparr>co_pac := l\<rparr>\<lparr>co_pac := []\<rparr>)"
    by (rule Cons.IH) (use l in auto)
  then show ?case by (simp add: eq map_append [symmetric] del: map_append)
qed

end

text \<open>
  C16. Requests survive any fragmentation: however the bytes of a sequence of requests are cut into
  the pieces the socket delivers, empty ones included, the receive loops end without an exception,
  exactly one task is enqueued for each request, in order and with its own number, function and
  argument bytes, one disconnection for each request of a method that is not registered, and no byte
  is left over.\<close>

theorem requests_survive_fragmentation:
  assumes "msgpack C" and "co_pac co = []" and "concat bufs = concat (map (pack_req C) ms)"
  shows "receive_all C fs co bufs = Inr (map (dispatched fs) ms, co)"
proof -
  have "ms = []" if "concat bufs = []"
  proof (cases ms)
    case (Cons m ms')
    then have "pack_req C m = []" using that assms(3) by simp
    then show ?thesis using framing.enc_nonempty [OF msgpack.axioms(1) [OF assms(1)]] by simp
  qed simp
  moreover have "co_pac co @ concat bufs = concat (map (pack_req C) ms)" using assms(2,3) by (simp only: append_Nil)
  ultimately have "receive_all C fs co bufs = Inr ([] @ map (dispatched fs) ms, co\<lparr>co_pac := []\<rparr>)"
    unfolding receive_all_def by (intro msgpack.receive_pieces [OF assms(1)])
  moreover have "co\<lparr>co_pac := []\<rparr> = co" using assms(2) by (cases co) simp
  ultimately show ?thesis by (simp only: append_Nil)
qed

theorem requests_survive_fragmentation_witness:
  "\<exists>bufs. length bufs = 3 \<and> receive_all unary example_funcs new_conn bufs =
     Inr ([EnqueueCall 4 (1, 1) [7], EnqueueDisconnect], new_conn)"
proof -
  let ?ms = "[(4, [CHR 0x01], [7]), (5, [CHR 0x02], [])] :: (u64 \<times> string \<times> bytes) list"
  let ?all = "concat (map (pack_req unary) ?ms)"
  let ?bufs = "[take 1 ?all, [], drop 1 ?all]"
  have "concat ?bufs = ?all" by (simp only: concat.simps append_Nil append_Nil2 append_take_drop_id)
  from requests_survive_fragmentation [OF unary.msgpack_axioms _ this, of new_conn example_funcs]
  have "receive_all unary example_funcs new_conn ?bufs = Inr (map (dispatched example_funcs) ?ms, new_conn)"
    by (simp add: new_conn_def)
  moreover have "map (dispatched example_funcs) ?ms = [EnqueueCall 4 (1, 1) [7], EnqueueDisconnect]"
    by (simp add: dispatched_def example_funcs_def)
  ultimately show ?thesis by (intro exI [of _ ?bufs]) simp
qed

text \<open>
  C1. Every call is answered: a connected system comes to rest, and however it does so, every
  call made before has its future set, exactly once and to a value, not to the value of an
  aborted call.\<close>

theorem every_call_answered:
  assumes "msgpack C" and "rpc_reach C fs s" and "sy_open s"
  shows "(\<exists>s'. (rpc_work C fs)\<^sup>*\<^sup>* s s' \<and> (\<nexists>t. rpc_work C fs s' t)) \<and>
    (\<forall>s'. (rpc_work C fs)\<^sup>*\<^sup>* s s' \<and> (\<nexists>t. rpc_work C fs s' t) \<longrightarrow>
       mset (map fst (sy_done s')) = mset (map fst (sy_calls s)) \<and> (\<forall>d \<in> set (sy_done s'). snd d \<noteq> Aborted))"
proof (intro conjI allI impI)
  show "\<exists>s'. (rpc_work C fs)\<^sup>*\<^sup>* s s' \<and> (\<nexists>t. rpc_work C fs s' t)" by (rule msgpack.work_ends [OF assms(1,2)])
  fix s' assume s': "(rpc_work C fs)\<^sup>*\<^sup>* s s' \<and> (\<nexists>t. rpc_work C fs s' t)"
  then have r: "rpc_reach C fs s'" "sy_calls s' = sy_calls s" "sy_open s'"
    using msgpack.work_reach [OF assms(1) _ assms(2)] assms(3) by blast+
  then have "rpc_idle s'" using msgpack.progress [OF assms(1)] s' by blast
  then have "mset (map fst (sy_done s')) = mset (map fst (sy_calls s')) \<and> (\<forall>d \<in> set (sy_done s'). snd d \<noteq> Aborted)"
    using msgpack.all_answered_when_idle [OF assms(1) r(1,3)] by (simp add: rpc_idle_def)
  then show "mset (map fst (sy_done s')) = mset (map fst (sy_calls s))" "\<forall>d \<in> set (sy_done s'). snd d \<noteq> Aborted"
    using r(2) by simp_all
qed

theorem every_call_answered_witness:
  "\<exists>s'. (rpc_work unary example_funcs)\<^sup>*\<^sup>* example_called s' \<and> mset (map fst (sy_done s')) = {#7#}"
proof -
  have "sy_open example_called" "sy_calls example_called = [(7, 0, [CHR 0x01], [2])]"
    by (simp_all add: example_called_def rpc_start_def)
  with every_call_answered [OF unary.msgpack_axioms example_called_reach] show ?thesis by auto
qed

text \<open>
  C29. Disconnecting forgets no caller: once the client has disconnected and the responses it had
  already taken from the socket are handled, the future of every call it made before, all of them
  calls of registered functions, is set exactly once, to its answer or as aborted, and no response
  callback is left pending.\<close>

theorem disconnect_settles_all:
  assumes "msgpack C" and "rpc_reach C fs s" and "\<not> sy_open s" and "sy_client_tasks s = []"
  shows "mset (map fst (sy_done s)) = mset (map fst (sy_calls s)) \<and> cl_respCallbacks (sy_client s) = []"
  using msgpack.all_settled_when_closed [OF assms] inv_parts(3) [OF msgpack.reach_inv [OF assms(1,2)]]
    assms(3) by (simp add: settled_def)

definition example_closed :: "nat rpc_sys" where
  "example_closed = example_called\<lparr>sy_client := new_client\<lparr>cl_reqId := 1\<rparr>, sy_open := False, sy_done := [(7, Aborted)]\<rparr>"

lemma example_closed_reach: "rpc_reach unary example_funcs example_closed"
proof (rule rpc_reach_stepI [OF example_called_reach])
  let ?cl = "new_client\<lparr>cl_reqId := 1, cl_respCallbacks := [(0, 7)]\<rparr>"
  let ?ev = "[SetReceive False, SetDisconnect False, SocketDisconnect, FutureSet 7 Aborted] :: nat rpc_event list"
  have "sy_client example_called = ?cl" by (simp add: example_called_def)
  then show "rpc_step unary example_funcs example_called
      (example_called\<lparr>sy_client := new_client\<lparr>cl_reqId := 1\<rparr>, sy_open := False,
         sy_done := sy_done example_called @ futures_set ?ev\<rparr>)"
    by (intro rpc_step.disconnect) (simp_all add: example_called_def rpc_start_def cl_disconnect_eq new_client_def)
qed (simp add: example_closed_def example_called_def rpc_start_def)

theorem disconnect_settles_all_witness:
  "mset (map fst (sy_done example_closed)) = mset (map fst (sy_calls example_closed)) \<and>
     cl_respCallbacks (sy_client example_closed) = []"
  by (rule disconnect_settles_all [OF unary.msgpack_axioms example_closed_reach])
     (simp_all add: example_closed_def example_called_def rpc_start_def)

end
