(* ===== verification/Rpc_Exchange.thy ===== *)
theory Rpc_Exchange
  imports Rpc_System
begin

section \<open>One call from end to end\<close>

text \<open>
  A call followed through all handlers, with nothing else in flight: the client writes the
  request, the connection receives it and its worker runs the function (\<open>run\<close>, on a state of the
  server's application), the result travels back and the client's worker sets the future. The
  result lists the futures that were set.
\<close>

type_synonym ('v, 's) run = "func \<Rightarrow> 'v list \<Rightarrow> 's \<Rightarrow> ('v \<times> 's) res"

definition run_tasks ::
  "'v codec \<Rightarrow> ('v, 's) run \<Rightarrow> 's \<Rightarrow> (u64 \<times> (func \<times> nat) \<times> bytes) list \<Rightarrow> (bytes \<times> 's) res" where
  "run_tasks C run st tasks =
     rfold (\<lambda>s t. rbind (deferredRPCCall C (fst (snd t)) (snd (snd t))) (\<lambda>call.
                  rbind (run (fst call) (snd call) (snd s)) (\<lambda>r.
                    Inr (fst s @ written (responseCallback C (fst t) (serializeFuture C (fst r))), snd r))))
       ([], st) tasks"

definition run_responses :: "'v codec \<Rightarrow> (future \<times> bytes) list \<Rightarrow> (future \<times> 'v outcome) list res" where
  "run_responses C tasks =
     rfold (\<lambda>out t. rbind (deserializeFuture C (fst t) (Some (snd t))) (\<lambda>e. Inr (out @ futures_set [e]))) [] tasks"

definition exchange ::
  "'v codec \<Rightarrow> funcs \<Rightarrow> ('v, 's) run \<Rightarrow> (rpc_client \<Rightarrow> 'v rpc_event list \<times> rpc_client) \<Rightarrow>
   rpc_client \<times> rpc_conn \<times> 's \<Rightarrow> ((future \<times> 'v outcome) list \<times> rpc_client \<times> rpc_conn \<times> 's) res" where
  "exchange C fs run call s =
     (let (cl, co, st) = s; (ev, cl) = call cl in
      rbind (co_onReceive C fs co (written ev)) (\<lambda>(ev, co).
      rbind (run_tasks C run st (enqueued_calls ev)) (\<lambda>(out, st).
      rbind (cl_onReceive C cl out) (\<lambda>(ev, cl).
      rbind (run_responses C (enqueued_responses ev)) (\<lambda>done.
        Inr (done, cl, co, st))))))"

context msgpack
begin

lemma co_onReceive_one:
  assumes "co_pac co = []" and "map_of fs name = Some f"
  shows "co_onReceive C fs co (pack_req C (rid, name, raw)) = Inr ([EnqueueCall rid f raw :: 'v rpc_event], co)"
proof -
  have "(co_pac co @ pack_req C (rid, name, raw)) @ [] = concat (map (pack_req C) [(rid, name, raw)])"
    using assms(1) by simp
  from co_onReceive_stream [OF this, of fs]
  have "co_onReceive C fs co (pack_req C (rid, name, raw)) =
      Inr (co_request fs [] (rid, name, raw), co\<lparr>co_pac := []\<rparr>)" by auto
  moreover have "co\<lparr>co_pac := []\<rparr> = co" using assms(1) by simp
  ultimately show ?thesis using assms(2) by (simp add: co_request_def)
qed

lemma cl_onReceive_one:
  assumes "cl_pac cl = []" and "map_of (cl_respCallbacks cl) rid = Some fut"
  shows "cl_onReceive C cl (pack_resp C (rid, raw)) =
    Inr ([EnqueueResponse fut raw :: 'v rpc_event], cl\<lparr>cl_respCallbacks := map_erase rid (cl_respCallbacks cl)\<rparr>)"
proof -
  have "(cl_pac cl @ pack_resp C (rid, raw)) @ [] = concat (map (pack_resp C) [(rid, raw)])"
    using assms(1) by simp
  from cl_onReceive_stream [OF this]
  have "cl_onReceive C cl (pack_resp C (rid, raw)) =
      Inr (fst (cl_response ([] :: 'v rpc_event list, cl) (rid, raw)),
           snd (cl_response ([] :: 'v rpc_event list, cl) (rid, raw))\<lparr>cl_pac := []\<rparr>)" by auto
  then show ?thesis using assms by (simp add: cl_response_def)
qed

lemma exchange_call:
  assumes "cl_pac cl = []" and "co_pac co = []" and "map_of (cl_respCallbacks cl) (cl_reqId cl) = None"
    and "map_ok (cl_respCallbacks cl)" and "map_of fs name = Some (f, length as)"
  shows "exchange C fs run (\<lambda>cl. cl_call C cl fut name as) (cl, co, st) =
    rbind (run f as st) (\<lambda>r. Inr ([(fut, Got (fst r))], cl\<lparr>cl_reqId := cl_reqId cl + 1\<rparr>, co, snd r))"
proof -
  let ?rid = "cl_reqId cl"
  let ?cl = "cl\<lparr>cl_respCallbacks := map_store ?rid fut (cl_respCallbacks cl), cl_reqId := ?rid + 1\<rparr>"
  have call: "cl_call C cl fut name as = ([Write (pack_req C (?rid, name, pack_args C as))], ?cl)"
    by (simp add: cl_call_def serializeArgs_def Let_def)
  have task: "deferredRPCCall C (f, length as) (pack_args C as) = Inr (f, as)"
    using args_roundtrip [of as] by (simp add: deferredRPCCall_def deserializeArgs_def)
  have "map_erase ?rid (map_store ?rid fut (cl_respCallbacks cl)) = cl_respCallbacks cl"
    using smap.erase_store [OF assms(4)] map_erase_absent [OF assms(3)] by simp
  then have resp: "cl_onReceive C ?cl (pack_resp C (?rid, raw)) =
      Inr ([EnqueueResponse fut raw :: 'v rpc_event], cl\<lparr>cl_reqId := ?rid + 1\<rparr>)" for raw
    using assms(1) by (subst cl_onReceive_one [of _ _ fut]) (simp_all add: map_of_map_store)
  show ?thesis
  proof (cases "run f as st")
    case (Inl e)
    then show ?thesis
      using call task co_onReceive_one [OF assms(2,5), of ?rid "pack_args C as"]
      by (simp add: exchange_def run_tasks_def)
  next
    case (Inr r)
    then have "run_tasks C run st [(?rid, (f, length as), pack_args C as)] =
        Inr (pack_resp C (?rid, pack_val C (fst r)), snd r)"
      using task by (simp add: run_tasks_def responseCallback_def serializeFuture_def)
    with Inr show ?thesis
      using call co_onReceive_one [OF assms(2,5), of ?rid "pack_args C as"] resp
      by (simp add: exchange_def run_responses_def deserializeFuture_def val_roundtrip)
  qed
qed

end

end
