(* ===== verification/Rpc_Service.thy ===== *)
theory Rpc_Service
  imports Rpc_Correct Rpc_Exchange
begin

section \<open>Many clients of one server\<close>

text \<open>
  Any number of clients, each with its own connection, call functions of one server that share a
  state: link \<open>i\<close> is the \<open>i\<close>-th client with its connection, \<open>rs_state\<close> the state of the server's
  application. A task runs the registered function on that state and writes the answer: the
  functions return futures that are already set, and a function runs as one step. \<open>Rpc_Workers\<close>
  takes that step apart and shows when the two are the same. The log lists the executions in the
  order in which they took place, with the values they returned.
\<close>

type_synonym 'v execution = "nat \<times> u64 \<times> func \<times> 'v list \<times> 'v"

record ('v, 's) rpc_service =
  rs_links :: "nat \<Rightarrow> 'v rpc_sys"
  rs_state :: 's
  rs_log :: "'v execution list"

definition service_start :: "'s \<Rightarrow> ('v, 's) rpc_service" where
  "service_start st = \<lparr>rs_links = \<lambda>_. rpc_start, rs_state = st, rs_log = []\<rparr>"

text \<open>What link \<open>i\<close> does when a task of it has run and returned \<open>v\<close>.\<close>

definition task_done ::
  "'v codec \<Rightarrow> 'v rpc_sys \<Rightarrow> (u64 \<times> (func \<times> nat) \<times> bytes) list \<Rightarrow> u64 \<Rightarrow> func \<Rightarrow> 'v list \<Rightarrow> 'v \<Rightarrow> 'v rpc_sys" where
  "task_done C s tasks rid g as v =
     s\<lparr>sy_server_tasks := tasks, sy_s2c := sy_s2c s @ written (responseCallback C rid (serializeFuture C v)),
       sy_served := insert (rid, g, as, v) (sy_served s)\<rparr>"

inductive service_step ::
  "'v codec \<Rightarrow> funcs \<Rightarrow> ('v, 's) run \<Rightarrow> ('v, 's) rpc_service \<Rightarrow> ('v, 's) rpc_service \<Rightarrow> bool" for C fs run where
  link: "rpc_step C fs (rs_links r i) s' \<Longrightarrow> sy_running s' = sy_running (rs_links r i) \<Longrightarrow>
    service_step C fs run r (r\<lparr>rs_links := (rs_links r)(i := s')\<rparr>)"
| exec: "sy_server_tasks (rs_links r i) = xs @ (rid, f, raw) # ys \<Longrightarrow> deferredRPCCall C f raw = Inr (g, as) \<Longrightarrow>
    run g as (rs_state r) = Inr (v, st') \<Longrightarrow>
    service_step C fs run r
      (r\<lparr>rs_links := (rs_links r)(i := task_done C (rs_links r i) (xs @ ys) rid g as v), rs_state := st',
         rs_log := rs_log r @ [(i, rid, g, as, v)]\<rparr>)"

inductive service_reach :: "'v codec \<Rightarrow> funcs \<Rightarrow> ('v, 's) run \<Rightarrow> 's \<Rightarrow> ('v, 's) rpc_service \<Rightarrow> bool"
  for C fs run st0 where
  start: "service_reach C fs run st0 (service_start st0)"
| step: "service_reach C fs run st0 r \<Longrightarrow> service_step C fs run r r' \<Longrightarrow> service_reach C fs run st0 r'"

text \<open>The executions one after the other, each with the value it has in the list.\<close>

fun replay :: "('v, 's) run \<Rightarrow> 'v execution list \<Rightarrow> 's \<Rightarrow> 's option" where
  "replay run [] st = Some st"
| "replay run ((i, rid, g, as, v) # l) st =
     (case run g as st of Inl e \<Rightarrow> None | Inr (v', st') \<Rightarrow> if v' = v then replay run l st' else None)"

lemma replay_append: "replay run (l @ l') st = Option.bind (replay run l st) (replay run l')"
  by (induction run l st rule: replay.induct) (auto split: sum.split)

lemma replay_SomeE:
  assumes "replay run (l @ (i, rid, g, as, v) # l') st = Some st'"
  obtains st1 st2 where "replay run l st = Some st1" "run g as st1 = Inr (v, st2)" "replay run l' st2 = Some st'"
  using assms by (auto simp: replay_append split: sum.splits if_splits bind_splits)

subsection \<open>Every request is executed at most once\<close>

text \<open>
  Where the request of a call is: in the bytes the connection has not handled, among its tasks,
  among the functions running, or among the requests \<open>ids\<close> that were answered.
\<close>

definition ledger :: "'v codec \<Rightarrow> funcs \<Rightarrow> 'v rpc_sys \<Rightarrow> u64 list \<Rightarrow> bool" where
  "ledger C fs s ids \<longleftrightarrow> (\<exists>Q.
     co_pac (sy_conn s) @ sy_c2s s = concat (map (pack_req C) Q) \<and> (\<forall>m \<in> set Q. good_req C fs s m) \<and>
     mset (map fst Q) + mset (map fst (sy_server_tasks s)) + mset (map fst (sy_running s)) + mset ids =
     mset (map (fst \<circ> snd) (sy_calls s)))"

lemma ledgerI:
  "co_pac (sy_conn s) @ sy_c2s s = concat (map (pack_req C) Q) \<Longrightarrow> (\<And>m. m \<in> set Q \<Longrightarrow> good_req C fs s m) \<Longrightarrow>
   mset (map fst Q) + mset (map fst (sy_server_tasks s)) + mset (map fst (sy_running s)) + mset ids =
     mset (map (fst \<circ> snd) (sy_calls s)) \<Longrightarrow> ledger C fs s ids"
  unfolding ledger_def by blast

lemma ledger_cong:
  assumes "ledger C fs s ids" and "sy_conn s' = sy_conn s" "sy_c2s s' = sy_c2s s" "sy_calls s' = sy_calls s"
    and "mset (map fst (sy_server_tasks s')) + mset (map fst (sy_running s')) + mset ids' =
      mset (map fst (sy_server_tasks s)) + mset (map fst (sy_running s)) + mset ids"
  shows "ledger C fs s' ids'"
  using assms unfolding ledger_def good_req_def by (auto simp: add.assoc)

lemma ledger_distinct:
  assumes "numbered s" and "ledger C fs s ids"
  shows "distinct ids" and "set ids \<subseteq> (fst \<circ> snd) ` set (sy_calls s)"
proof -
  obtain Q :: "(u64 \<times> string \<times> bytes) list" where
    "mset (map fst Q) + mset (map fst (sy_server_tasks s)) + mset (map fst (sy_running s)) + mset ids =
     mset (map (fst \<circ> snd) (sy_calls s))" using assms(2) unfolding ledger_def by blast
  then have eq: "mset ((map fst Q @ map fst (sy_server_tasks s) @ map fst (sy_running s)) @ ids) =
     mset (map (fst \<circ> snd) (sy_calls s))" by (simp add: add.assoc)
  have "distinct (map (fst \<circ> snd) (sy_calls s))" using assms(1) distinct_numbers by (simp add: numbered_def)
  then show "distinct ids" using mset_eq_imp_distinct_iff [OF eq] by simp
  show "set ids \<subseteq> (fst \<circ> snd) ` set (sy_calls s)" using mset_eq_setD [OF eq] by auto
qed

context msgpack
begin

lemma ledger_start: "ledger C fs rpc_start []"
  by (rule ledgerI [of _ _ "[]"]) (simp_all add: rpc_start_def new_conn_def)

lemma ledger_call:
  assumes "ledger C fs s ids" and f: "map_of fs name = Some (f, length as)"
    and call: "cl_call C (sy_client s) fut name as = (ev, cl)"
  shows "ledger C fs (s\<lparr>sy_client := cl, sy_c2s := sy_c2s s @ written ev,
      sy_calls := sy_calls s @ [(fut, cl_reqId (sy_client s), name, as)]\<rparr>) ids" (is "ledger C fs ?s ids")
proof -
  let ?m = "(cl_reqId (sy_client s), name, pack_args C as)"
  have ev: "written ev = pack_req C ?m" using call by (auto simp: cl_call_def Let_def serializeArgs_def)
  obtain Q where Q: "co_pac (sy_conn s) @ sy_c2s s = concat (map (pack_req C) Q)" "\<forall>m \<in> set Q. good_req C fs s m"
    "mset (map fst Q) + mset (map fst (sy_server_tasks s)) + mset (map fst (sy_running s)) + mset ids =
     mset (map (fst \<circ> snd) (sy_calls s))" using assms(1) by (auto simp: ledger_def)
  have sub: "set (sy_calls s) \<subseteq> set (sy_calls ?s)" "sy_served s \<subseteq> sy_served ?s" by auto
  have m: "good_req C fs ?s ?m" unfolding good_req_def using f by fastforce
  show ?thesis
  proof (rule ledgerI [of _ _ "Q @ [?m]"])
    show "co_pac (sy_conn ?s) @ sy_c2s ?s = concat (map (pack_req C) (Q @ [?m]))"
      using Q(1) ev by (simp add: append_assoc [symmetric] del: append_assoc)
    show "good_req C fs ?s q" if "q \<in> set (Q @ [?m])" for q
      using that Q(2) m by (auto intro: good_mono(1) [OF sub])
  qed (use Q(3) in simp)
qed

lemma ledger_to_server:
  assumes "ledger C fs s ids" and c2s: "sy_c2s s = buf @ rest"
    and rcv: "co_onReceive C fs (sy_conn s) buf = Inr (ev, co)"
  shows "ledger C fs (s\<lparr>sy_conn := co, sy_c2s := rest, sy_server_tasks := sy_server_tasks s @ enqueued_calls ev\<rparr>) ids"
    (is "ledger C fs ?s ids")
proof -
  obtain Q where Q: "co_pac (sy_conn s) @ sy_c2s s = concat (map (pack_req C) Q)" "\<forall>m \<in> set Q. good_req C fs s m"
    "mset (map fst Q) + mset (map fst (sy_server_tasks s)) + mset (map fst (sy_running s)) + mset ids =
     mset (map (fst \<circ> snd) (sy_calls s))" using assms(1) by (auto simp: ledger_def)
  have "(co_pac (sy_conn s) @ buf) @ rest = concat (map (pack_req C) Q)" using Q(1) c2s by simp
  from co_onReceive_stream [OF this, of fs] obtain k l where
    eq: "co_onReceive C fs (sy_conn s) buf =
       Inr (fold (\<lambda>m s. co_request fs s m) (take k Q) [], (sy_conn s)\<lparr>co_pac := l\<rparr>)"
    and l: "l @ rest = concat (map (pack_req C) (drop k Q))" by blast
  have known: "\<forall>m \<in> set (take k Q). map_of fs (fst (snd m)) \<noteq> None"
    using Q(2) by (fastforce simp: good_req_def dest: in_set_takeD)
  have ev: "map fst (enqueued_calls ev) = map fst (take k Q)" and co: "co_pac co = l"
    using rcv eq by (auto simp: co_request_fold [OF known] enqueued_calls_map)
  have parts: "mset (map fst Q) = mset (map fst (take k Q)) + mset (map fst (drop k Q))"
    by (metis append_take_drop_id map_append mset_append)
  show ?thesis
  proof (rule ledgerI [of _ _ "drop k Q"])
    show "good_req C fs ?s q" if "q \<in> set (drop k Q)" for q
      using Q(2) in_set_dropD [OF that] by (auto simp: good_req_def)
    show "mset (map fst (drop k Q)) + mset (map fst (sy_server_tasks ?s)) + mset (map fst (sy_running ?s)) + mset ids =
        mset (map (fst \<circ> snd) (sy_calls ?s))"
      using Q(3) unfolding parts by (simp add: ev ac_simps)
  qed (use l co in simp)
qed

lemma ledger_link:
  assumes "rpc_step C fs s s'" and "sy_running s' = sy_running s" and "ledger C fs s ids"
  shows "ledger C fs s' ids"
  using assms(1)
proof cases
  case call
  with ledger_call [OF assms(3)] show ?thesis by blast
next
  case to_server
  with ledger_to_server [OF assms(3)] show ?thesis by blast
qed (use assms(2,3) in \<open>auto intro: ledger_cong\<close>)

lemma ledger_task:
  assumes "ledger C fs s ids" and "sy_server_tasks s = xs @ (rid, f, raw) # ys"
  shows "ledger C fs (task_done C s (xs @ ys) rid g as v) (ids @ [rid])"
  by (rule ledger_cong [OF assms(1)]) (simp_all add: task_done_def assms(2))

end

lemma distinct_by_key: "(\<And>i. distinct (map f (filter (\<lambda>e. k e = i) l))) \<Longrightarrow> distinct (map (\<lambda>e. (k e, f e)) l)"
proof (induction l)
  case (Cons e l)
  have "distinct (map f (filter (\<lambda>e. k e = i) l))" for i
    using Cons.prems [of i] by (simp split: if_splits)
  then have "distinct (map (\<lambda>e. (k e, f e)) l)" by (rule Cons.IH)
  moreover have "(k e, f e) \<notin> (\<lambda>e. (k e, f e)) ` set l"
    using Cons.prems [of "k e"] by (force simp: image_iff)
  ultimately show ?case by simp
qed simp

subsection \<open>The invariant of the service\<close>

abbreviation executed :: "('v, 's) rpc_service \<Rightarrow> nat \<Rightarrow> u64 list" where
  "executed r i \<equiv> map (fst \<circ> snd) (filter (\<lambda>e. fst e = i) (rs_log r))"

definition service_inv :: "'v codec \<Rightarrow> funcs \<Rightarrow> ('v, 's) run \<Rightarrow> 's \<Rightarrow> ('v, 's) rpc_service \<Rightarrow> bool" where
  "service_inv C fs run st0 r \<longleftrightarrow>
     (\<forall>i. rpc_reach C fs (rs_links r i) \<and> sy_running (rs_links r i) = [] \<and>
          (\<forall>rid g as v. (rid, g, as, v) \<in> sy_served (rs_links r i) \<longleftrightarrow> (i, rid, g, as, v) \<in> set (rs_log r)) \<and>
          ledger C fs (rs_links r i) (executed r i)) \<and>
     replay run (rs_log r) st0 = Some (rs_state r)"

text \<open>A task that runs and is answered at once is two steps of its link.\<close>

lemma task_done_reach:
  assumes "rpc_reach C fs s" and "sy_running s = []" and "sy_server_tasks s = xs @ (rid, f, raw) # ys"
    and "deferredRPCCall C f raw = Inr (g, as)"
  shows "rpc_reach C fs (task_done C s (xs @ ys) rid g as v)"
proof -
  let ?s = "s\<lparr>sy_server_tasks := xs @ ys, sy_running := sy_running s @ [(rid, g, as)]\<rparr>"
  have "rpc_reach C fs ?s" by (rule rpc_reach.step [OF assms(1) rpc_step.run_call [OF assms(3,4)]])
  moreover have "sy_running ?s = [] @ (rid, g, as) # []" using assms(2) by simp
  ultimately have "rpc_reach C fs (?s\<lparr>sy_running := [] @ [],
      sy_s2c := sy_s2c ?s @ written (responseCallback C rid (serializeFuture C v)),
      sy_served := insert (rid, g, as, v) (sy_served ?s)\<rparr>)"
    by (intro rpc_reach.step [OF _ rpc_step.answer])
  moreover have "?s\<lparr>sy_running := [] @ [],
      sy_s2c := sy_s2c ?s @ written (responseCallback C rid (serializeFuture C v)),
      sy_served := insert (rid, g, as, v) (sy_served ?s)\<rparr> = task_done C s (xs @ ys) rid g as v"
    using assms(2) by (simp add: task_done_def)
  ultimately show ?thesis by simp
qed

lemma served_kept:
  assumes "rpc_step C fs s s'" and "sy_running s' = sy_running s"
  shows "sy_served s' = sy_served s"
  using assms by cases auto

lemma executed_add: "executed (r\<lparr>rs_log := rs_log r @ [(i, rid, g, as, v)]\<rparr>) j =
    executed r j @ (if j = i then [rid] else [])"
  by simp

context msgpack
begin

text \<open>Only requests that were made are answered.\<close>

lemma served_requests:
  "rpc_reach C fs s \<Longrightarrow> (rid, g, as, v) \<in> sy_served s \<Longrightarrow> good_run fs s (rid, g, as)"
proof (induction rule: rpc_reach.induct)
  case start
  then show ?case by (simp add: rpc_start_def)
next
  case (step s s')
  have "set (sy_calls s) \<subseteq> set (sy_calls s')" using step(2) by cases auto
  moreover have "(rid, g, as, v) \<in> sy_served s \<or> (rid, g, as) \<in> set (sy_running s)"
    using step(2,4) by cases auto
  ultimately show ?case
    using step.IH reach_inv [OF step(1)] by (fastforce simp: sys_inv_def good_run_def)
qed

lemma service_inv_start: "service_inv C fs run st0 (service_start st0)"
  using ledger_start rpc_reach.start by (simp add: service_inv_def service_start_def rpc_start_def)

lemma service_inv_link:
  assumes inv: "service_inv C fs run st0 r" and st: "rpc_step C fs (rs_links r i) s'" "sy_running s' = sy_running (rs_links r i)"
  shows "service_inv C fs run st0 (r\<lparr>rs_links := (rs_links r)(i := s')\<rparr>)"
  using inv rpc_reach.step [OF _ st(1)] served_kept [OF st] ledger_link [OF st] st(2)
  by (simp add: service_inv_def)

lemma service_inv_exec:
  assumes inv: "service_inv C fs run st0 r" and t: "sy_server_tasks (rs_links r i) = xs @ (rid, f, raw) # ys"
    and d: "deferredRPCCall C f raw = Inr (g, as)" and ex: "run g as (rs_state r) = Inr (v, st')"
  shows "service_inv C fs run st0
      (r\<lparr>rs_links := (rs_links r)(i := task_done C (rs_links r i) (xs @ ys) rid g as v), rs_state := st',
         rs_log := rs_log r @ [(i, rid, g, as, v)]\<rparr>)"
proof -
  have link: "rpc_reach C fs (rs_links r i)" "sy_running (rs_links r i) = []" "ledger C fs (rs_links r i) (executed r i)"
    using inv by (simp_all add: service_inv_def)
  note new = task_done_reach [OF link(1,2) t d] ledger_task [OF link(3) t]
  have run: "sy_running (task_done C (rs_links r i) (xs @ ys) rid g as v) = []" using link(2) by (simp add: task_done_def)
  have served: "sy_served (task_done C (rs_links r i) (xs @ ys) rid g as v) = insert (rid, g, as, v) (sy_served (rs_links r i))"
    by (simp add: task_done_def)
  show ?thesis
    using inv new run served ex by (auto simp: service_inv_def replay_append)
qed

lemma service_reach_inv: "service_reach C fs run st0 r \<Longrightarrow> service_inv C fs run st0 r"
proof (induction rule: service_reach.induct)
  case start
  show ?case by (rule service_inv_start)
next
  case (step r r')
  from step(2) step.IH show ?case
    by cases (simp_all add: service_inv_link service_inv_exec)
qed

lemma service_link:
  assumes "service_reach C fs run st0 r"
  shows "rpc_reach C fs (rs_links r i)" and "numbered (rs_links r i)"
proof -
  show r: "rpc_reach C fs (rs_links r i)" using service_reach_inv [OF assms] by (simp add: service_inv_def)
  show "numbered (rs_links r i)" by (rule inv_parts(1) [OF reach_inv [OF r]])
qed

lemma service_once:
  assumes "service_reach C fs run st0 r"
  shows "distinct (map (\<lambda>e. (fst e, fst (snd e))) (rs_log r))"
proof -
  note inv = service_reach_inv [OF assms]
  have "distinct (executed r i)" for i
  proof -
    have "rpc_reach C fs (rs_links r i)" "ledger C fs (rs_links r i) (executed r i)"
      using inv by (simp_all add: service_inv_def)
    with ledger_distinct [OF inv_parts(1) [OF reach_inv]] show ?thesis by blast
  qed
  then show ?thesis using distinct_by_key [of "fst \<circ> snd" fst "rs_log r"] by (simp add: comp_def)
qed

lemma service_request:
  assumes "service_reach C fs run st0 r" and "(i, rid, g, as, v) \<in> set (rs_log r)"
  shows "\<exists>fut name. (fut, rid, name, as) \<in> set (sy_calls (rs_links r i)) \<and> map_of fs name = Some (g, length as)"
proof -
  have "rpc_reach C fs (rs_links r i)" "(rid, g, as, v) \<in> sy_served (rs_links r i)"
    using service_reach_inv [OF assms(1)] assms(2) by (simp_all add: service_inv_def)
  from served_requests [OF this] show ?thesis by (auto simp: good_run_def)
qed

lemma service_answer:
  assumes "service_reach C fs run st0 r" and "(fut, Got v) \<in> set (sy_done (rs_links r i))"
  shows "\<exists>rid name as f. (fut, rid, name, as) \<in> set (sy_calls (rs_links r i)) \<and>
     map_of fs name = Some (f, length as) \<and> (i, rid, f, as, v) \<in> set (rs_log r)"
proof -
  note inv = service_reach_inv [OF assms(1)]
  then have "good_done fs (rs_links r i) (fut, Got v)"
    using reach_inv assms(2) by (fastforce simp: service_inv_def sys_inv_def)
  then show ?thesis using inv by (auto simp: good_done_def answered_def service_inv_def)
qed

end

subsection \<open>Every request is executed\<close>

text \<open>An execution as a request of its link, and the request of a call.\<close>

abbreviation request_of :: "'v execution \<Rightarrow> u64 \<times> func \<times> 'v list" where
  "request_of e \<equiv> (fst (snd e), fst (snd (snd e)), fst (snd (snd (snd e))))"

definition call_request :: "funcs \<Rightarrow> future \<times> u64 \<times> string \<times> 'v list \<Rightarrow> u64 \<times> func \<times> 'v list" where
  "call_request fs c = (case c of (fut, rid, name, as) \<Rightarrow> (rid, fst (the (map_of fs name)), as))"

context msgpack
begin

lemma idle_executed:
  assumes "service_reach C fs run st0 r" and "rpc_idle (rs_links r i)"
  shows "mset (executed r i) = mset (map (fst \<circ> snd) (sy_calls (rs_links r i)))"
proof -
  let ?s = "rs_links r i"
  have led: "ledger C fs ?s (executed r i)" and inv: "sys_inv C fs ?s"
    using service_reach_inv [OF assms(1)] reach_inv by (simp_all add: service_inv_def)
  have q: "sy_c2s ?s = []" "sy_server_tasks ?s = []" "sy_running ?s = []" "co_pac (sy_conn ?s) = []"
    using assms(2) inv_parts(3) [OF inv] by (simp_all add: rpc_idle_def settled_def)
  obtain Q where Q: "[] = concat (map (pack_req C) Q)"
    "mset (map fst Q) + mset (executed r i) = mset (map (fst \<circ> snd) (sy_calls ?s))"
    using led q unfolding ledger_def by auto
  have "Q = []" using Q(1) req.enc_nonempty by (cases Q) simp_all
  with Q(2) show ?thesis by simp
qed

text \<open>At rest the executions of a link are its calls, in some order.\<close>

lemma idle_requests:
  assumes "service_reach C fs run st0 r" and "rpc_idle (rs_links r i)"
  shows "mset (map request_of (filter (\<lambda>e. fst e = i) (rs_log r))) = mset (map (call_request fs) (sy_calls (rs_links r i)))"
proof -
  let ?calls = "sy_calls (rs_links r i)" and ?log = "filter (\<lambda>e. fst e = i) (rs_log r)"
  define F where "F rid = the (map_of (map (call_request fs) ?calls) rid)" for rid
  have num: "numbered (rs_links r i)" by (rule service_link(2) [OF assms(1)])
  then have "distinct (map (fst \<circ> snd) ?calls)" using distinct_numbers by (simp add: numbered_def)
  then have dist: "distinct (map fst (map (call_request fs) ?calls))"
    by (simp add: call_request_def comp_def case_prod_unfold)
  have call: "call_request fs c = (fst (snd c), F (fst (snd c)))" if "c \<in> set ?calls" for c
  proof -
    have "call_request fs c \<in> set (map (call_request fs) ?calls)" using that by simp
    moreover have "fst (call_request fs c) = fst (snd c)" by (simp add: call_request_def case_prod_unfold)
    ultimately have "map_of (map (call_request fs) ?calls) (fst (snd c)) = Some (snd (call_request fs c))"
      using map_of_is_SomeI [OF dist] by (metis prod.collapse)
    then show ?thesis using \<open>fst _ = _\<close> by (simp add: F_def prod_eq_iff)
  qed
  have "request_of e = (fst (snd e), F (fst (snd e)))" if m: "e \<in> set ?log" for e
  proof -
    obtain rid g as v where e: "e = (i, rid, g, as, v)" by (rule prod_cases5 [of e]) (use m in auto)
    then obtain fut name where "(fut, rid, name, as) \<in> set ?calls" "map_of fs name = Some (g, length as)"
      using service_request [OF assms(1), of i rid g as v] m by auto
    with call [of "(fut, rid, name, as)"] e show ?thesis by (simp add: call_request_def)
  qed
  then have "map request_of ?log = map (\<lambda>rid. (rid, F rid)) (executed r i)" by simp
  moreover have "map (call_request fs) ?calls = map (\<lambda>rid. (rid, F rid)) (map (fst \<circ> snd) ?calls)" using call by simp
  ultimately show ?thesis using idle_executed [OF assms] by (simp only: mset_map)
qed

end

subsection \<open>Executions follow the order of the calls\<close>

text \<open>The execution \<open>e\<close> of the call that returned the future \<open>fut\<close> on link \<open>i\<close>, with its value.\<close>

definition execution_of :: "funcs \<Rightarrow> ('v, 's) rpc_service \<Rightarrow> nat \<Rightarrow> future \<Rightarrow> 'v \<Rightarrow> 'v execution \<Rightarrow> bool" where
  "execution_of fs r i fut v e \<longleftrightarrow> (\<exists>rid name as f. e = (i, rid, f, as, v) \<and>
     (fut, rid, name, as) \<in> set (sy_calls (rs_links r i)) \<and> map_of fs name = Some (f, length as))"

lemma service_step_history:
  assumes "service_step C fs run a b"
  shows "\<exists>more. rs_log b = rs_log a @ more" and "set (sy_calls (rs_links a i)) \<subseteq> set (sy_calls (rs_links b i))"
  using assms by (cases, auto simp: task_done_def elim: rpc_step.cases)+

lemma service_history:
  assumes "(service_step C fs run)\<^sup>*\<^sup>* a b"
  shows "(\<exists>more. rs_log b = rs_log a @ more) \<and> (\<forall>i. set (sy_calls (rs_links a i)) \<subseteq> set (sy_calls (rs_links b i)))"
  using assms
proof (induction rule: rtranclp_induct)
  case (step b c)
  then obtain m1 m2 where "rs_log c = rs_log b @ m2" "rs_log b = rs_log a @ m1" using service_step_history(1) by metis
  then have "\<exists>more. rs_log c = rs_log a @ more" by simp
  with step service_step_history(2) show ?case by (meson subset_trans)
qed simp

lemma service_reach_steps:
  "(service_step C fs run)\<^sup>*\<^sup>* a b \<Longrightarrow> service_reach C fs run st0 a \<Longrightarrow> service_reach C fs run st0 b"
  by (induction rule: rtranclp_induct) (auto intro: service_reach.step)

context msgpack
begin

lemma service_order:
  assumes a: "service_reach C fs run st0 a" and ab: "(service_step C fs run)\<^sup>*\<^sup>* a b"
    and first: "(fut, Got v) \<in> set (sy_done (rs_links a i))"
    and second: "(fut', Got v') \<in> set (sy_done (rs_links b j))" "fut' \<notin> fst ` set (sy_calls (rs_links a j))"
  shows "\<exists>l e m e' n. rs_log b = l @ e # m @ e' # n \<and> execution_of fs b i fut v e \<and> execution_of fs b j fut' v' e'"
proof -
  obtain more where more: "rs_log b = rs_log a @ more" using service_history [OF ab] by blast
  obtain e where e: "e \<in> set (rs_log a)" "execution_of fs b i fut v e"
    using service_answer [OF a first] service_history [OF ab] unfolding execution_of_def by blast
  obtain rid name as f where e': "(fut', rid, name, as) \<in> set (sy_calls (rs_links b j))"
    "map_of fs name = Some (f, length as)" "(j, rid, f, as, v') \<in> set (rs_log b)"
    using service_answer [OF service_reach_steps [OF ab a] second(1)] by blast
  have "rid \<notin> set (executed a j)"
  proof
    assume "rid \<in> set (executed a j)"
    moreover have "rpc_reach C fs (rs_links a j)" "ledger C fs (rs_links a j) (executed a j)"
      using service_reach_inv [OF a] by (simp_all add: service_inv_def)
    ultimately have "rid \<in> (fst \<circ> snd) ` set (sy_calls (rs_links a j))"
      using ledger_distinct(2) [OF inv_parts(1) [OF reach_inv]] by blast
    then obtain fut2 name2 as2 where c: "(fut2, rid, name2, as2) \<in> set (sy_calls (rs_links a j))" by force
    have "numbered (rs_links b j)" by (rule service_link(2) [OF service_reach_steps [OF ab a]])
    with c e'(1) service_history [OF ab] have "fut2 = fut'" using numbered_unique by blast
    with c second(2) show False by force
  qed
  then have "(j, rid, f, as, v') \<in> set more" using e'(3) more by force
  moreover have "execution_of fs b j fut' v' (j, rid, f, as, v')" using e' by (auto simp: execution_of_def)
  moreover obtain l m1 where "rs_log a = l @ e # m1" using e(1) by (auto simp: in_set_conv_decomp)
  moreover obtain m2 n where "more = m2 @ (j, rid, f, as, v') # n"
    using \<open>_ \<in> set more\<close> by (auto simp: in_set_conv_decomp)
  ultimately show ?thesis using more e(2) by (intro exI [of _ l] exI [of _ e] exI [of _ "m1 @ m2"] exI) auto
qed

end

lemma start_idle:
  "rpc_idle rpc_start" "sy_open rpc_start" "sy_calls rpc_start = []" "cl_reqId (sy_client rpc_start) = 0"
  by (simp_all add: rpc_idle_def rpc_start_def new_client_def)

text \<open>A call on a link with nothing in flight can run to its end, with the function executed once.\<close>

abbreviation with_link :: "('v, 's) rpc_service \<Rightarrow> nat \<Rightarrow> 'v rpc_sys \<Rightarrow> ('v, 's) rpc_service" where
  "with_link r i s \<equiv> r\<lparr>rs_links := (rs_links r)(i := s)\<rparr>"

definition call_returned :: "'v rpc_sys \<Rightarrow> future \<Rightarrow> string \<Rightarrow> func \<Rightarrow> 'v list \<Rightarrow> 'v \<Rightarrow> 'v rpc_sys" where
  "call_returned s fut name f as v =
     s\<lparr>sy_client := (sy_client s)\<lparr>cl_reqId := cl_reqId (sy_client s) + 1\<rparr>,
       sy_calls := sy_calls s @ [(fut, cl_reqId (sy_client s), name, as)],
       sy_served := insert (cl_reqId (sy_client s), f, as, v) (sy_served s), sy_done := sy_done s @ [(fut, Got v)]\<rparr>"

lemma service_link_step:
  "(service_step C fs run)\<^sup>*\<^sup>* a r \<Longrightarrow> rpc_step C fs (rs_links r i) s \<Longrightarrow> sy_running s = sy_running (rs_links r i) \<Longrightarrow>
   r' = with_link r i s \<Longrightarrow> (service_step C fs run)\<^sup>*\<^sup>* a r'"
  using service_step.link by (metis rtranclp.rtrancl_into_rtrancl)

context msgpack
begin

lemma service_call_completes:
  fixes r :: "('v, 's) rpc_service" and i :: nat
  defines "s \<equiv> rs_links r i"
  assumes reach: "service_reach C fs run st0 r" and idle: "rpc_idle s" and op: "sy_open s"
    and fut: "fut \<notin> fst ` set (sy_calls s)" and room: "length (sy_calls s) < 2 ^ 64"
    and f: "map_of fs name = Some (f, length as)" and run: "run f as (rs_state r) = Inr (v, st')"
  shows "(service_step C fs run)\<^sup>*\<^sup>* r
    (r\<lparr>rs_links := (rs_links r)(i := call_returned s fut name f as v), rs_state := st',
       rs_log := rs_log r @ [(i, cl_reqId (sy_client s), f, as, v)]\<rparr>)"
proof -
  let ?rid = "cl_reqId (sy_client s)" and ?cbs = "cl_respCallbacks (sy_client s)"
  let ?req = "pack_req C (?rid, name, pack_args C as)" and ?resp = "pack_resp C (?rid, pack_val C v)"
  let ?cl1 = "(sy_client s)\<lparr>cl_respCallbacks := map_store ?rid fut ?cbs, cl_reqId := ?rid + 1\<rparr>"
  let ?cl2 = "(sy_client s)\<lparr>cl_reqId := ?rid + 1\<rparr>"
  have inv: "sys_inv C fs s" using service_reach_inv [OF reach] reach_inv by (simp add: service_inv_def s_def)
  have q: "sy_c2s s = []" "sy_s2c s = []" "sy_server_tasks s = []" "sy_running s = []" "sy_client_tasks s = []"
    "co_pac (sy_conn s) = []" "cl_pac (sy_client s) = []"
    using idle inv_parts(3) [OF inv] by (simp_all add: rpc_idle_def settled_def)
  note new = next_number_free [OF inv room]
  have okm: "map_ok ?cbs" using inv by (simp add: sys_inv_def)
  have cb: "map_erase ?rid (map_store ?rid fut ?cbs) = ?cbs"
    using smap.erase_store [OF okm] map_erase_absent [OF new] by simp
  define s1 where "s1 = s\<lparr>sy_client := ?cl1, sy_c2s := ?req, sy_calls := sy_calls s @ [(fut, ?rid, name, as)]\<rparr>"
  define s2 where "s2 = s1\<lparr>sy_c2s := [], sy_server_tasks := [(?rid, (f, length as), pack_args C as)]\<rparr>"
  define s3 where "s3 = s1\<lparr>sy_c2s := [], sy_s2c := ?resp, sy_served := insert (?rid, f, as, v) (sy_served s)\<rparr>"
  define s4 where "s4 = s3\<lparr>sy_client := ?cl2, sy_s2c := [], sy_client_tasks := [(fut, pack_val C v)]\<rparr>"
  note defs = s1_def s2_def s3_def s4_def
  have "cl_call C (sy_client s) fut name as = ([Write ?req], ?cl1)"
    by (simp add: cl_call_def serializeArgs_def Let_def)
  from rpc_step.call [OF op fut f room this] have st1: "rpc_step C fs s s1" by (simp add: s1_def q)
  have "sy_c2s s1 = ?req @ []" "sy_conn s1 = sy_conn s" by (simp_all add: s1_def)
  from rpc_step.to_server [OF this(1) req.enc_nonempty co_onReceive_one [OF _ f]] this(2) q
  have st2: "rpc_step C fs s1 s2" by (simp add: s2_def s1_def)
  have task: "deferredRPCCall C (f, length as) (pack_args C as) = Inr (f, as)"
    using args_roundtrip [of as] by (simp add: deferredRPCCall_def deserializeArgs_def)
  have s3: "task_done C s2 ([] @ []) ?rid f as v = s3"
    by (simp add: task_done_def defs q responseCallback_def serializeFuture_def)
  have "sy_open s3" "sy_s2c s3 = ?resp @ []" using op by (simp_all add: defs)
  moreover have "cl_onReceive C (sy_client s3) ?resp = Inr ([EnqueueResponse fut (pack_val C v) :: 'v rpc_event], ?cl2)"
    using q cb by (subst cl_onReceive_one [of _ _ fut]) (simp_all add: defs map_of_map_store)
  ultimately have st4: "rpc_step C fs s3 s4"
    using rpc_step.to_client [OF _ _ resp.enc_nonempty] by (fastforce simp: s4_def s3_def s1_def q)
  have "sy_client_tasks s4 = [] @ (fut, pack_val C v) # []" by (simp add: s4_def)
  moreover have "deserializeFuture C fut (Some (pack_val C v)) = Inr (FutureSet fut (Got v))"
    by (simp add: deserializeFuture_def val_roundtrip)
  moreover have "s4\<lparr>sy_client_tasks := [] @ [], sy_done := sy_done s4 @ futures_set [FutureSet fut (Got v)]\<rparr> =
      call_returned s fut name f as v"
    by (rule rpc_sys.equality) (simp_all add: call_returned_def defs q)
  ultimately have st5: "rpc_step C fs s4 (call_returned s fut name f as v)"
    using rpc_step.run_response by metis
  let ?r2 = "with_link r i s2"
  let ?r3 = "?r2\<lparr>rs_links := (rs_links ?r2)(i := s3), rs_state := st', rs_log := rs_log ?r2 @ [(i, ?rid, f, as, v)]\<rparr>"
  have "(service_step C fs run)\<^sup>*\<^sup>* r (with_link r i s1)"
    by (rule service_link_step [OF rtranclp.rtrancl_refl _ _ refl]) (use st1 in \<open>simp_all add: s_def [symmetric] s1_def\<close>)
  then have "(service_step C fs run)\<^sup>*\<^sup>* r ?r2"
    by (rule service_link_step [of _ _ _ _ _ i s2]) (use st2 in \<open>simp_all add: s2_def\<close>)
  moreover have "service_step C fs run ?r2 ?r3"
    using service_step.exec [of ?r2 i "[]" ?rid _ _ "[]" C f as run v st' fs, OF _ task] s3 run by (simp add: s2_def)
  ultimately have "(service_step C fs run)\<^sup>*\<^sup>* r ?r3" by simp
  then have "(service_step C fs run)\<^sup>*\<^sup>* r (with_link ?r3 i s4)"
    by (rule service_link_step [OF _ _ _ refl]) (use st4 in \<open>simp_all add: s4_def\<close>)
  then show ?thesis
    by (rule service_link_step [of _ _ _ _ _ i "call_returned s fut name f as v"])
       (use st5 in \<open>simp_all add: call_returned_def s4_def s3_def s1_def\<close>)
qed

end

text \<open>Two clients that call one after the other.\<close>

definition first_call :: "future \<Rightarrow> string \<Rightarrow> func \<Rightarrow> 'v list \<Rightarrow> 'v \<Rightarrow> 's \<Rightarrow> ('v, 's) rpc_service" where
  "first_call fut name f as v st =
     \<lparr>rs_links = (\<lambda>_. rpc_start)(0 := call_returned rpc_start fut name f as v), rs_state = st, rs_log = [(0, 0, f, as, v)]\<rparr>"

definition second_call ::
  "('v, 's) rpc_service \<Rightarrow> future \<Rightarrow> string \<Rightarrow> func \<Rightarrow> 'v list \<Rightarrow> 'v \<Rightarrow> 's \<Rightarrow> ('v, 's) rpc_service" where
  "second_call r fut name f as v st =
     r\<lparr>rs_links := (rs_links r)(1 := call_returned rpc_start fut name f as v), rs_state := st,
       rs_log := rs_log r @ [(1, 0, f, as, v)]\<rparr>"

abbreviation both_calls ::
  "future \<Rightarrow> string \<Rightarrow> func \<Rightarrow> 'v list \<Rightarrow> 'v \<Rightarrow> 's \<Rightarrow> future \<Rightarrow> string \<Rightarrow> func \<Rightarrow> 'v list \<Rightarrow> 'v \<Rightarrow> 's \<Rightarrow> ('v, 's) rpc_service" where
  "both_calls fut1 name1 f1 as1 v1 st1 fut2 name2 f2 as2 v2 st2 \<equiv>
     second_call (first_call fut1 name1 f1 as1 v1 st1) fut2 name2 f2 as2 v2 st2"

lemma two_calls_facts:
  "sy_calls (rs_links (first_call fut1 name1 f1 as1 v1 st1) 0) = [(fut1, 0, name1, as1)]"
  "sy_done (rs_links (first_call fut1 name1 f1 as1 v1 st1) 0) = [(fut1, Got v1)]"
  "sy_calls (rs_links (first_call fut1 name1 f1 as1 v1 st1) 1) = []"
  "sy_calls (rs_links (both_calls fut1 name1 f1 as1 v1 st1 fut2 name2 f2 as2 v2 st2) 1) = [(fut2, 0, name2, as2)]"
  "sy_done (rs_links (both_calls fut1 name1 f1 as1 v1 st1 fut2 name2 f2 as2 v2 st2) 1) = [(fut2, Got v2)]"
  "sy_calls (rs_links (both_calls fut1 name1 f1 as1 v1 st1 fut2 name2 f2 as2 v2 st2) j) =
     (if j = 0 then [(fut1, 0, name1, as1)] else if j = 1 then [(fut2, 0, name2, as2)] else [])"
  by (simp_all add: first_call_def second_call_def call_returned_def rpc_start_def new_client_def)

context msgpack
begin

lemma two_calls:
  assumes "map_of fs name1 = Some (f1, length as1)" and "run f1 as1 st0 = Inr (v1, st1)"
  shows "service_reach C fs run st0 (first_call fut1 name1 f1 as1 v1 st1)"
    and "map_of fs name2 = Some (f2, length as2) \<Longrightarrow> run f2 as2 st1 = Inr (v2, st2) \<Longrightarrow>
      (service_step C fs run)\<^sup>*\<^sup>* (first_call fut1 name1 f1 as1 v1 st1)
        (both_calls fut1 name1 f1 as1 v1 st1 fut2 name2 f2 as2 v2 st2)"
proof -
  have "(service_step C fs run)\<^sup>*\<^sup>* (service_start st0) (first_call fut1 name1 f1 as1 v1 st1)"
    using service_call_completes [OF service_reach.start, where i = 0 and fut = fut1, OF _ _ _ _ assms(1)] assms(2)
    by (simp add: service_start_def first_call_def start_idle)
  then show r: "service_reach C fs run st0 (first_call fut1 name1 f1 as1 v1 st1)"
    by (rule service_reach_steps [OF _ service_reach.start])
  assume "map_of fs name2 = Some (f2, length as2)" "run f2 as2 st1 = Inr (v2, st2)"
  with service_call_completes [OF r, of 1 fut2 name2 f2 as2 v2 st2]
  show "(service_step C fs run)\<^sup>*\<^sup>* (first_call fut1 name1 f1 as1 v1 st1)
      (both_calls fut1 name1 f1 as1 v1 st1 fut2 name2 f2 as2 v2 st2)"
    by (simp add: first_call_def second_call_def start_idle)
qed

end

subsection \<open>An example\<close>

text \<open>Two clients of one function that adds its argument to a counter and returns the sum.\<close>

definition add_run :: "(nat, nat) run" where
  "add_run g as st = (case as of [n] \<Rightarrow> Inr (st + n, st + n) | _ \<Rightarrow> Inl UncaughtException)"

definition example_first :: "(nat, nat) rpc_service" where
  "example_first = first_call 7 [CHR 0x01] 1 [2] 2 2"

definition example_second :: "(nat, nat) rpc_service" where
  "example_second = second_call example_first 8 [CHR 0x01] 1 [3] 5 5"

lemma example_services:
  shows "service_reach unary example_funcs add_run 0 example_first"
    and "(service_step unary example_funcs add_run)\<^sup>*\<^sup>* example_first example_second"
  unfolding example_second_def example_first_def
  by (rule unary.two_calls; simp add: example_funcs_def add_run_def)+

end
