(* ===== verification/Service_Object.thy ===== *)
theory Service_Object
  imports Service_Node Rpc_Service
begin

section \<open>The service node as an RPC server\<close>

text \<open>
  The class \<open>ServiceNode\<close> of \<open>rpc/service_node.{h,cc}\<close> around \<open>ServiceNode::Internal\<close>: its
  constructor registers three functions with an \<open>RPCServer\<close>, its public methods forward to the
  internal object, and its destructor takes both down. The values that travel are strings, ports
  and the \<open>bool\<close> that the functions return; arguments that do not convert make msgpack throw.
\<close>

datatype sn_val = SnString string | SnPort u16 | SnBool bool

record service_object =
  so_rpc_server :: "rpc_server option"
  so_internal :: "service_node option"

definition new_ServiceNode :: "string \<Rightarrow> i32 \<Rightarrow> sn_val rpc_event list \<times> service_object" where
  "new_ServiceNode host port =
     (let server = new_server;
          internal = new_internal host (ucast port);
          server = registerFunction server ''addPeer'' (0, 2);
          server = registerFunction server ''addToGroup'' (1, 2);
          server = registerFunction server ''removeFromGroup'' (2, 2)
      in (sv_start, \<lparr>so_rpc_server = Some server, so_internal = Some internal\<rparr>))"

text \<open>The pointer \<open>_internal\<close>, dereferenced by every method.\<close>

definition internal_of :: "service_object \<Rightarrow> service_node res" where
  "internal_of so = (case so_internal so of None \<Rightarrow> Inl NullDeref | Some n \<Rightarrow> Inr n)"

definition so_host :: "service_object \<Rightarrow> string res" where
  "so_host so = rbind (internal_of so) (\<lambda>n. Inr (sn_host n))"

definition so_port :: "service_object \<Rightarrow> u16 res" where
  "so_port so = rbind (internal_of so) (\<lambda>n. Inr (sn_port n))"

definition so_addPeer :: "service_object \<Rightarrow> client option \<Rightarrow> string \<Rightarrow> u16 \<Rightarrow> (sn_event list \<times> service_object) res" where
  "so_addPeer so sock host port = rbind (internal_of so) (\<lambda>n.
     case RPCAddPeer n sock host port of (ret, ev, n) \<Rightarrow> Inr (ev, so\<lparr>so_internal := Some n\<rparr>))"

definition so_addToGroup :: "service_object \<Rightarrow> string \<Rightarrow> string \<Rightarrow> (sn_event list \<times> service_object) res" where
  "so_addToGroup so grp name = rbind (internal_of so) (\<lambda>n.
     rbind (addToGroup n grp name) (\<lambda>(ev, n). Inr (ev, so\<lparr>so_internal := Some n\<rparr>)))"

definition so_removeFromGroup :: "service_object \<Rightarrow> string \<Rightarrow> string \<Rightarrow> (sn_event list \<times> service_object) res" where
  "so_removeFromGroup so grp name = rbind (internal_of so) (\<lambda>n.
     rbind (removeFromGroup n grp name) (\<lambda>(ev, n). Inr (ev, so\<lparr>so_internal := Some n\<rparr>)))"

definition so_addGroupCallback :: "service_object \<Rightarrow> string \<Rightarrow> callback \<Rightarrow> (sn_event list \<times> service_object) res" where
  "so_addGroupCallback so grp cb = rbind (internal_of so) (\<lambda>n.
     case addGroupCallback n grp cb of (ev, n) \<Rightarrow> Inr (ev, so\<lparr>so_internal := Some n\<rparr>))"

definition so_removeGroupCallback :: "service_object \<Rightarrow> string \<Rightarrow> service_object res" where
  "so_removeGroupCallback so grp = rbind (internal_of so) (\<lambda>n.
     Inr (so\<lparr>so_internal := Some (removeGroupCallback n grp)\<rparr>))"

text \<open>
  The destructor: the result is what \<open>~Internal\<close> asks of the peers' clients, what \<open>~RPCServer\<close> asks of
  its socket, and the connections it drops.
\<close>

definition destroy_ServiceNode ::
  "service_object \<Rightarrow> (sn_event list \<times> sn_val rpc_event list \<times> nat set \<times> service_object) res" where
  "destroy_ServiceNode so = rbind (internal_of so) (\<lambda>n.
     let n = shutdown n;
         (ev, conns) = (case so_rpc_server so of None \<Rightarrow> ([], {}) | Some server \<Rightarrow> destroy_server server)
     in rbind (destroy_internal n) (\<lambda>(ev', n).
          Inr (ev', ev, conns, so\<lparr>so_rpc_server := None, so_internal := None\<rparr>)))"

subsection \<open>Calls between nodes\<close>

text \<open>What a node sends when it calls a peer.\<close>

fun peer_request :: "peer_call \<Rightarrow> string \<times> sn_val list" where
  "peer_request (AddPeer host port) = (''addPeer'', [SnString host, SnPort port])"
| "peer_request (AddToGroup grp name) = (''addToGroup'', [SnString grp, SnString name])"
| "peer_request (RemoveFromGroup grp name) = (''removeFromGroup'', [SnString grp, SnString name])"

text \<open>
  What the three functions run. When \<open>addPeer\<close> returns the future of a call on a new client, its value
  is the answer \<open>ans\<close> that this client gets.
\<close>

definition sn_function ::
  "(addr \<Rightarrow> client option) \<Rightarrow> (client \<Rightarrow> bool) \<Rightarrow> func \<Rightarrow> sn_val list \<Rightarrow> service_node \<Rightarrow>
   (sn_val \<times> sn_event list \<times> service_node) res" where
  "sn_function conn ans f as n =
     (if f = 0 then (case as of
        [SnString host, SnPort port] \<Rightarrow>
          (case RPCAddPeer n (conn (host, port)) host port of (ret, ev, n) \<Rightarrow>
             Inr (SnBool (case ret of Ready b \<Rightarrow> b | AnswerOf c \<Rightarrow> ans c), ev, n))
      | _ \<Rightarrow> Inl UncaughtException)
      else if f = 1 then (case as of
        [SnString grp, SnString v] \<Rightarrow> rbind (RPCAddToGroup n grp v) (\<lambda>r. Inr (SnBool True, r))
      | _ \<Rightarrow> Inl UncaughtException)
      else (case as of
        [SnString grp, SnString v] \<Rightarrow> rbind (RPCRemoveFromGroup n grp v) (\<lambda>r. Inr (SnBool True, r))
      | _ \<Rightarrow> Inl UncaughtException))"

text \<open>The state of the server: what the node has asked of others so far, and the node.\<close>

definition service_run ::
  "(addr \<Rightarrow> client option) \<Rightarrow> (client \<Rightarrow> bool) \<Rightarrow> (sn_val, sn_event list \<times> service_node) run" where
  "service_run conn ans f as s =
     rbind (sn_function conn ans f as (snd s)) (\<lambda>(v, ev, n). Inr (v, fst s @ ev, n))"

definition service_funcs :: funcs where
  "service_funcs = (case so_rpc_server (snd (new_ServiceNode [] 0)) of None \<Rightarrow> [] | Some server \<Rightarrow> sv_funcs server)"

lemma new_service_funcs:
  "so_rpc_server (snd (new_ServiceNode host port)) = Some server \<Longrightarrow> sv_funcs server = service_funcs"
  by (auto simp: service_funcs_def new_ServiceNode_def Let_def)

fun call_number :: "peer_call \<Rightarrow> func" where
  "call_number (AddPeer host port) = 0"
| "call_number (AddToGroup grp name) = 1"
| "call_number (RemoveFromGroup grp name) = 2"

fun call_answer :: "(addr \<Rightarrow> client option) \<Rightarrow> (client \<Rightarrow> bool) \<Rightarrow> service_node \<Rightarrow> peer_call \<Rightarrow> bool" where
  "call_answer conn ans n (AddPeer host port) =
     (case fst (RPCAddPeer n (conn (host, port)) host port) of Ready b \<Rightarrow> b | AnswerOf c \<Rightarrow> ans c)"
| "call_answer conn ans n _ = True"

lemma request_found:
  "map_of service_funcs (fst (peer_request pc)) = Some (call_number pc, length (snd (peer_request pc)))"
  by (cases pc) (simp_all add: service_funcs_def new_ServiceNode_def registerFunction_def new_server_def map_of_map_store Let_def)

text \<open>What arrives is the call that was made.\<close>

lemma request_handled:
  "sn_function conn ans (call_number pc) (snd (peer_request pc)) n =
     rbind (handle_call conn n pc) (\<lambda>r. Inr (SnBool (call_answer conn ans n pc), r))"
  by (cases pc) (auto simp: sn_function_def split: prod.split)

lemma request_run:
  "service_run conn ans (call_number pc) (snd (peer_request pc)) (ev, n) =
     rbind (handle_call conn n pc) (\<lambda>r. Inr (SnBool (call_answer conn ans n pc), ev @ fst r, snd r))"
  unfolding service_run_def snd_conv request_handled
  by (cases "handle_call conn n pc") (auto simp: case_prod_unfold)

lemma peer_request_inj: "peer_request pc = peer_request pc' \<Longrightarrow> pc = pc'"
  by (cases pc; cases pc') simp_all

subsection \<open>Additions are counted\<close>

text \<open>The executions of \<open>addToGroup\<close> for a name in a list of executions.\<close>

abbreviation adds :: "string \<Rightarrow> string \<Rightarrow> sn_val execution \<Rightarrow> bool" where
  "adds g x e \<equiv> snd (request_of e) = (1, snd (peer_request (AddToGroup g x)))"

definition additions :: "string \<Rightarrow> string \<Rightarrow> sn_val execution list \<Rightarrow> nat" where
  "additions g x l = length (filter (adds g x) l)"

lemma addition_step:
  assumes "RPCAddToGroup n g x = Inr (ev, n')" and "k < 2 ^ 31"
    and "count_of (sn_groups n) g x = (if k = 0 then None else Some (of_nat k))"
  shows "Suc k < 2 ^ 31 \<and> count_of (sn_groups n') h y = (if h = g \<and> y = x then Some (of_nat (Suc k)) else count_of (sn_groups n) h y)"
proof (cases "k = 0")
  case True
  then show ?thesis using assms by (auto simp: RPCAddToGroup_def)
next
  case False
  have k: "sint (of_nat k :: i32) = int k" using assms(2) by (simp add: signed_of_nat signed_take_bit_int_eq_self_iff)
  have c: "count_of (touch (sn_groups n) g) g x = Some (of_nat k)" using assms(3) False by simp
  then obtain c' where c': "count_up (of_nat k) = Inr c'"
    using assms(1) by (cases "count_up (of_nat k :: i32)") (simp_all add: RPCAddToGroup_def)
  then have "int k \<noteq> 2 ^ 31 - 1" "c' = of_nat (Suc k)" using k by (auto simp: count_up_def split: if_splits)
  with assms c c' show ?thesis by (auto simp: RPCAddToGroup_def)
qed

lemma replay_additions:
  "\<forall>e \<in> set l. \<exists>g x. adds g x e \<Longrightarrow> replay (service_run conn ans) l ([], new_internal host port) = Some (ev, n) \<Longrightarrow>
   additions g x l < 2 ^ 31 \<and>
   count_of (sn_groups n) g x = (if additions g x l = 0 then None else Some (of_nat (additions g x l)))"
proof (induction l arbitrary: ev n g x rule: rev_induct)
  case Nil
  then show ?case by (auto simp: additions_def new_internal_def count_of_def)
next
  case (snoc e l)
  obtain i rid f as v where e: "e = (i, rid, f, as, v)" by (rule prod_cases5 [of e])
  then obtain g0 x0 where g0: "f = 1" "as = snd (peer_request (AddToGroup g0 x0))" using snoc.prems(1) by auto
  obtain s where s: "replay (service_run conn ans) l ([], new_internal host port) = Some s"
      "replay (service_run conn ans) [e] s = Some (ev, n)"
    using snoc.prems(2) unfolding replay_append by (auto simp: bind_eq_Some_conv)
  obtain ev1 n1 where n1: "s = (ev1, n1)" by force
  have "service_run conn ans 1 as (ev1, n1) = Inr (v, ev, n)"
    using s(2) by (auto simp: e g0(1) n1 split: sum.splits if_splits)
  then obtain ev2 where add: "RPCAddToGroup n1 g0 x0 = Inr (ev2, n)"
    using request_run [of conn ans "AddToGroup g0 x0" ev1 n1] g0(2) by (cases "RPCAddToGroup n1 g0 x0") auto
  have IH: "additions g x l < 2 ^ 31 \<and>
      count_of (sn_groups n1) g x = (if additions g x l = 0 then None else Some (of_nat (additions g x l)))" for g x
    using snoc.IH [of ev1 n1 g x] snoc.prems(1) s(1) n1 by auto
  have more: "additions g x (l @ [e]) = additions g x l + (if g = g0 \<and> x = x0 then 1 else 0)" for g x
    by (auto simp: additions_def e g0)
  note st = addition_step [OF add, of "additions g0 x0 l"] IH [of g0 x0]
  show ?case
  proof (cases "g = g0 \<and> x = x0")
    case True
    then show ?thesis using st more [of g x] by auto
  next
    case False
    then show ?thesis using st IH [of g x] more [of g x] by auto
  qed
qed

text \<open>The executions of all links are the calls of all clients.\<close>

lemma length_by_key: "\<forall>e \<in> set l. key e < (k :: nat) \<Longrightarrow> length l = (\<Sum>i<k. length (filter (\<lambda>e. key e = i) l))"
proof (induction l)
  case (Cons e l)
  then have "(\<Sum>i<k. length (filter (\<lambda>e. key e = i) (e # l))) =
      (\<Sum>i<k. length (filter (\<lambda>e. key e = i) l) + (if key e = i then 1 else 0))"
    by (intro sum.cong) auto
  also have "\<dots> = length l + 1" using Cons by (simp add: sum.distrib)
  finally show ?case by simp
qed simp

definition calls_adding :: "string \<Rightarrow> string \<Rightarrow> sn_val rpc_sys \<Rightarrow> nat" where
  "calls_adding g x s = length (filter (\<lambda>c. snd (snd c) = peer_request (AddToGroup g x)) (sy_calls s))"

lemma link_additions:
  assumes "msgpack C" and "service_reach C service_funcs run st0 r" and "rpc_idle (rs_links r i)"
    and "\<forall>c \<in> set (sy_calls (rs_links r i)). \<exists>g x. snd (snd c) = peer_request (AddToGroup g x)"
  shows "additions g x (filter (\<lambda>e. fst e = i) (rs_log r)) = calls_adding g x (rs_links r i)"
proof -
  let ?q = "(1, snd (peer_request (AddToGroup g x)))" and ?calls = "sy_calls (rs_links r i)"
  have "additions g x (filter (\<lambda>e. fst e = i) (rs_log r)) =
      size (filter_mset (\<lambda>q. snd q = ?q) (mset (map request_of (filter (\<lambda>e. fst e = i) (rs_log r)))))"
    by (simp add: additions_def filter_map mset_filter [symmetric] comp_def del: mset_filter mset_map filter_filter)
  also have "\<dots> = size (filter_mset (\<lambda>q. snd q = ?q) (mset (map (call_request service_funcs) ?calls)))"
    using msgpack.idle_requests [OF assms(1-3)] by simp
  also have "\<dots> = length (filter (\<lambda>c. snd (call_request service_funcs c) = ?q) ?calls)"
    by (simp add: filter_map mset_filter [symmetric] comp_def del: mset_filter mset_map)
  also have "\<dots> = calls_adding g x (rs_links r i)"
  proof -
    have "snd (call_request service_funcs c) = ?q \<longleftrightarrow> snd (snd c) = peer_request (AddToGroup g x)" if c: "c \<in> set ?calls" for c
    proof -
      obtain g' x' where "snd (snd c) = peer_request (AddToGroup g' x')" using assms(4) c by blast
      then show ?thesis
        using request_found [of "AddToGroup g' x'"] by (cases c) (auto simp: call_request_def)
    qed
    then show ?thesis by (simp add: calls_adding_def cong: filter_cong)
  qed
  finally show ?thesis .
qed

lemma all_additions:
  assumes "msgpack C" and "service_reach C service_funcs run st0 r" and "\<forall>i. rpc_idle (rs_links r i)"
    and "\<forall>i. \<forall>c \<in> set (sy_calls (rs_links r i)). \<exists>g x. snd (snd c) = peer_request (AddToGroup g x)"
    and "\<forall>i \<ge> k. sy_calls (rs_links r i) = []"
  shows "additions g x (rs_log r) = (\<Sum>i<k. calls_adding g x (rs_links r i))"
    and "\<forall>e \<in> set (rs_log r). \<exists>g x. adds g x e"
proof -
  have req: "\<exists>fut name. (fut, fst (snd e), name, fst (snd (snd (snd e)))) \<in> set (sy_calls (rs_links r (fst e))) \<and>
      map_of service_funcs name = Some (fst (snd (snd e)), length (fst (snd (snd (snd e)))))" if "e \<in> set (rs_log r)" for e
    using msgpack.service_request [OF assms(1,2), of "fst e"] that by (metis prod.collapse)
  have "fst e < k" if "e \<in> set (rs_log r)" for e
    using req [OF that] assms(5) by (metis empty_iff list.set(1) not_le)
  then have "length (filter (adds g x) (rs_log r)) =
      (\<Sum>i<k. length (filter (\<lambda>e. fst e = i) (filter (adds g x) (rs_log r))))" by (intro length_by_key) simp
  also have "\<dots> = (\<Sum>i<k. additions g x (filter (\<lambda>e. fst e = i) (rs_log r)))"
    by (simp add: additions_def conj_commute)
  also have "\<dots> = (\<Sum>i<k. calls_adding g x (rs_links r i))"
    using link_additions [OF assms(1,2)] assms(3,4) by simp
  finally show "additions g x (rs_log r) = (\<Sum>i<k. calls_adding g x (rs_links r i))" by (simp add: additions_def)
  show "\<forall>e \<in> set (rs_log r). \<exists>g x. adds g x e"
  proof
    fix e assume "e \<in> set (rs_log r)"
    then obtain fut name where c: "(fut, fst (snd e), name, fst (snd (snd (snd e)))) \<in> set (sy_calls (rs_links r (fst e)))"
      "map_of service_funcs name = Some (fst (snd (snd e)), length (fst (snd (snd (snd e)))))" using req by blast
    then obtain g x where "(name, fst (snd (snd (snd e)))) = peer_request (AddToGroup g x)" using assms(4) by fastforce
    with c(2) request_found [of "AddToGroup g x"] have "adds g x e" by simp
    then show "\<exists>g x. adds g x e" by blast
  qed
qed

subsection \<open>Properties\<close>

text \<open>A concrete encoding of the values.\<close>

fun sn_nums :: "sn_val \<Rightarrow> nat list" where
  "sn_nums (SnString s) = 0 # map of_char s"
| "sn_nums (SnPort p) = [1, unat p]"
| "sn_nums (SnBool b) = [2, of_bool b]"

definition nums_sn :: "nat list \<Rightarrow> sn_val option" where
  "nums_sn ns = (case ns of [] \<Rightarrow> None | t # ms \<Rightarrow>
     if t = 0 then Some (SnString (map char_of ms)) else if t = 1 then Some (SnPort (of_nat (hd ms))) else Some (SnBool (ms = [1])))"

definition sn_codec :: "sn_val codec" where
  "sn_codec = unary_via sn_nums nums_sn"

interpretation sn_codec: msgpack sn_codec
proof -
  have "nums_sn (sn_nums v) = Some v" for v
    by (cases v) (simp_all add: nums_sn_def comp_def)
  then show "msgpack sn_codec" unfolding sn_codec_def by (rule msgpack_unary_via)
qed

text \<open>
  C19. A call on a peer reaches its handler: a call that a node makes on the client of a peer, sent
  as bytes, received, dispatched by name and run on a worker of the peer's server, does to the peer
  exactly what the handler of that call does, error for error, and the caller's future is set to the
  handler's answer.
\<close>

theorem peer_call_reaches_handler:
  assumes "msgpack C" and "so_rpc_server (snd (new_ServiceNode host port)) = Some server"
    and "cl_pac cl = []" and "co_pac co = []" and "map_of (cl_respCallbacks cl) (cl_reqId cl) = None"
    and "map_ok (cl_respCallbacks cl)"
  shows "exchange C (sv_funcs server) (service_run conn ans)
      (\<lambda>cl. cl_call C cl fut (fst (peer_request pc)) (snd (peer_request pc))) (cl, co, ev, n) =
    rbind (handle_call conn n pc) (\<lambda>r.
      Inr ([(fut, Got (SnBool (call_answer conn ans n pc)))], cl\<lparr>cl_reqId := cl_reqId cl + 1\<rparr>, co, ev @ fst r, snd r))"
  unfolding new_service_funcs [OF assms(2)] msgpack.exchange_call [OF assms(1,3-6) request_found] request_run
  by (simp add: rbind_assoc)

theorem peer_call_reaches_handler_witness:
  "\<exists>cl. exchange sn_codec service_funcs (service_run (\<lambda>a. None) (\<lambda>c. True))
      (\<lambda>cl. cl_call sn_codec cl 5 ''addToGroup'' [SnString ''g'', SnString ''x'']) (new_client, new_conn, [], new_internal ''h'' 1) =
    Inr ([(5, Got (SnBool True))], cl, new_conn, [], (new_internal ''h'' 1)\<lparr>sn_groups := [(''g'', [(''x'', 1)])]\<rparr>)"
proof -
  obtain server where server: "so_rpc_server (snd (new_ServiceNode ''h'' 1)) = Some server"
    by (simp add: new_ServiceNode_def Let_def)
  have "handle_call (\<lambda>a. None) (new_internal ''h'' 1) (AddToGroup ''g'' ''x'') =
      Inr ([], (new_internal ''h'' 1)\<lparr>sn_groups := [(''g'', [(''x'', 1)])]\<rparr>)" by code_simp
  with peer_call_reaches_handler [OF sn_codec.msgpack_axioms server, of new_client new_conn "\<lambda>a. None" "\<lambda>c. True" 5
      "AddToGroup ''g'' ''x''" "[]" "new_internal ''h'' 1"] new_service_funcs [OF server]
  show ?thesis by (simp add: new_client_def new_conn_def)
qed

text \<open>
  C13. Every addition is counted once: when any number of peers have called \<open>addToGroup\<close> of one node
  concurrently and nothing is in flight, the count of every name in every group is the number of
  those calls that named it, over all peers; a name nobody added is not a member.
\<close>

theorem concurrent_additions_are_all_counted:
  assumes "msgpack C" and "service_reach C service_funcs (service_run conn ans) ([], new_internal host port) r"
    and "\<forall>i. rpc_idle (rs_links r i)" and "\<forall>i \<ge> k. sy_calls (rs_links r i) = []"
    and "\<forall>i. \<forall>c \<in> set (sy_calls (rs_links r i)). \<exists>g x. snd (snd c) = peer_request (AddToGroup g x)"
  shows "count_of (sn_groups (snd (rs_state r))) g x =
    (let total = \<Sum>i<k. calls_adding g x (rs_links r i) in if total = 0 then None else Some (of_nat total))"
proof -
  note all = all_additions [OF assms(1-3,5,4)]
  have "replay (service_run conn ans) (rs_log r) ([], new_internal host port) = Some (fst (rs_state r), snd (rs_state r))"
    using msgpack.service_reach_inv [OF assms(1,2)] by (simp add: service_inv_def)
  from replay_additions [OF all(2) this, of g x] show ?thesis by (simp add: all(1) Let_def)
qed

theorem concurrent_additions_are_all_counted_witness:
  "\<exists>r. service_reach sn_codec service_funcs (service_run (\<lambda>a. None) (\<lambda>c. True)) ([], new_internal ''h'' 1) r \<and>
     calls_adding ''g'' ''x'' (rs_links r 0) = 1 \<and> calls_adding ''g'' ''x'' (rs_links r 1) = 1 \<and>
     count_of (sn_groups (snd (rs_state r))) ''g'' ''x'' = Some 2"
proof -
  let ?run = "service_run (\<lambda>a. None) (\<lambda>c. True)" and ?as = "[SnString ''g'', SnString ''x'']"
  let ?n0 = "new_internal ''h'' 1" and ?name = "''addToGroup''"
  let ?n1 = "?n0\<lparr>sn_groups := [(''g'', [(''x'', 1)])]\<rparr>" and ?n2 = "?n0\<lparr>sn_groups := [(''g'', [(''x'', 2)])]\<rparr>"
  have run: "?run 1 ?as ([], ?n0) = Inr (SnBool True, [], ?n1)" "?run 1 ?as ([], ?n1) = Inr (SnBool True, [], ?n2)"
    by code_simp+
  have fs: "map_of service_funcs ?name = Some (1, length ?as)" using request_found [of "AddToGroup ''g'' ''x''"] by simp
  define r where "r = both_calls 3 ?name 1 ?as (SnBool True) ([] :: sn_event list, ?n1) 4 ?name 1 ?as (SnBool True) ([], ?n2)"
  note two = msgpack.two_calls [OF sn_codec.msgpack_axioms, where run = ?run and ?st0.0 = "([], ?n0)", OF fs run(1)]
  have reach: "service_reach sn_codec service_funcs ?run ([], ?n0) r"
    unfolding r_def by (rule service_reach_steps [OF two(2) [OF fs run(2)] two(1)])
  have links: "rs_links r i = (if i = 0 then call_returned rpc_start 3 ?name 1 ?as (SnBool True)
      else if i = 1 then call_returned rpc_start 4 ?name 1 ?as (SnBool True) else rpc_start)" for i
    by (simp add: r_def first_call_def second_call_def)
  have calls: "sy_calls (rs_links r i) = (if i = 0 then [(3, 0, ?name, ?as)] else if i = 1 then [(4, 0, ?name, ?as)] else [])" for i
    unfolding r_def by (rule two_calls_facts(6))
  have "\<forall>i. rpc_idle (rs_links r i)" by (simp add: links rpc_idle_def call_returned_def rpc_start_def)
  moreover have "\<forall>i \<ge> 2. sy_calls (rs_links r i) = []" by (simp add: calls)
  moreover have "\<forall>i. \<forall>c \<in> set (sy_calls (rs_links r i)). \<exists>g x. snd (snd c) = peer_request (AddToGroup g x)" by (simp add: calls)
  ultimately have "count_of (sn_groups (snd (rs_state r))) ''g'' ''x'' =
      (let total = \<Sum>i<2. calls_adding ''g'' ''x'' (rs_links r i) in if total = 0 then None else Some (of_nat total))"
    by (rule concurrent_additions_are_all_counted [OF sn_codec.msgpack_axioms reach])
  moreover have "calls_adding ''g'' ''x'' (rs_links r 0) = 1" "calls_adding ''g'' ''x'' (rs_links r 1) = 1"
    by (simp_all add: calls_adding_def calls)
  ultimately show ?thesis using reach by (intro exI [of _ r]) (simp add: numeral_2_eq_2)
qed

text \<open>
  What the destructor does: \<open>shutdown\<close> forgets the peers first, so the loop of \<open>~Internal\<close> finds none
  and the peers' clients are left to their own destructors.
\<close>

lemma destroy_leaves_clients:
  "so_internal so \<noteq> None \<Longrightarrow> \<exists>ev conns so'. destroy_ServiceNode so = Inr ([], ev, conns, so') \<and>
     so_internal so' = None \<and> so_rpc_server so' = None"
  by (auto simp: destroy_ServiceNode_def internal_of_def shutdown_def destroy_internal_def case_prod_unfold Let_def)

end
