(* ===== verification/Posix.thy ===== *)
theory Posix
  imports Std_Map
begin

section \<open>The operating system's files\<close>

text \<open>
  The system calls of \<open>FileBlockStore\<close> as a record of functions over an unknown world, and the
  contract \<open>posix_dir\<close>: what the calls do to the regular files of one directory and to the
  descriptors open on them. The contract leaves failures open: every call may fail, and
  \<open>write\<close> may store fewer bytes than asked. A directory stream is represented by the entries
  it will still deliver, each with its name and whether it is a regular file.

  Two assumptions are those of a local file system of regular files, and stronger than the manual
  pages: a \<open>read\<close> that succeeds delivers all bytes asked for up to the end of the file (no short
  reads), and \<open>d_type\<close> is exact (a regular file is never \<open>DT_UNKNOWN\<close>).

  An in-memory file system with a bounded amount of room satisfies the contract (\<open>mem\<close>).
\<close>

record 'w posix =
  open_w :: "string \<Rightarrow> 'w \<Rightarrow> int option \<times> 'w" \<comment> \<open>\<open>open(path, O_CREAT|O_TRUNC|O_WRONLY, 0777)\<close>\<close>
  open_r :: "string \<Rightarrow> 'w \<Rightarrow> int option \<times> 'w" \<comment> \<open>\<open>open(path, O_RDONLY)\<close>\<close>
  write_fd :: "int \<Rightarrow> bytes \<Rightarrow> 'w \<Rightarrow> int \<times> 'w"
  read_fd :: "int \<Rightarrow> nat \<Rightarrow> 'w \<Rightarrow> bytes option \<times> 'w" \<comment> \<open>\<open>None\<close> for -1\<close>
  close_fd :: "int \<Rightarrow> 'w \<Rightarrow> 'w"
  unlink_path :: "string \<Rightarrow> 'w \<Rightarrow> bool \<times> 'w" \<comment> \<open>whether it returned 0\<close>
  statfs_path :: "string \<Rightarrow> 'w \<Rightarrow> (u64 \<times> u64) option" \<comment> \<open>\<open>f_bavail\<close> and \<open>f_bsize\<close>\<close>
  opendir_path :: "string \<Rightarrow> 'w \<Rightarrow> (string \<times> bool) list option"

definition is_name :: "string \<Rightarrow> bool" where
  "is_name k \<longleftrightarrow> k \<noteq> [] \<and> CHR ''/'' \<notin> set k \<and> CHR 0x00 \<notin> set k"

definition slash :: "string \<Rightarrow> string" where
  "slash d = (if d \<noteq> [] \<and> last d = CHR ''/'' then d else d @ ''/'')"

locale posix_dir =
  fixes P :: "'w posix" and d :: string
    and files :: "'w \<Rightarrow> string \<Rightarrow> bytes option"
    and fds :: "'w \<Rightarrow> int \<Rightarrow> (string \<times> nat) option"
  assumes open_w_Some: "is_name k \<Longrightarrow> open_w P (slash d @ k) w = (Some fd, w') \<Longrightarrow>
      fds w fd = None \<and> fds w' = (fds w)(fd \<mapsto> (k, 0)) \<and> files w' = (files w)(k \<mapsto> [])"
    and open_w_None: "is_name k \<Longrightarrow> open_w P (slash d @ k) w = (None, w') \<Longrightarrow>
      fds w' = fds w \<and> files w' = files w"
    and open_r_Some: "is_name k \<Longrightarrow> open_r P (slash d @ k) w = (Some fd, w') \<Longrightarrow>
      fds w fd = None \<and> fds w' = (fds w)(fd \<mapsto> (k, 0)) \<and> files w' = files w"
    and open_r_None: "is_name k \<Longrightarrow> open_r P (slash d @ k) w = (None, w') \<Longrightarrow>
      fds w' = fds w \<and> files w' = files w"
    and write_end: "fds w fd = Some (k, pos) \<Longrightarrow> files w k = Some c \<Longrightarrow> pos = length c \<Longrightarrow>
      write_fd P fd bs w = (r, w') \<Longrightarrow>
      r \<le> int (length bs) \<and> files w' = (files w)(k \<mapsto> c @ take (nat r) bs) \<and>
      fds w' = (fds w)(fd \<mapsto> (k, pos + nat r))"
    and read_Some: "fds w fd = Some (k, pos) \<Longrightarrow> files w k = Some c \<Longrightarrow> read_fd P fd n w = (Some bs, w') \<Longrightarrow>
      bs = take n (drop pos c) \<and> fds w' = (fds w)(fd \<mapsto> (k, pos + length bs))"
    and read_None: "read_fd P fd n w = (None, w') \<Longrightarrow> fds w' = fds w"
    and read_files: "read_fd P fd n w = (got, w') \<Longrightarrow> files w' = files w"
    and read_length: "read_fd P fd n w = (Some bs, w') \<Longrightarrow> length bs \<le> n"
    and read_not_regular: "is_name k \<Longrightarrow> files w k = None \<Longrightarrow> open_r P (slash d @ k) w = (Some fd, w') \<Longrightarrow>
      \<exists>w''. read_fd P fd n w' = (None, w'')"
    and close_law: "files (close_fd P fd w) = files w \<and> fds (close_fd P fd w) = (fds w)(fd := None)"
    and unlink_True: "is_name k \<Longrightarrow> unlink_path P (slash d @ k) w = (True, w') \<Longrightarrow>
      files w' = (files w)(k := None) \<and> fds w' = fds w"
    and unlink_False: "is_name k \<Longrightarrow> unlink_path P (slash d @ k) w = (False, w') \<Longrightarrow>
      files w' = files w \<and> fds w' = fds w"
    and opendir_Some: "opendir_path P d w = Some es \<Longrightarrow>
      distinct (map fst es) \<and> (\<forall>e \<in> set es. is_name (fst e)) \<and>
      (\<forall>k. (k, True) \<in> set es \<longleftrightarrow> is_name k \<and> files w k \<noteq> None)"

subsection \<open>An in-memory file system\<close>

record memfs =
  mf_files :: "(string, bytes) smap"
  mf_fds :: "(int, string \<times> nat) smap"
  mf_room :: nat

definition fresh_fd :: "memfs \<Rightarrow> int" where
  "fresh_fd w = Max (insert 2 (set (map fst (mf_fds w)))) + 1"

definition mem_open_w :: "string \<Rightarrow> memfs \<Rightarrow> int option \<times> memfs" where
  "mem_open_w p w = (Some (fresh_fd w),
     w\<lparr>mf_files := map_store p [] (mf_files w), mf_fds := map_store (fresh_fd w) (p, 0) (mf_fds w)\<rparr>)"

definition mem_open_r :: "string \<Rightarrow> memfs \<Rightarrow> int option \<times> memfs" where
  "mem_open_r p w = (case map_of (mf_files w) p of
     None \<Rightarrow> (None, w)
   | Some c \<Rightarrow> (Some (fresh_fd w), w\<lparr>mf_fds := map_store (fresh_fd w) (p, 0) (mf_fds w)\<rparr>))"

definition mem_write :: "int \<Rightarrow> bytes \<Rightarrow> memfs \<Rightarrow> int \<times> memfs" where
  "mem_write fd bs w = (case map_of (mf_fds w) fd of
     None \<Rightarrow> (- 1, w)
   | Some (p, pos) \<Rightarrow> (case map_of (mf_files w) p of
       None \<Rightarrow> (- 1, w)
     | Some c \<Rightarrow> let n = min (length bs) (mf_room w) in
         (int n, w\<lparr>mf_files := map_store p (take pos c @ take n bs @ drop (pos + n) c) (mf_files w),
                   mf_fds := map_store fd (p, pos + n) (mf_fds w), mf_room := mf_room w - n\<rparr>)))"

definition mem_read :: "int \<Rightarrow> nat \<Rightarrow> memfs \<Rightarrow> bytes option \<times> memfs" where
  "mem_read fd n w = (case map_of (mf_fds w) fd of
     None \<Rightarrow> (None, w)
   | Some (p, pos) \<Rightarrow> (case map_of (mf_files w) p of
       None \<Rightarrow> (None, w)
     | Some c \<Rightarrow> let bs = take n (drop pos c) in
         (Some bs, w\<lparr>mf_fds := map_store fd (p, pos + length bs) (mf_fds w)\<rparr>)))"

definition mem_close :: "int \<Rightarrow> memfs \<Rightarrow> memfs" where
  "mem_close fd w = w\<lparr>mf_fds := map_erase fd (mf_fds w)\<rparr>"

definition mem_unlink :: "string \<Rightarrow> memfs \<Rightarrow> bool \<times> memfs" where
  "mem_unlink p w = (if map_of (mf_files w) p = None then (False, w)
     else (True, w\<lparr>mf_files := map_erase p (mf_files w)\<rparr>))"

definition mem_statfs :: "string \<Rightarrow> memfs \<Rightarrow> (u64 \<times> u64) option" where
  "mem_statfs p w = Some (of_nat (mf_room w), 1)"

text \<open>The name of a path in directory \<open>d\<close>, if it lies directly in it.\<close>

definition name_in :: "string \<Rightarrow> string \<Rightarrow> string option" where
  "name_in d p = (let s = slash d; k = drop (length s) p in
     if take (length s) p = s \<and> is_name k then Some k else None)"

definition mem_opendir :: "string \<Rightarrow> memfs \<Rightarrow> (string \<times> bool) list option" where
  "mem_opendir d w = Some (map (\<lambda>k. (k, True))
     (remdups (concat (map (\<lambda>e. case name_in d (fst e) of None \<Rightarrow> [] | Some k \<Rightarrow> [k]) (mf_files w)))))"

definition mem_posix :: "memfs posix" where
  "mem_posix = \<lparr>open_w = mem_open_w, open_r = mem_open_r, write_fd = mem_write, read_fd = mem_read,
     close_fd = mem_close, unlink_path = mem_unlink, statfs_path = mem_statfs, opendir_path = mem_opendir\<rparr>"

definition mem_files :: "string \<Rightarrow> memfs \<Rightarrow> string \<Rightarrow> bytes option" where
  "mem_files d w k = (if is_name k then map_of (mf_files w) (slash d @ k) else None)"

definition mem_fds :: "string \<Rightarrow> memfs \<Rightarrow> int \<Rightarrow> (string \<times> nat) option" where
  "mem_fds d w fd = (case map_of (mf_fds w) fd of
     None \<Rightarrow> None
   | Some (p, pos) \<Rightarrow> (case name_in d p of None \<Rightarrow> None | Some k \<Rightarrow> Some (k, pos)))"

lemma name_in_Some: "name_in d p = Some k \<longleftrightarrow> is_name k \<and> p = slash d @ k"
  by (auto simp: name_in_def Let_def split: if_splits) (metis append_take_drop_id)

lemma name_in_slash [simp]: "is_name k \<Longrightarrow> name_in d (slash d @ k) = Some k"
  by (simp add: name_in_Some)

lemma fresh_fd_None [simp]: "map_of (mf_fds w) (fresh_fd w) = None"
proof -
  have "x < fresh_fd w" if "x \<in> set (map fst (mf_fds w))" for x
    using that Max_ge [of "insert 2 (set (map fst (mf_fds w)))" x] by (simp add: fresh_fd_def)
  then show ?thesis by (force simp: map_of_eq_None_iff)
qed

lemma mem_fds_Some:
  "mem_fds d w fd = Some (k, pos) \<longleftrightarrow> is_name k \<and> map_of (mf_fds w) fd = Some (slash d @ k, pos)"
  by (auto simp: mem_fds_def name_in_Some split: option.splits)

lemma mem_fds_store:
  "is_name k \<Longrightarrow> mf_fds w' = map_store fd (slash d @ k, pos) (mf_fds w) \<Longrightarrow>
   mem_fds d w' = (mem_fds d w)(fd \<mapsto> (k, pos))"
  by (auto simp: mem_fds_def fun_eq_iff map_of_map_store)

lemma mem_files_store:
  "is_name k \<Longrightarrow> mf_files w' = map_store (slash d @ k) c (mf_files w) \<Longrightarrow>
   mem_files d w' = (mem_files d w)(k \<mapsto> c)"
  by (auto simp: mem_files_def fun_eq_iff map_of_map_store)

lemma mem_fds_same: "mf_fds w' = mf_fds w \<Longrightarrow> mem_fds d w' = mem_fds d w"
  by (simp add: mem_fds_def fun_eq_iff)

lemma mem_files_same: "mf_files w' = mf_files w \<Longrightarrow> mem_files d w' = mem_files d w"
  by (simp add: mem_files_def fun_eq_iff)

lemmas mem_calls = mem_posix_def mem_open_w_def mem_open_r_def mem_write_def mem_read_def mem_close_def
  mem_unlink_def mem_opendir_def Let_def

lemma mem_write_end:
  assumes "mem_fds d w fd = Some (k, pos)" and "mem_files d w k = Some c" and "pos = length c"
    and "mem_write fd bs w = (r, w')"
  shows "r \<le> int (length bs) \<and> mem_files d w' = (mem_files d w)(k \<mapsto> c @ take (nat r) bs) \<and>
         mem_fds d w' = (mem_fds d w)(fd \<mapsto> (k, pos + nat r))"
proof -
  from assms(1) have k: "is_name k" and f: "map_of (mf_fds w) fd = Some (slash d @ k, pos)"
    by (simp_all add: mem_fds_Some)
  from assms(2) k have c: "map_of (mf_files w) (slash d @ k) = Some c" by (simp add: mem_files_def)
  let ?n = "min (length bs) (mf_room w)"
  have r: "r = int ?n" and files: "mf_files w' = map_store (slash d @ k) (c @ take ?n bs) (mf_files w)"
    and fds: "mf_fds w' = map_store fd (slash d @ k, pos + ?n) (mf_fds w)"
    using assms(3,4) f c by (auto simp: mem_write_def Let_def)
  from mem_files_store [OF k files] mem_fds_store [OF k fds] show ?thesis unfolding r by simp
qed

lemma mem_opendir_entries:
  assumes "mem_opendir d w = Some es"
  shows "distinct (map fst es) \<and> (\<forall>e \<in> set es. is_name (fst e)) \<and>
      (\<forall>k. (k, True) \<in> set es \<longleftrightarrow> is_name k \<and> mem_files d w k \<noteq> None)"
proof -
  let ?ks = "concat (map (\<lambda>e. case name_in d (fst e) of None \<Rightarrow> [] | Some k \<Rightarrow> [k]) (mf_files w))"
  have es: "es = map (\<lambda>k. (k, True)) (remdups ?ks)" using assms by (simp add: mem_opendir_def)
  have ks: "k \<in> set ?ks \<longleftrightarrow> is_name k \<and> mem_files d w k \<noteq> None" for k
  proof -
    have "k \<in> set ?ks \<longleftrightarrow> (\<exists>e \<in> set (mf_files w). name_in d (fst e) = Some k)"
      by (force split: option.splits)
    also have "\<dots> \<longleftrightarrow> is_name k \<and> slash d @ k \<in> fst ` set (mf_files w)"
      by (force simp: name_in_Some)
    also have "\<dots> \<longleftrightarrow> is_name k \<and> mem_files d w k \<noteq> None"
      using map_of_eq_None_iff [of "mf_files w" "slash d @ k"] by (auto simp: mem_files_def)
    finally show ?thesis .
  qed
  have "map fst es = remdups ?ks" by (simp add: es comp_def)
  moreover have "(k, b) \<in> set es \<longleftrightarrow> b \<and> k \<in> set ?ks" for k b by (auto simp: es)
  ultimately show ?thesis using ks by (metis distinct_remdups prod.collapse)
qed

interpretation mem: posix_dir mem_posix d "mem_files d" "mem_fds d"
proof (unfold_locales, goal_cases)
  case (5 w fd k pos c bs r w')
  then show ?case using mem_write_end [of d w fd k pos c bs r w'] by (simp add: mem_posix_def)
next
  case (14 w es)
  then show ?case using mem_opendir_entries [of d w es] by (simp add: mem_posix_def)
qed (auto simp: mem_posix_def mem_open_w_def mem_open_r_def mem_read_def mem_close_def mem_unlink_def
    mem_fds_def mem_files_def Let_def name_in_Some fun_eq_iff map_of_map_store map_of_map_erase
    split: option.splits if_splits)

end
