(* ===== verification/Bloomfilter.thy ===== *)
theory Bloomfilter
  imports Interfaces
begin

section \<open>The Bloom filter (\<open>util/bloomfilter.h\<close>, \<open>util/bloomfilter.cc\<close>)\<close>

text \<open>
  The class \<open>util::BloomFilter\<close>: the seeded FNV-1a hash, construction, copying, \<open>reset\<close>,
  \<open>set\<close>, \<open>mayContain\<close> and the byte format of \<open>serialize\<close>/\<open>deserialize\<close>. The bit
  array is the raw buffer the code allocates, so an access outside it, a read of a byte that was
  never written and a modulus by a zero \<open>_size\<close> are errors of the model. The abstract view
  of a filter is the set \<open>bits\<close> of bit positions that are on; the operations are shown to
  implement insertion and inclusion on that set.
\<close>

named_theorems bf_simps \<open>what the filter's operations leave unchanged\<close>

subsection \<open>The hash function\<close>

definition FNV_offset_basis :: u64 where
  "FNV_offset_basis = 14695981039346656037"

definition FNV_prime :: u64 where
  "FNV_prime = 1099511628211"

text \<open>
  The \<open>int\<close> seed is consumed one byte at a time, with an arithmetic shift; the C string one
  character at a time up to its terminator (the end of the list is the terminator that
  \<open>c_str()\<close> appends).
\<close>

fun hash_seed :: "nat \<Rightarrow> u64 \<Rightarrow> i32 \<Rightarrow> u64" where
  "hash_seed 0 h seed = h"
| "hash_seed (Suc n) h seed =
     hash_seed n ((h XOR scast (seed AND 0xff)) * FNV_prime) (signed_drop_bit 8 seed)"

fun hash_str :: "u64 \<Rightarrow> string \<Rightarrow> u64" where
  "hash_str h [] = h"
| "hash_str h (c # str) =
     (if c = CHR 0x00 then h
      else hash_str ((h XOR ucast (of_char c :: u8)) * FNV_prime) str)"

definition hash :: "string \<Rightarrow> i32 \<Rightarrow> u64" where
  "hash str seed = hash_str (hash_seed 4 FNV_offset_basis seed) str"

subsection \<open>State and operations\<close>

record bloomfilter =
  bf_seed :: u32
  bf_size :: u32
  bf_hash :: buf

text \<open>\<open>(_size+7)/8\<close>, computed in \<open>uint32_t\<close>: the sum wraps.\<close>

definition nbytes :: "u32 \<Rightarrow> nat" where
  "nbytes sz = unat ((sz + 7) div 8)"

text \<open>
  \<open>reset(int size, uint32_t seed)\<close>: here the sum is an \<open>int\<close> sum, and a negative
  number of bytes makes \<open>new[]\<close> throw.
\<close>

definition reset :: "bloomfilter \<Rightarrow> i32 \<Rightarrow> u32 \<Rightarrow> bloomfilter res" where
  "reset bf sz seed =
     (if sint sz + 7 \<ge> 2 ^ 31 then Inl SignedOverflow
      else let n = cdiv (sint sz + 7) 8
           in if n < 0 then Inl BadAlloc
              else Inr (bf\<lparr>bf_size := sz, bf_hash := replicate (nat n) (Some 0),
                          bf_seed := seed\<rparr>))"

definition default_size :: i32 where
  "default_size = push_bit 20 1"

definition new_bloomfilter :: "bloomfilter res" where
  "new_bloomfilter = reset \<lparr>bf_seed = 0, bf_size = 0, bf_hash = []\<rparr> default_size 0"

text \<open>
  The copy constructor and \<open>operator=\<close> allocate \<open>_size\<close> bytes and copy
  \<open>(_size+7)/8\<close> of them. In a self-assignment the source buffer is the one just
  allocated.
\<close>

definition copy_bloomfilter :: "bloomfilter \<Rightarrow> bloomfilter res" where
  "copy_bloomfilter other =
     rbind (memcpy_buf (new_buf (unat (bf_size other))) (bf_hash other) (nbytes (bf_size other)))
       (\<lambda>h. Inr \<lparr>bf_seed = bf_seed other, bf_size = bf_size other, bf_hash = h\<rparr>)"

definition assign :: "bloomfilter \<Rightarrow> bloomfilter \<Rightarrow> bloomfilter res" where
  "assign this other =
     rbind (memcpy_buf (new_buf (unat (bf_size other))) (bf_hash other) (nbytes (bf_size other)))
       (\<lambda>h. Inr (this\<lparr>bf_seed := bf_seed other, bf_size := bf_size other, bf_hash := h\<rparr>))"

definition assign_self :: "bloomfilter \<Rightarrow> bloomfilter res" where
  "assign_self this =
     (let fresh = new_buf (unat (bf_size this))
      in rbind (memcpy_buf fresh fresh (nbytes (bf_size this)))
           (\<lambda>h. Inr (this\<lparr>bf_hash := h\<rparr>)))"

text \<open>The bit a key's \<open>i\<close>-th hash selects: \<open>hash(key.c_str(), _seed + i) % _size\<close>.\<close>

definition bit_index :: "bloomfilter \<Rightarrow> string \<Rightarrow> nat \<Rightarrow> u32 res" where
  "bit_index bf key i =
     (if bf_size bf = 0 then Inl DivByZero
      else Inr (ucast (hash key (bf_seed bf + of_nat i) mod ucast (bf_size bf))))"

definition set_step :: "string \<Rightarrow> bloomfilter \<Rightarrow> nat \<Rightarrow> bloomfilter res" where
  "set_step key bf i =
     rbind (bit_index bf key i) (\<lambda>p.
     rbind (read_byte (bf_hash bf) (unat (drop_bit 3 p))) (\<lambda>b.
     rbind (write_byte (bf_hash bf) (unat (drop_bit 3 p)) (b OR push_bit (unat (p AND 7)) 1))
       (\<lambda>h. Inr (bf\<lparr>bf_hash := h\<rparr>))))"

definition set_key :: "bloomfilter \<Rightarrow> string \<Rightarrow> bloomfilter res" where
  "set_key bf key = rfold (set_step key) bf [0..<6]"

fun may_loop :: "bloomfilter \<Rightarrow> string \<Rightarrow> nat list \<Rightarrow> bool res" where
  "may_loop bf key [] = Inr True"
| "may_loop bf key (i # is) =
     rbind (bit_index bf key i) (\<lambda>p.
     rbind (read_byte (bf_hash bf) (unat (drop_bit 3 p))) (\<lambda>b.
       if b AND push_bit (unat (p AND 7)) 1 = 0 then Inr False else may_loop bf key is))"

definition mayContain :: "bloomfilter \<Rightarrow> string \<Rightarrow> bool res" where
  "mayContain bf key = may_loop bf key [0..<6]"

definition serialize :: "bloomfilter \<Rightarrow> bytes res" where
  "serialize bf =
     rbind (read_bytes (bf_hash bf) (nbytes (bf_size bf)))
       (\<lambda>payload. Inr (le32 (bf_seed bf) @ le32 (bf_size bf) @ payload))"

text \<open>
  \<open>deserialize\<close> ignores a malformed vector; on a well-formed one it copies into the buffer
  the object already has.
\<close>

definition deserialize :: "bloomfilter \<Rightarrow> bytes \<Rightarrow> bloomfilter res" where
  "deserialize bf src =
     (if length src < 8 then Inr bf
      else let seed = rd32 (take 4 src); sz = rd32 (take 4 (drop 4 src))
           in if sz > 100 * 1024 * 1024 then Inr bf
              else if length src \<noteq> nbytes sz + 8 then Inr bf
              else rbind (memcpy_buf (bf_hash bf) (map Some (drop 8 src)) (nbytes sz))
                     (\<lambda>h. Inr (bf\<lparr>bf_seed := seed, bf_size := sz, bf_hash := h\<rparr>)))"

subsection \<open>The invariant and the abstract bit set\<close>

text \<open>
  A filter is sound when its size does not wrap in \<open>(_size+7)/8\<close> and that many bytes of
  its buffer are there and written. It is usable when, besides, its size is not zero.
\<close>

definition sound :: "bloomfilter \<Rightarrow> bool" where
  "sound bf \<longleftrightarrow> unat (bf_size bf) + 7 < 2 ^ 32 \<and> init_upto (bf_hash bf) (nbytes (bf_size bf))"

definition usable :: "bloomfilter \<Rightarrow> bool" where
  "usable bf \<longleftrightarrow> sound bf \<and> bf_size bf \<noteq> 0"

definition bits :: "bloomfilter \<Rightarrow> nat set" where
  "bits bf = {p. p < unat (bf_size bf) \<and> bit (the (bf_hash bf ! (p div 8))) (p mod 8)}"

definition pos :: "bloomfilter \<Rightarrow> string \<Rightarrow> nat \<Rightarrow> nat" where
  "pos bf key i = unat (hash key (bf_seed bf + of_nat i)) mod unat (bf_size bf)"

definition key_bits :: "bloomfilter \<Rightarrow> string \<Rightarrow> nat set" where
  "key_bits bf key = pos bf key ` {0..<6}"

lemma nbytes_eq: "unat sz + 7 < 2 ^ 32 \<Longrightarrow> nbytes sz = (unat sz + 7) div 8"
  by (simp add: nbytes_def unat_div unat_word_ariths)

lemma byte_in_range: "unat sz + 7 < 2 ^ 32 \<Longrightarrow> p < unat sz \<Longrightarrow> p div 8 < nbytes sz"
  by (simp add: nbytes_eq)

lemma unat_and_7: "unat (p AND 7 :: u32) = unat p mod 8"
proof -
  have "p AND 7 = take_bit 3 p"
    by (simp add: take_bit_eq_mask mask_eq_exp_minus_1)
  then show ?thesis by (simp add: take_bit_eq_mod unat_mod)
qed

lemma bit_index_pos:
  assumes "bf_size bf \<noteq> 0"
  obtains p where "bit_index bf key i = Inr p" and "unat p = pos bf key i"
proof
  let ?h = "hash key (bf_seed bf + of_nat i) mod ucast (bf_size bf)"
  show "bit_index bf key i = Inr (ucast ?h)"
    using assms by (simp add: bit_index_def)
  have eq: "unat ?h = pos bf key i"
    by (simp add: unat_mod pos_def)
  have "0 < unat (bf_size bf)"
    using assms by (simp add: unat_gt_0)
  then have "pos bf key i < unat (bf_size bf)"
    by (simp add: pos_def)
  then have "unat ?h < 2 ^ 32"
    using unat_u32_less [of "bf_size bf"] eq by simp
  then show "unat (ucast ?h :: u32) = pos bf key i"
    using eq by (simp add: unat_ucast_u64_u32 del: unsigned_ucast_eq)
qed

lemma pos_less: "bf_size bf \<noteq> 0 \<Longrightarrow> pos bf key i < unat (bf_size bf)"
  by (simp add: pos_def unat_gt_0)

text \<open>One round of \<open>set\<close>, and then the whole loop, on the abstract bit set.\<close>

lemma set_step_bits:
  assumes "usable bf"
  shows "\<exists>h. set_step key bf i = Inr (bf\<lparr>bf_hash := h\<rparr>) \<and> usable (bf\<lparr>bf_hash := h\<rparr>) \<and>
             length h = length (bf_hash bf) \<and>
             bits (bf\<lparr>bf_hash := h\<rparr>) = insert (pos bf key i) (bits bf)"
proof -
  let ?k = "pos bf key i"
  from assms have s: "sound bf" and nz: "bf_size bf \<noteq> 0"
    by (simp_all add: usable_def)
  obtain p where p: "bit_index bf key i = Inr p" and k: "unat p = ?k"
    using nz by (rule bit_index_pos)
  have lt: "?k < unat (bf_size bf)" using nz by (rule pos_less)
  with s have byte: "?k div 8 < nbytes (bf_size bf)"
    by (simp add: sound_def byte_in_range)
  from s have init: "init_upto (bf_hash bf) (nbytes (bf_size bf))"
    by (simp add: sound_def)
  then have len: "nbytes (bf_size bf) \<le> length (bf_hash bf)"
    by (simp add: init_upto_def)
  define h where "h = (bf_hash bf)[?k div 8 :=
     Some (the (bf_hash bf ! (?k div 8)) OR push_bit (?k mod 8) 1)]"
  have 1: "set_step key bf i = Inr (bf\<lparr>bf_hash := h\<rparr>)"
    using byte len
    by (simp add: set_step_def p unat_drop_bit unat_and_7 k read_byte_init [OF init byte]
        write_byte_def h_def)
  have 2: "usable (bf\<lparr>bf_hash := h\<rparr>)"
    using assms by (simp add: usable_def sound_def h_def init_upto_update)
  have "bit (the (h ! (q div 8))) (q mod 8) \<longleftrightarrow>
        q = ?k \<or> bit (the (bf_hash bf ! (q div 8))) (q mod 8)" for q
  proof (cases "q div 8 = ?k div 8")
    case True
    moreover from True have "q mod 8 = ?k mod 8 \<longleftrightarrow> q = ?k"
      by (metis div_mult_mod_eq)
    ultimately show ?thesis
      using byte len by (simp add: h_def bit_or_one_bit)
  next
    case False
    then have "q \<noteq> ?k" by auto
    with False show ?thesis by (simp add: h_def)
  qed
  then have 3: "bits (bf\<lparr>bf_hash := h\<rparr>) = insert ?k (bits bf)"
    using lt by (auto simp: bits_def)
  from 1 2 3 show ?thesis by (auto simp: h_def)
qed

lemma pos_bf_hash [simp]: "pos (bf\<lparr>bf_hash := h\<rparr>) = pos bf"
  by (simp add: pos_def fun_eq_iff)

lemma set_loop_bits:
  assumes "usable bf"
  shows "\<exists>h. rfold (set_step key) bf is = Inr (bf\<lparr>bf_hash := h\<rparr>) \<and>
             usable (bf\<lparr>bf_hash := h\<rparr>) \<and> length h = length (bf_hash bf) \<and>
             bits (bf\<lparr>bf_hash := h\<rparr>) = pos bf key ` set is \<union> bits bf"
  using assms
proof (induction "is" arbitrary: bf)
  case Nil
  then show ?case by (intro exI [of _ "bf_hash bf"]) simp
next
  case (Cons i "is")
  from set_step_bits [OF Cons.prems, of key i] obtain h where
    h: "set_step key bf i = Inr (bf\<lparr>bf_hash := h\<rparr>)" "usable (bf\<lparr>bf_hash := h\<rparr>)"
      "length h = length (bf_hash bf)"
      "bits (bf\<lparr>bf_hash := h\<rparr>) = insert (pos bf key i) (bits bf)"
    by blast
  from Cons.IH [OF h(2)] h show ?case by auto
qed

lemma set_key_bits:
  assumes "usable bf"
  obtains h where "set_key bf key = Inr (bf\<lparr>bf_hash := h\<rparr>)" and "usable (bf\<lparr>bf_hash := h\<rparr>)"
    and "length h = length (bf_hash bf)"
    and "bits (bf\<lparr>bf_hash := h\<rparr>) = key_bits bf key \<union> bits bf"
  using set_loop_bits [OF assms, of key "[0..<6]"]
  by (auto simp: set_key_def key_bits_def simp del: upt_rec_numeral)

lemma may_loop_bits:
  assumes "usable bf"
  shows "may_loop bf key is = Inr (pos bf key ` set is \<subseteq> bits bf)"
proof (induction "is")
  case (Cons i "is")
  let ?k = "pos bf key i"
  from assms have nz: "bf_size bf \<noteq> 0" and
    wrap: "unat (bf_size bf) + 7 < 2 ^ 32" and
    init: "init_upto (bf_hash bf) (nbytes (bf_size bf))"
    by (simp_all add: usable_def sound_def)
  obtain p where p: "bit_index bf key i = Inr p" and k: "unat p = ?k"
    using nz by (rule bit_index_pos)
  have lt: "?k < unat (bf_size bf)" using nz by (rule pos_less)
  then have byte: "?k div 8 < nbytes (bf_size bf)"
    using wrap by (simp add: byte_in_range)
  have "?k \<in> bits bf \<longleftrightarrow> bit (the (bf_hash bf ! (?k div 8))) (?k mod 8)"
    using lt by (simp add: bits_def)
  with Cons.IH show ?case
    by (simp add: p unat_drop_bit unat_and_7 k read_byte_init [OF init byte] and_one_bit_eq_0)
qed simp

lemma mayContain_bits: "usable bf \<Longrightarrow> mayContain bf key = Inr (key_bits bf key \<subseteq> bits bf)"
  by (simp add: mayContain_def may_loop_bits key_bits_def del: upt_rec_numeral)

lemma key_bits_bf_hash [simp]: "key_bits (bf\<lparr>bf_hash := h\<rparr>) = key_bits bf"
  by (simp add: key_bits_def fun_eq_iff)

interpretation bloom: approx_filter usable set_key mayContain
proof unfold_locales
  fix f :: bloomfilter and k x :: string and f'
  assume u: "usable f"
  show "\<exists>b. mayContain f k = Inr b"
    using u by (simp add: mayContain_bits)
  from u obtain h where h: "set_key f k = Inr (f\<lparr>bf_hash := h\<rparr>)" "usable (f\<lparr>bf_hash := h\<rparr>)"
    "bits (f\<lparr>bf_hash := h\<rparr>) = key_bits f k \<union> bits f"
    by (rule set_key_bits)
  then show "\<exists>f'. set_key f k = Inr f' \<and> usable f'" by simp
  assume f': "set_key f k = Inr f'"
  with h show "mayContain f' k = Inr True"
    by (auto simp: mayContain_bits)
  assume "mayContain f x = Inr True"
  with u f' h show "mayContain f' x = Inr True"
    by (auto simp: mayContain_bits)
qed

subsection \<open>The hash is FNV-1a\<close>

text \<open>The reference function: FNV-1a over a byte sequence.\<close>

definition fnv_round :: "u64 \<Rightarrow> u8 \<Rightarrow> u64" where
  "fnv_round h b = (h XOR ucast b) * FNV_prime"

definition fnv1a :: "bytes \<Rightarrow> u64" where
  "fnv1a bs = foldl fnv_round FNV_offset_basis bs"

lemma hash_str_foldl: "hash_str h str = foldl fnv_round h (map of_char (c_str str))"
  by (induction str arbitrary: h) (auto simp: c_str_def fnv_round_def)

lemma seed_byte: "(scast (s AND 0xff :: i32) :: u64) = ucast (ucast s :: u8)"
proof -
  have "s AND 0xff = take_bit 8 s"
    by (simp add: take_bit_eq_mask mask_eq_exp_minus_1)
  then have "scast (s AND 0xff) = (scast (take_bit 8 s) :: u64)"
    by (simp only:)
  also have "\<dots> = ucast (ucast s :: u8)"
    by (intro bit_word_eqI) (auto simp: bit_simps min_def split: if_splits)
  finally show ?thesis .
qed

lemma shifted_seed_bytes:
  "(ucast (signed_drop_bit 8 s :: i32) :: u8) = ucast (drop_bit 8 s)"
  "(ucast (signed_drop_bit 16 s :: i32) :: u8) = ucast (drop_bit 16 s)"
  "(ucast (signed_drop_bit 24 s :: i32) :: u8) = ucast (drop_bit 24 s)"
  by (rule bit_word_eqI; simp add: bit_simps)+

lemma hash_seed_foldl: "hash_seed 4 h s = foldl fnv_round h (le32 s)"
proof -
  have "4 = Suc (Suc (Suc (Suc 0)))" by simp
  then have "hash_seed 4 h s = hash_seed (Suc (Suc (Suc (Suc 0)))) h s"
    by (simp only:)
  then show ?thesis
    by (simp add: fnv_round_def le32_def seed_byte shifted_seed_bytes)
qed

text \<open>
  C32. \<open>hash(str, seed)\<close> is the FNV-1a hash of the four little-endian bytes of the seed
  followed by the bytes of the C string, for every seed (negative ones included) and every
  string; in particular it does not see anything after an embedded NUL.
\<close>

theorem hash_is_fnv1a: "hash str seed = fnv1a (le32 seed @ map of_char (c_str str))"
  by (simp add: hash_def fnv1a_def hash_str_foldl hash_seed_foldl)

subsection \<open>Construction and reset\<close>

lemma nat_sint_eq_unat:
  assumes "0 \<le> sint (w :: i32)"
  shows "nat (sint w) = unat w"
proof -
  have "sint w < 2 ^ 32" using sint_lt [of w] by simp
  then have "uint w = sint w"
    using assms by (simp add: uint_sint [of w] take_bit_int_eq_self del: of_int_sint)
  then show ?thesis by (metis nat_uint_eq)
qed

lemma reset_usable:
  fixes bf :: bloomfilter and seed :: u32
  assumes "0 < sint sz" and "sint sz + 7 < 2 ^ 31"
  defines "bf' \<equiv> bf\<lparr>bf_size := sz, bf_hash := replicate (nbytes sz) (Some 0), bf_seed := seed\<rparr>"
  shows "reset bf sz seed = Inr bf'" and "usable bf'" and "bits bf' = {}"
proof -
  have u: "unat sz = nat (sint sz)" using assms(1) by (simp add: nat_sint_eq_unat)
  with assms(2) have wrap: "unat sz + 7 < 2 ^ 32" by simp
  have n: "nat ((sint sz + 7) div 8) = nbytes sz"
    using assms(1) by (simp add: nbytes_eq [OF wrap] u nat_div_distrib nat_add_distrib)
  show "reset bf sz seed = Inr bf'"
    using assms(1,2) n by (simp add: reset_def bf'_def Let_def)
  from u assms(1) have "sz \<noteq> 0" by auto
  with wrap show "usable bf'"
    by (simp add: bf'_def usable_def sound_def init_upto_iff)
  show "bits bf' = {}"
    using byte_in_range [OF wrap] by (auto simp: bf'_def bits_def)
qed

lemma key_bits_nonempty [simp]: "key_bits bf key \<noteq> {}"
  by (simp add: key_bits_def)

text \<open>
  \<open>reset(size, seed)\<close> with a positive size that does not overflow succeeds whatever
  the object held before, and gives an empty filter of that size: no bit is on and no key is
  reported.
\<close>

lemma reset_gives_empty_filter:
  assumes "0 < sint sz" and "sint sz + 7 < 2 ^ 31"
  shows "\<exists>bf'. reset bf sz seed = Inr bf' \<and> usable bf' \<and> bf_size bf' = sz \<and> bf_seed bf' = seed \<and>
               length (bf_hash bf') = (unat sz + 7) div 8 \<and>
               (\<forall>key. mayContain bf' key = Inr False)"
proof -
  note r = reset_usable [OF assms, where bf = bf and seed = seed]
  from r(2) have "nbytes sz = (unat sz + 7) div 8"
    by (simp add: usable_def sound_def nbytes_eq)
  with r show ?thesis by (simp add: mayContain_bits)
qed

text \<open>The sizes \<open>reset\<close> does not handle: overflow of the sum, and what it allocates for others.\<close>

lemma reset_error_iff:
  "(\<exists>e. reset bf sz seed = Inl e) \<longleftrightarrow> sint sz + 7 \<ge> 2 ^ 31 \<or> sint sz \<le> - 15"
proof -
  have "cdiv (sint sz + 7) 8 < 0 \<longleftrightarrow> sint sz \<le> - 15"
    by (cases "sint sz + 7 \<ge> 0") (auto simp: cdiv_def sgn_if)
  then show ?thesis by (auto simp: reset_def Let_def)
qed

lemma default_size_sint: "sint default_size = 2 ^ 20"
  by (simp add: default_size_def)

text \<open>
  A default-constructed filter is a usable, empty filter of \<open>1 << 20\<close> bits in a buffer
  of 131072 bytes.
\<close>

lemma new_bloomfilter_empty:
  "\<exists>bf. new_bloomfilter = Inr bf \<and> usable bf \<and> unat (bf_size bf) = 2 ^ 20 \<and>
        length (bf_hash bf) = 131072 \<and> bits bf = {}"
proof -
  have s: "0 < sint default_size" "sint default_size + 7 < 2 ^ 31"
    by (simp_all add: default_size_sint)
  note r = reset_usable
    [OF s, where bf = "\<lparr>bf_seed = 0, bf_size = 0, bf_hash = []\<rparr>" and seed = 0]
  have u: "unat default_size = 2 ^ 20"
    using nat_sint_eq_unat [of default_size] by (simp add: default_size_sint)
  then have "nbytes default_size = 131072"
    by (subst nbytes_eq) simp_all
  with r u show ?thesis
    by (auto simp: new_bloomfilter_def)
qed

subsection \<open>Insertion and membership\<close>

lemma usable_example: "usable \<lparr>bf_seed = 5, bf_size = 12, bf_hash = [Some 1, Some 0]\<rparr>"
  by (simp add: usable_def sound_def init_upto_def nbytes_def)

text \<open>
  C15. No false negatives: after any sequence of \<open>set\<close> calls on a usable filter every one of
  the keys is reported, and no call fails.
\<close>

theorem no_false_negatives:
  assumes "usable bf"
  shows "\<exists>bf'. rfold set_key bf keys = Inr bf' \<and> usable bf' \<and>
               (\<forall>k \<in> set keys. mayContain bf' k = Inr True)"
  using assms by (rule bloom.added_keys_found)

theorem no_false_negatives_witness:
  "usable \<lparr>bf_seed = 5, bf_size = 12, bf_hash = [Some 1, Some 0]\<rparr> \<and>
   (\<exists>bf'. rfold set_key \<lparr>bf_seed = 5, bf_size = 12, bf_hash = [Some 1, Some 0]\<rparr>
            [''apple'', ''banana'', ''carrot''] = Inr bf' \<and>
          mayContain bf' ''apple'' = Inr True \<and> mayContain bf' ''banana'' = Inr True \<and>
          mayContain bf' ''carrot'' = Inr True)"
  using usable_example no_false_negatives [OF usable_example, of "[''apple'', ''banana'', ''carrot'']"]
  by auto

subsection \<open>Serialisation\<close>

lemma serialize_sound:
  "sound bf \<Longrightarrow> serialize bf =
     Inr (le32 (bf_seed bf) @ le32 (bf_size bf) @ map the (take (nbytes (bf_size bf)) (bf_hash bf)))"
  by (simp add: serialize_def sound_def read_bytes_init)

lemma length_payload: "sound bf \<Longrightarrow> length (map the (take (nbytes (bf_size bf)) (bf_hash bf))) = nbytes (bf_size bf)"
  by (simp add: sound_def init_upto_def)

lemma deserialize_image:
  assumes "length payload = nbytes sz" and "sz \<le> 100 * 1024 * 1024"
  shows "deserialize bf (le32 sd @ le32 sz @ payload) =
     (if nbytes sz \<le> length (bf_hash bf)
      then Inr \<lparr>bf_seed = sd, bf_size = sz,
                bf_hash = map Some payload @ drop (nbytes sz) (bf_hash bf)\<rparr>
      else Inl OutOfBounds)"
proof -
  have "take 4 (le32 sd @ le32 sz @ payload) = le32 sd"
    and "take 4 (drop 4 (le32 sd @ le32 sz @ payload)) = le32 sz"
    and "drop 8 (le32 sd @ le32 sz @ payload) = payload"
    by simp_all
  then show ?thesis
    using assms by (auto simp: deserialize_def Let_def memcpy_buf_def not_less [symmetric])
qed

lemma bits_same_prefix:
  assumes "sound bf" and "take (nbytes (bf_size bf)) h = take (nbytes (bf_size bf)) (bf_hash bf)"
  shows "bits (bf\<lparr>bf_hash := h\<rparr>) = bits bf"
proof -
  have "h ! (p div 8) = bf_hash bf ! (p div 8)" if "p < unat (bf_size bf)" for p
  proof -
    from that assms(1) have "p div 8 < nbytes (bf_size bf)"
      by (simp add: sound_def byte_in_range)
    with assms(2) show ?thesis by (metis nth_take)
  qed
  then show ?thesis by (auto simp: bits_def)
qed

lemma sound_same_prefix:
  assumes "sound bf" and "take (nbytes (bf_size bf)) h = take (nbytes (bf_size bf)) (bf_hash bf)"
  shows "sound (bf\<lparr>bf_hash := h\<rparr>)"
proof -
  from assms have "nbytes (bf_size bf) \<le> length h"
    by (metis sound_def init_upto_def length_take min.absorb2 min.cobounded1)
  with assms show ?thesis by (simp add: sound_def init_upto_def)
qed

lemma mayContain_same_prefix:
  assumes "usable bf" and "take (nbytes (bf_size bf)) h = take (nbytes (bf_size bf)) (bf_hash bf)"
  shows "mayContain (bf\<lparr>bf_hash := h\<rparr>) key = mayContain bf key"
proof -
  from assms have "usable (bf\<lparr>bf_hash := h\<rparr>)"
    using sound_same_prefix by (simp add: usable_def)
  with assms show ?thesis
    by (simp add: mayContain_bits bits_same_prefix usable_def)
qed

text \<open>
  C25. Round trip: serialising a sound filter of at most 100 Mbit and deserialising the bytes
  into any filter whose buffer is large enough gives a filter with the same size, the same seed
  and the same bits, which answers every query as the original.
\<close>

theorem serialize_deserialize:
  assumes "usable src" and "bf_size src \<le> 100 * 1024 * 1024"
    and "nbytes (bf_size src) \<le> length (bf_hash dst)"
  shows "\<exists>bytes dst'. serialize src = Inr bytes \<and> deserialize dst bytes = Inr dst' \<and> usable dst' \<and>
           bf_size dst' = bf_size src \<and> bf_seed dst' = bf_seed src \<and> bits dst' = bits src \<and>
           (\<forall>key. mayContain dst' key = mayContain src key)"
proof -
  let ?n = "nbytes (bf_size src)"
  let ?p = "map the (take ?n (bf_hash src))"
  let ?h = "map Some ?p @ drop ?n (bf_hash dst)"
  from assms(1) have snd: "sound src" by (simp add: usable_def)
  then have pre: "take ?n ?h = take ?n (bf_hash src)"
    using map_Some_the_take [of "bf_hash src" ?n]
    by (simp add: sound_def init_upto_def del: map_map)
  have d: "deserialize dst (le32 (bf_seed src) @ le32 (bf_size src) @ ?p) =
           Inr (src\<lparr>bf_hash := ?h\<rparr>)"
    using deserialize_image [OF length_payload [OF snd] assms(2)] assms(3) by simp
  show ?thesis
    unfolding serialize_sound [OF snd]
    using d sound_same_prefix [OF snd pre] bits_same_prefix [OF snd pre]
      mayContain_same_prefix [OF assms(1) pre] assms(1)
    by (auto simp: usable_def)
qed

theorem serialize_deserialize_witness:
  "usable \<lparr>bf_seed = 5, bf_size = 12, bf_hash = [Some 1, Some 0]\<rparr> \<and>
   (\<exists>bytes dst'. serialize \<lparr>bf_seed = 5, bf_size = 12, bf_hash = [Some 1, Some 0]\<rparr> = Inr bytes \<and>
      deserialize \<lparr>bf_seed = 0, bf_size = 20, bf_hash = [Some 3, Some 4, Some 5]\<rparr> bytes = Inr dst' \<and>
      usable dst' \<and> bf_size dst' = 12)"
proof -
  have "bf_size \<lparr>bf_seed = 5, bf_size = 12, bf_hash = [Some 1, Some 0]\<rparr> \<le> 100 * 1024 * 1024"
    by simp
  moreover have "nbytes (bf_size \<lparr>bf_seed = 5, bf_size = 12, bf_hash = [Some 1, Some 0]\<rparr>)
    \<le> length (bf_hash \<lparr>bf_seed = 0, bf_size = 20, bf_hash = [Some 3, Some 4, Some 5]\<rparr>)"
    by (simp add: nbytes_def)
  ultimately show ?thesis
    using usable_example serialize_deserialize [OF usable_example] by fastforce
qed

text \<open>
  A vector that is not the image of a filter of at most 100 Mbit (too short, a reported
  size above the limit, or a length that does not match the reported size) leaves the filter
  unchanged.
\<close>

lemma deserialize_rejects_malformed:
  assumes "length src < 8 \<or> rd32 (take 4 (drop 4 src)) > 100 * 1024 * 1024 \<or>
           length src \<noteq> nbytes (rd32 (take 4 (drop 4 src))) + 8"
  shows "deserialize bf src = Inr bf"
  using assms unfolding deserialize_def Let_def by (simp only: split: if_split) blast

text \<open>
  C36. \<open>deserialize\<close> never grows the buffer of its object: the well-formed image of a sound
  filter that needs more bytes than the buffer has makes its \<open>memcpy\<close> write past the end.
\<close>

theorem deserialize_overflows_small_buffer:
  assumes "sound src" and "bf_size src \<le> 100 * 1024 * 1024"
    and "length (bf_hash dst) < nbytes (bf_size src)"
  shows "\<exists>bytes. serialize src = Inr bytes \<and> deserialize dst bytes = Inl OutOfBounds"
proof -
  let ?image = "le32 (bf_seed src) @ le32 (bf_size src) @
    map the (take (nbytes (bf_size src)) (bf_hash src))"
  have "deserialize dst ?image = Inl OutOfBounds"
    using deserialize_image [OF length_payload [OF assms(1)] assms(2), of dst "bf_seed src"] assms(3)
    by simp
  with serialize_sound [OF assms(1)] show ?thesis by blast
qed

theorem deserialize_overflows_small_buffer_witness:
  "\<exists>bytes. serialize \<lparr>bf_seed = 5, bf_size = 12, bf_hash = [Some 1, Some 0]\<rparr> = Inr bytes \<and>
     deserialize \<lparr>bf_seed = 0, bf_size = 8, bf_hash = [Some 3]\<rparr> bytes = Inl OutOfBounds"
proof (rule deserialize_overflows_small_buffer)
  show "sound \<lparr>bf_seed = 5, bf_size = 12, bf_hash = [Some 1, Some 0]\<rparr>"
    using usable_example by (simp add: usable_def)
qed (simp_all add: nbytes_def)

subsection \<open>Copying\<close>

lemma nbytes_le_size: "unat sz + 7 < 2 ^ 32 \<Longrightarrow> nbytes sz \<le> unat sz"
  by (simp add: nbytes_eq)

lemma memcpy_fresh_sound:
  assumes "sound bf"
  obtains h where "memcpy_buf (new_buf (unat (bf_size bf))) (bf_hash bf) (nbytes (bf_size bf)) = Inr h"
    and "take (nbytes (bf_size bf)) h = take (nbytes (bf_size bf)) (bf_hash bf)"
proof
  from assms have "nbytes (bf_size bf) \<le> length (bf_hash bf)" "nbytes (bf_size bf) \<le> unat (bf_size bf)"
    by (simp_all add: sound_def init_upto_def nbytes_le_size)
  then show "memcpy_buf (new_buf (unat (bf_size bf))) (bf_hash bf) (nbytes (bf_size bf)) =
      Inr (take (nbytes (bf_size bf)) (bf_hash bf) @ drop (nbytes (bf_size bf)) (new_buf (unat (bf_size bf))))"
    and "take (nbytes (bf_size bf))
      (take (nbytes (bf_size bf)) (bf_hash bf) @ drop (nbytes (bf_size bf)) (new_buf (unat (bf_size bf)))) =
      take (nbytes (bf_size bf)) (bf_hash bf)"
    by (simp_all add: memcpy_buf_def)
qed

text \<open>
  Copying: the copy constructor and the assignment from another object succeed on a usable
  source and give a usable filter that answers every query as the source does, whatever the
  target held.
\<close>

lemma copies_answer_alike:
  assumes "usable other"
  shows "\<exists>c a. copy_bloomfilter other = Inr c \<and> assign this other = Inr a \<and> usable c \<and> usable a \<and>
           (\<forall>key. mayContain c key = mayContain other key \<and> mayContain a key = mayContain other key)"
proof -
  from assms have snd: "sound other" by (simp add: usable_def)
  then obtain h where
    m: "memcpy_buf (new_buf (unat (bf_size other))) (bf_hash other) (nbytes (bf_size other)) = Inr h"
    and pre: "take (nbytes (bf_size other)) h = take (nbytes (bf_size other)) (bf_hash other)"
    by (rule memcpy_fresh_sound)
  have "copy_bloomfilter other = Inr (other\<lparr>bf_hash := h\<rparr>)"
    and "assign this other = Inr (other\<lparr>bf_hash := h\<rparr>)"
    using m by (simp_all add: copy_bloomfilter_def assign_def)
  moreover have "usable (other\<lparr>bf_hash := h\<rparr>)"
    using assms sound_same_prefix [OF snd pre] by (simp add: usable_def)
  ultimately show ?thesis
    using mayContain_same_prefix [OF assms pre] by simp
qed

text \<open>
  Self-assignment loses the contents: \<open>operator=\<close> frees and reallocates before it
  copies, so \<open>f = f\<close> leaves a buffer nobody wrote and the next query reads it.
\<close>

lemma self_assignment_destroys_filter:
  assumes "usable bf"
  shows "\<exists>bf'. assign_self bf = Inr bf' \<and> mayContain bf' key = Inl UninitRead"
proof -
  from assms have nz: "bf_size bf \<noteq> 0" and wrap: "unat (bf_size bf) + 7 < 2 ^ 32"
    by (simp_all add: usable_def sound_def)
  let ?bf = "bf\<lparr>bf_hash := new_buf (unat (bf_size bf))\<rparr>"
  have "assign_self bf = Inr ?bf"
    using nbytes_le_size [OF wrap] by (simp add: assign_self_def memcpy_buf_def)
  moreover have "mayContain ?bf key = Inl UninitRead"
  proof -
    from nz have "bf_size ?bf \<noteq> 0" by simp
    then obtain p where p: "bit_index ?bf key 0 = Inr p" and k: "unat p = pos ?bf key 0"
      by (rule bit_index_pos)
    have "unat p div 8 < unat (bf_size bf)"
      using pos_less [OF nz, of key 0] k by (simp add: div_less_dividend le_less_trans [OF div_le_dividend])
    then have "read_byte (bf_hash ?bf) (unat (drop_bit 3 p)) = Inl UninitRead"
      by (simp add: read_byte_def unat_drop_bit new_buf_def)
    then show ?thesis
      by (simp add: mayContain_def upt_conv_Cons p del: bloomfilter.select_convs)
  qed
  ultimately show ?thesis by blast
qed

end
