(* ===== verification/Fileblockstore.thy ===== *)
theory Fileblockstore
  imports Posix Bloomfilter
begin

section \<open>Blocks as files (\<open>blockstore/fileblockstore.{h,cc}\<close>)\<close>

text \<open>
  \<open>FileBlockStore\<close> keeps each block in a file of one directory, a Bloom filter and a set of the
  names it knows, and two counters. The system calls are the argument \<open>P\<close>; the world they act
  on is passed through. An \<open>IOBuffer\<close> is its bytes and a \<open>Future\<close> of this class, which is
  always set at once, is its value; a null \<open>IOBuffer*\<close> is \<open>None\<close>. Logging is not modelled.
\<close>

record fileblockstore =
  fb_dir :: "(string \<times> bool) list option"
  fb_blocksize :: i32
  fb_path :: string
  fb_bloomfilter :: bloomfilter
  fb_blockset :: "string set"
  fb_freeBlocks :: u32
  fb_usedBlocks :: u32

text \<open>With an empty path the code reads \<open>fullpath[-1]\<close>.\<close>

definition get_fullpath :: "string \<Rightarrow> string \<Rightarrow> string res" where
  "get_fullpath path key =
     (if path = [] then Inl OutOfBounds
      else let fullpath = path;
               fullpath = (if last fullpath \<noteq> CHR ''/'' then fullpath @ ''/'' else fullpath)
           in Inr (fullpath @ key))"

definition skipped :: "string \<times> bool \<Rightarrow> bool" where
  "skipped entry \<longleftrightarrow> take 1 (fst entry) = ''.'' \<or> \<not> snd entry"

definition scan_entry :: "fileblockstore \<Rightarrow> string \<times> bool \<Rightarrow> fileblockstore res" where
  "scan_entry st entry =
     (if skipped entry then Inr st
      else rbind (set_key (fb_bloomfilter st) (fst entry)) (\<lambda>bf.
        Inr (st\<lparr>fb_bloomfilter := bf, fb_blockset := insert (fst entry) (fb_blockset st),
               fb_usedBlocks := fb_usedBlocks st + 1\<rparr>)))"

text \<open>
  The product and the quotient are computed in 64 bits, the \<open>int\<close> block size sign-extended;
  the assignment keeps the low 32 bits.
\<close>

definition free_from_statfs :: "(u64 \<times> u64) option \<Rightarrow> i32 \<Rightarrow> u32 res" where
  "free_from_statfs fs blocksize =
     (case fs of None \<Rightarrow> Inr 0
      | Some (bavail, bsize) \<Rightarrow>
          if blocksize = 0 then Inl DivByZero
          else Inr (ucast ((bavail * bsize) div (scast blocksize :: u64))))"

definition regenerateBloomFilterAndBlockSet ::
  "'w posix \<Rightarrow> fileblockstore \<Rightarrow> 'w \<Rightarrow> fileblockstore res" where
  "regenerateBloomFilterAndBlockSet P st w =
     rbind (reset (fb_bloomfilter st) default_size 0) (\<lambda>bf.
     rbind (free_from_statfs (statfs_path P (c_str (fb_path st)) w) (fb_blocksize st)) (\<lambda>free.
       let st = st\<lparr>fb_bloomfilter := bf, fb_blockset := {}, fb_freeBlocks := free, fb_usedBlocks := 0\<rparr> in
       case opendir_path P (c_str (fb_path st)) w of
         None \<Rightarrow> Inr st
       | Some d \<Rightarrow> rfold scan_entry st d))"

definition new_fileblockstore :: "'w posix \<Rightarrow> string \<Rightarrow> i32 \<Rightarrow> 'w \<Rightarrow> fileblockstore res" where
  "new_fileblockstore P path blocksize w =
     rbind new_bloomfilter (\<lambda>bf.
       regenerateBloomFilterAndBlockSet P
         \<lparr>fb_dir = None, fb_blocksize = blocksize, fb_path = path, fb_bloomfilter = bf,
          fb_blockset = {}, fb_freeBlocks = 0, fb_usedBlocks = 0\<rparr> w)"

text \<open>The block size of a store that is made without one.\<close>

definition default_blocksize :: i32 where
  "default_blocksize = 65536"

text \<open>A helper that stores a value and signals; the signals given are counted.\<close>

definition asyncToSyncHelper :: "'a \<Rightarrow> nat \<Rightarrow> 'a \<Rightarrow> 'a \<times> nat" where
  "asyncToSyncHelper out n inp = (inp, Suc n)"

definition putBlock ::
  "'w posix \<Rightarrow> fileblockstore \<Rightarrow> 'w \<Rightarrow> string \<Rightarrow> bytes \<Rightarrow> (bool \<times> fileblockstore \<times> 'w) res" where
  "putBlock P st w key data =
     (if fb_freeBlocks st \<le> 0 then Inr (False, st, w)
      else rbind (get_fullpath (fb_path st) key) (\<lambda>fullpath.
        let (fd, w) = open_w P (c_str fullpath) w in
        case fd of
          None \<Rightarrow> Inr (False, st, w)
        | Some fd \<Rightarrow>
            if length data > unat (scast (fb_blocksize st) :: u64) then Inr (False, st, w)
            else let (r, w) = write_fd P fd data w in
              if r \<noteq> sint (fb_blocksize st) then Inr (False, st, w)
              else let w = close_fd P fd w in
                rbind (set_key (fb_bloomfilter st) key) (\<lambda>bf.
                  Inr (True, st\<lparr>fb_freeBlocks := fb_freeBlocks st - 1, fb_usedBlocks := fb_usedBlocks st + 1,
                                fb_bloomfilter := bf, fb_blockset := insert key (fb_blockset st)\<rparr>, w))))"

definition getBlock :: "'w posix \<Rightarrow> fileblockstore \<Rightarrow> 'w \<Rightarrow> string \<Rightarrow> (bytes option \<times> 'w) res" where
  "getBlock P st w key =
     rbind (get_fullpath (fb_path st) key) (\<lambda>fullpath.
       let (fd, w) = open_r P (c_str fullpath) w in
       case fd of
         None \<Rightarrow> Inr (None, w)
       | Some fd \<Rightarrow>
           if sint (fb_blocksize st) < 0 then Inl BadAlloc
           else let (r, w) = read_fd P fd (nat (sint (fb_blocksize st))) w in
             case r of
               None \<Rightarrow> Inr (None, close_fd P fd w)
             | Some data \<Rightarrow>
                 if data = [] then Inr (None, close_fd P fd w) else Inr (Some data, close_fd P fd w))"

definition removeBlock ::
  "'w posix \<Rightarrow> fileblockstore \<Rightarrow> 'w \<Rightarrow> string \<Rightarrow> (bool \<times> fileblockstore \<times> 'w) res" where
  "removeBlock P st w key =
     rbind (get_fullpath (fb_path st) key) (\<lambda>fullpath.
       let (ok, w) = unlink_path P (c_str fullpath) w in
       if ok then rbind (regenerateBloomFilterAndBlockSet P st w) (\<lambda>st. Inr (True, st, w))
       else Inr (False, st, w))"

text \<open>The loop of \<open>next\<close>: the name it returns and the directory stream it leaves.\<close>

fun next_entry :: "(string \<times> bool) list \<Rightarrow> string \<times> (string \<times> bool) list option" where
  "next_entry [] = ('''', None)"
| "next_entry (entry # d) = (if skipped entry then next_entry d else (fst entry, Some d))"

definition next_block :: "'w posix \<Rightarrow> fileblockstore \<Rightarrow> 'w \<Rightarrow> (string \<times> fileblockstore) res" where
  "next_block P st w =
     (case (case fb_dir st of None \<Rightarrow> opendir_path P (c_str (fb_path st)) w | Some d \<Rightarrow> Some d) of
        None \<Rightarrow> Inl NullDeref
      | Some d \<Rightarrow> let (name, dir) = next_entry d in Inr (name, st\<lparr>fb_dir := dir\<rparr>))"

definition blockSize :: "fileblockstore \<Rightarrow> u64" where
  "blockSize st = scast (fb_blocksize st)"

definition numFreeBlocks :: "fileblockstore \<Rightarrow> u64" where
  "numFreeBlocks st = ucast (fb_freeBlocks st)"

text \<open>The sum of the two counters is a 32-bit sum.\<close>

definition numTotalBlocks :: "fileblockstore \<Rightarrow> u64" where
  "numTotalBlocks st = ucast (fb_usedBlocks st + fb_freeBlocks st)"

definition bloomfilter_of :: "fileblockstore \<Rightarrow> bloomfilter res" where
  "bloomfilter_of st = copy_bloomfilter (fb_bloomfilter st)"

definition destroy_store :: "fileblockstore \<Rightarrow> fileblockstore" where
  "destroy_store st = st\<lparr>fb_dir := None\<rparr>"

subsection \<open>The invariant\<close>

text \<open>
  The path and the block size are usable, the filter is, and it reports every name of the block
  set.
\<close>

definition fb_ok :: "fileblockstore \<Rightarrow> bool" where
  "fb_ok st \<longleftrightarrow> fb_path st \<noteq> [] \<and> CHR 0x00 \<notin> set (fb_path st) \<and> 0 < sint (fb_blocksize st) \<and>
     usable (fb_bloomfilter st) \<and> (\<forall>k \<in> fb_blockset st. mayContain (fb_bloomfilter st) k = Inr True)"

definition listed :: "(string \<times> bool) list \<Rightarrow> string set" where
  "listed es = fst ` {e \<in> set es. \<not> skipped e}"

lemma get_fullpath_slash: "path \<noteq> [] \<Longrightarrow> get_fullpath path key = Inr (slash path @ key)"
  by (simp add: get_fullpath_def slash_def Let_def)

lemma c_str_slash: "CHR 0x00 \<notin> set path \<Longrightarrow> is_name key \<Longrightarrow> c_str (slash path @ key) = slash path @ key"
  by (rule c_str_id) (auto simp: slash_def is_name_def)

lemma unat_scast_blocksize: "0 < sint (b :: i32) \<Longrightarrow> unat (scast b :: u64) = nat (sint b)"
proof -
  assume b: "0 < sint b"
  have "sint b < 2 ^ 31" using sint_range_size [of b] by (simp add: size_word.rep_eq)
  moreover have "uint (scast b :: u64) = take_bit LENGTH(64) (sint b)"
    by (subst scast_eq) (rule uint_word_of_int_eq)
  ultimately have "uint (scast b :: u64) = sint b" using b by (simp add: take_bit_int_eq_self)
  then show ?thesis by (metis unat_eq_nat_uint)
qed

lemma listed_simps [simp]:
  "listed [] = {}"
  "listed (e # es) = (if skipped e then listed es else insert (fst e) (listed es))"
  by (auto simp: listed_def)

lemma scan_entry_skipped: "skipped e \<Longrightarrow> scan_entry st e = Inr st"
  by (simp add: scan_entry_def)

lemma scan_entries:
  "usable (fb_bloomfilter st) \<Longrightarrow> (\<forall>k \<in> fb_blockset st. mayContain (fb_bloomfilter st) k = Inr True) \<Longrightarrow>
   \<exists>st'. rfold scan_entry st es = Inr st' \<and> usable (fb_bloomfilter st') \<and>
     (\<forall>k \<in> fb_blockset st'. mayContain (fb_bloomfilter st') k = Inr True) \<and>
     fb_blockset st' = fb_blockset st \<union> listed es \<and>
     fb_usedBlocks st' = fb_usedBlocks st + of_nat (length (filter (\<lambda>e. \<not> skipped e) es)) \<and>
     fb_dir st' = fb_dir st \<and> fb_blocksize st' = fb_blocksize st \<and> fb_path st' = fb_path st \<and>
     fb_freeBlocks st' = fb_freeBlocks st"
proof (induction es arbitrary: st)
  case Nil
  then show ?case by simp
next
  case (Cons e es)
  show ?case
  proof (cases "skipped e")
    case True
    with Cons show ?thesis by (simp add: scan_entry_skipped)
  next
    case False
    from bloom.add_total [OF Cons.prems(1), of "fst e"] obtain bf where
      bf: "set_key (fb_bloomfilter st) (fst e) = Inr bf" "usable bf" by blast
    let ?st = "st\<lparr>fb_bloomfilter := bf, fb_blockset := insert (fst e) (fb_blockset st),
                 fb_usedBlocks := fb_usedBlocks st + 1\<rparr>"
    have step: "scan_entry st e = Inr ?st" using False bf by (simp add: scan_entry_def)
    have "\<forall>k \<in> fb_blockset ?st. mayContain (fb_bloomfilter ?st) k = Inr True"
      using bloom.add_hit [OF Cons.prems(1) bf(1)] bloom.add_mono [OF Cons.prems(1) bf(1)] Cons.prems(2) by auto
    from Cons.IH [OF _ this] bf(2) obtain st' where
      "rfold scan_entry ?st es = Inr st'" "usable (fb_bloomfilter st')"
      "\<forall>k \<in> fb_blockset st'. mayContain (fb_bloomfilter st') k = Inr True"
      "fb_blockset st' = insert (fst e) (fb_blockset st) \<union> listed es"
      "fb_usedBlocks st' = fb_usedBlocks st + 1 + of_nat (length (filter (\<lambda>e. \<not> skipped e) es))"
      "fb_dir st' = fb_dir st" "fb_blocksize st' = fb_blocksize st" "fb_path st' = fb_path st"
      "fb_freeBlocks st' = fb_freeBlocks st" by auto
    with step False show ?thesis by simp
  qed
qed

lemma reset_default:
  "\<exists>bf'. reset bf default_size 0 = Inr bf' \<and> usable bf'"
proof -
  have s: "0 < sint default_size" "sint default_size + 7 < 2 ^ 31"
    by (simp_all add: default_size_sint)
  from reset_usable [OF s, where bf = bf and seed = 0] show ?thesis by auto
qed

lemma regenerate_ok:
  assumes "fb_path st \<noteq> []" and "CHR 0x00 \<notin> set (fb_path st)" and "0 < sint (fb_blocksize st)"
  shows "\<exists>st'. regenerateBloomFilterAndBlockSet P st w = Inr st' \<and> fb_ok st' \<and>
     fb_path st' = fb_path st \<and> fb_blocksize st' = fb_blocksize st \<and> fb_dir st' = fb_dir st \<and>
     fb_blockset st' = (case opendir_path P (fb_path st) w of None \<Rightarrow> {} | Some es \<Rightarrow> listed es)"
proof -
  obtain bf where bf: "reset (fb_bloomfilter st) default_size 0 = Inr bf" "usable bf"
    using reset_default by blast
  have "fb_blocksize st \<noteq> 0" using assms(3) by auto
  then obtain free where free: "free_from_statfs (statfs_path P (fb_path st) w) (fb_blocksize st) = Inr free"
    by (cases "statfs_path P (fb_path st) w") (auto simp: free_from_statfs_def)
  let ?st = "st\<lparr>fb_bloomfilter := bf, fb_blockset := {}, fb_freeBlocks := free, fb_usedBlocks := 0\<rparr>"
  show ?thesis
  proof (cases "opendir_path P (fb_path st) w")
    case None
    with bf free assms show ?thesis
      by (simp add: regenerateBloomFilterAndBlockSet_def c_str_id Let_def fb_ok_def)
  next
    case (Some es)
    have "usable (fb_bloomfilter ?st)" "\<forall>k \<in> fb_blockset ?st. mayContain (fb_bloomfilter ?st) k = Inr True"
      using bf(2) by simp_all
    from scan_entries [OF this, of es] obtain st' where st': "rfold scan_entry ?st es = Inr st'"
      "usable (fb_bloomfilter st')" "\<forall>k \<in> fb_blockset st'. mayContain (fb_bloomfilter st') k = Inr True"
      "fb_blockset st' = listed es" "fb_path st' = fb_path st" "fb_blocksize st' = fb_blocksize st"
      "fb_dir st' = fb_dir st" by auto
    with Some bf free assms show ?thesis
      by (simp add: regenerateBloomFilterAndBlockSet_def c_str_id Let_def fb_ok_def)
  qed
qed

subsection \<open>The store over a file system that keeps its contract\<close>

definition stored :: "fileblockstore \<Rightarrow> string \<Rightarrow> bloomfilter \<Rightarrow> fileblockstore" where
  "stored st key bf = st\<lparr>fb_freeBlocks := fb_freeBlocks st - 1, fb_usedBlocks := fb_usedBlocks st + 1,
     fb_bloomfilter := bf, fb_blockset := insert key (fb_blockset st)\<rparr>"

context posix_dir
begin

lemma put_cases:
  assumes "fb_ok st" and "fb_path st = d" and "is_name key"
  obtains (no_room) "fb_freeBlocks st = 0" "putBlock P st w key data = Inr (False, st, w)"
  | (not_opened) w1 where "putBlock P st w key data = Inr (False, st, w1)" "files w1 = files w" "fds w1 = fds w"
  | (too_big) fd w1 where "int (length data) > sint (fb_blocksize st)"
      "putBlock P st w key data = Inr (False, st, w1)"
      "files w1 = (files w)(key \<mapsto> [])" "fds w fd = None" "fds w1 = (fds w)(fd \<mapsto> (key, 0))"
  | (short) fd r w1 where "int (length data) \<le> sint (fb_blocksize st)" "r \<noteq> sint (fb_blocksize st)"
      "r \<le> int (length data)" "putBlock P st w key data = Inr (False, st, w1)"
      "files w1 = (files w)(key \<mapsto> take (nat r) data)" "fds w fd = None" "fds w1 = (fds w)(fd \<mapsto> (key, nat r))"
  | (written) bf w1 where "fb_freeBlocks st \<noteq> 0" "int (length data) = sint (fb_blocksize st)"
      "set_key (fb_bloomfilter st) key = Inr bf" "usable bf"
      "putBlock P st w key data = Inr (True, stored st key bf, w1)"
      "files w1 = (files w)(key \<mapsto> data)" "fds w1 = fds w"
proof -
  have path: "fb_path st \<noteq> []" "CHR 0x00 \<notin> set (fb_path st)" and bs: "0 < sint (fb_blocksize st)"
    and use: "usable (fb_bloomfilter st)" using assms(1) by (simp_all add: fb_ok_def)
  obtain fdo w1 where op: "open_w P (slash d @ key) w = (fdo, w1)" by force
  have put: "putBlock P st w key data = (if fb_freeBlocks st = 0 then Inr (False, st, w)
      else case fdo of None \<Rightarrow> Inr (False, st, w1)
      | Some fd \<Rightarrow> if length data > nat (sint (fb_blocksize st)) then Inr (False, st, w1)
          else let (r, w) = write_fd P fd data w1 in
            if r \<noteq> sint (fb_blocksize st) then Inr (False, st, w)
            else rbind (set_key (fb_bloomfilter st) key) (\<lambda>bf. Inr (True, stored st key bf, close_fd P fd w)))"
    using op path assms(2,3)
    by (cases fdo)
       (simp_all add: putBlock_def get_fullpath_slash c_str_slash unat_scast_blocksize [OF bs] stored_def Let_def
         split: prod.splits)
  show thesis
  proof (cases "fb_freeBlocks st = 0")
    case False
    note room = False
    show thesis
    proof (cases fdo)
      case None
      with op open_w_None [OF assms(3)] put room not_opened show thesis by simp
    next
      case (Some fd)
      note o = open_w_Some [OF assms(3) op [unfolded Some]]
      show thesis
      proof (cases "length data > nat (sint (fb_blocksize st))")
        case True
        with put room Some o show thesis by (intro too_big [of w1 fd]) simp_all
      next
        case False
        obtain r w2 where wr: "write_fd P fd data w1 = (r, w2)" by force
        have wl: "r \<le> int (length data) \<and> files w2 = (files w1)(key \<mapsto> take (nat r) data) \<and>
            fds w2 = (fds w1)(fd \<mapsto> (key, nat r))"
          using write_end [of w1 fd key 0 "[]" data r w2] o wr by simp
        show thesis
        proof (cases "r = sint (fb_blocksize st)")
          case True
          obtain bf where bf: "set_key (fb_bloomfilter st) key = Inr bf" "usable bf"
            using bloom.add_total [OF use] by blast
          have "files (close_fd P fd w2) = (files w)(key \<mapsto> data)" "fds (close_fd P fd w2) = fds w"
            using close_law [of fd w2] wl o True False by (auto simp: fun_eq_iff)
          moreover have "int (length data) = sint (fb_blocksize st)" using conjunct1 [OF wl] True False bs by linarith
          ultimately show thesis using put room Some False wr True bf
            by (intro written [of bf "close_fd P fd w2"]) simp_all
        next
          case r: False
          with put room Some False wr wl o bs show thesis
            by (intro short [of r w2 fd]) simp_all
        qed
      qed
    qed
  qed (use put no_room in simp)
qed

lemma get_cases:
  assumes "fb_ok st" and "fb_path st = d" and "is_name key"
  obtains w1 r where "getBlock P st w key = Inr (r, w1)" "files w1 = files w"
    "r = None \<or> (\<exists>c. files w key = Some c \<and> c \<noteq> [] \<and> r = Some (take (nat (sint (fb_blocksize st))) c))"
    "\<And>fd w2 bs w3. open_r P (slash d @ key) w = (Some fd, w2) \<Longrightarrow>
       read_fd P fd (nat (sint (fb_blocksize st))) w2 = (Some bs, w3) \<Longrightarrow> r = (if bs = [] then None else Some bs)"
proof -
  have path: "fb_path st \<noteq> []" "CHR 0x00 \<notin> set (fb_path st)" and bs: "0 < sint (fb_blocksize st)"
    using assms(1) by (simp_all add: fb_ok_def)
  let ?n = "nat (sint (fb_blocksize st))"
  obtain fdo w1 where op: "open_r P (slash d @ key) w = (fdo, w1)" by force
  show thesis
  proof (cases fdo)
    case None
    with op path bs assms(2,3) have "getBlock P st w key = Inr (None, w1)"
      by (simp add: getBlock_def get_fullpath_slash c_str_slash)
    with op None open_r_None [OF assms(3)] that show thesis by auto
  next
    case (Some fd)
    note o = open_r_Some [OF assms(3) op [unfolded Some]]
    obtain got w2 where rd: "read_fd P fd ?n w1 = (got, w2)" by force
    let ?r = "case got of None \<Rightarrow> None | Some bs \<Rightarrow> if bs = [] then None else Some bs"
    have get: "getBlock P st w key = Inr (?r, close_fd P fd w2)"
      using op path bs assms(2,3) Some rd
      by (cases got) (simp_all add: getBlock_def get_fullpath_slash c_str_slash)
    have f: "files (close_fd P fd w2) = files w"
      using close_law [of fd w2] read_files [OF rd] o by simp
    have "?r = None \<or> (\<exists>c. files w key = Some c \<and> c \<noteq> [] \<and> ?r = Some (take ?n c))"
    proof (cases "files w key")
      case None
      with read_not_regular [OF assms(3) None op [unfolded Some], of ?n] rd show ?thesis by auto
    next
      case (Some c)
      with o read_Some [of w1 fd key 0 c ?n] rd show ?thesis by (cases got) auto
    qed
    then show thesis by (rule that [OF get f]) (use op Some rd in auto)
  qed
qed

lemma opendir_listed:
  assumes "opendir_path P d w = Some es"
  shows "listed es = {k. is_name k \<and> files w k \<noteq> None \<and> take 1 k \<noteq> ''.''}"
proof -
  have "listed es = {k. (k, True) \<in> set es \<and> take 1 k \<noteq> ''.''}"
    by (force simp: listed_def skipped_def)
  with opendir_Some [OF assms] show ?thesis by auto
qed

lemma remove_cases:
  assumes "fb_ok st" and "fb_path st = d" and "is_name key"
  obtains (kept) w1 where "removeBlock P st w key = Inr (False, st, w1)" "files w1 = files w" "fds w1 = fds w"
  | (removed) w1 st' where "removeBlock P st w key = Inr (True, st', w1)"
      "files w1 = (files w)(key := None)" "fds w1 = fds w" "fb_ok st'" "fb_path st' = d"
      "fb_blocksize st' = fb_blocksize st" "fb_dir st' = fb_dir st"
      "fb_blockset st' = (case opendir_path P d w1 of None \<Rightarrow> {} | Some es \<Rightarrow> listed es)"
proof -
  have path: "fb_path st \<noteq> []" "CHR 0x00 \<notin> set (fb_path st)" and bs: "0 < sint (fb_blocksize st)"
    using assms(1) by (simp_all add: fb_ok_def)
  obtain b w1 where ul: "unlink_path P (slash d @ key) w = (b, w1)" by force
  obtain st' where st': "regenerateBloomFilterAndBlockSet P st w1 = Inr st'" "fb_ok st'" "fb_path st' = d"
    "fb_blocksize st' = fb_blocksize st" "fb_dir st' = fb_dir st"
    "fb_blockset st' = (case opendir_path P d w1 of None \<Rightarrow> {} | Some es \<Rightarrow> listed es)"
    using regenerate_ok [OF path bs, of P w1] assms(2) by auto
  have eq: "removeBlock P st w key = (if b then Inr (True, st', w1) else Inr (False, st, w1))"
    using ul path assms(2,3) st'(1) by (simp add: removeBlock_def get_fullpath_slash c_str_slash)
  show thesis
  proof (cases b)
    case True
    with unlink_True [OF assms(3)] ul eq st' show thesis by (intro removed [of st' w1]) auto
  next
    case False
    with unlink_False [OF assms(3)] ul eq show thesis by (intro kept [of w1]) auto
  qed
qed

end

subsection \<open>Runs of operations\<close>

datatype fb_op = Put string bytes | Get string | Remove string | Next

fun op_keys :: "fb_op \<Rightarrow> string list" where
  "op_keys (Put k data) = [k]"
| "op_keys (Get k) = [k]"
| "op_keys (Remove k) = [k]"
| "op_keys Next = []"

fun fb_exec :: "'w posix \<Rightarrow> fileblockstore \<times> 'w \<Rightarrow> fb_op \<Rightarrow> (fileblockstore \<times> 'w) res" where
  "fb_exec P (st, w) (Put k data) = rbind (putBlock P st w k data) (\<lambda>r. Inr (snd r))"
| "fb_exec P (st, w) (Get k) = rbind (getBlock P st w k) (\<lambda>r. Inr (st, snd r))"
| "fb_exec P (st, w) (Remove k) = rbind (removeBlock P st w k) (\<lambda>r. Inr (snd r))"
| "fb_exec P (st, w) Next = rbind (next_block P st w) (\<lambda>r. Inr (snd r, w))"

text \<open>
  Whether the system opens the directory each time that an operation, or the operations of a run,
  call \<open>opendir\<close>: after a successful removal, and when \<open>next\<close> starts an iteration.
\<close>

fun opens_dir :: "'w posix \<Rightarrow> fileblockstore \<times> 'w \<Rightarrow> fb_op \<Rightarrow> bool" where
  "opens_dir P (st, w) (Remove k) = (case removeBlock P st w k of
     Inr (True, st', w') \<Rightarrow> opendir_path P (c_str (fb_path st)) w' \<noteq> None | _ \<Rightarrow> True)"
| "opens_dir P (st, w) Next \<longleftrightarrow> fb_dir st \<noteq> None \<or> opendir_path P (c_str (fb_path st)) w \<noteq> None"
| "opens_dir P (st, w) _ = True"

fun opens_all :: "'w posix \<Rightarrow> fileblockstore \<times> 'w \<Rightarrow> fb_op list \<Rightarrow> bool" where
  "opens_all P s [] = True"
| "opens_all P s (op # ops) \<longleftrightarrow> opens_dir P s op \<and> (case fb_exec P s op of Inl e \<Rightarrow> True | Inr s' \<Rightarrow> opens_all P s' ops)"

text \<open>Every complete block in the directory, hidden names aside, is reported by the filter.\<close>

definition reported :: "('w \<Rightarrow> string \<Rightarrow> bytes option) \<Rightarrow> fileblockstore \<Rightarrow> 'w \<Rightarrow> bool" where
  "reported files st w \<longleftrightarrow>
     (\<forall>k c. is_name k \<longrightarrow> take 1 k \<noteq> ''.'' \<longrightarrow> files w k = Some c \<longrightarrow>
        int (length c) = sint (fb_blocksize st) \<longrightarrow> mayContain (fb_bloomfilter st) k = Inr True)"

lemma reportedI:
  "(\<And>k c. is_name k \<Longrightarrow> take 1 k \<noteq> ''.'' \<Longrightarrow> files w k = Some c \<Longrightarrow>
     int (length c) = sint (fb_blocksize st) \<Longrightarrow> mayContain (fb_bloomfilter st) k = Inr True) \<Longrightarrow>
   reported files st w"
  by (simp add: reported_def)

lemma stored_simps [simp]:
  "fb_path (stored st k bf) = fb_path st" "fb_blocksize (stored st k bf) = fb_blocksize st"
  "fb_dir (stored st k bf) = fb_dir st" "fb_bloomfilter (stored st k bf) = bf"
  "fb_blockset (stored st k bf) = insert k (fb_blockset st)"
  "fb_freeBlocks (stored st k bf) = fb_freeBlocks st - 1"
  "fb_usedBlocks (stored st k bf) = fb_usedBlocks st + 1"
  by (simp_all add: stored_def)

lemma ucast_pred: "(c :: u32) \<noteq> 0 \<Longrightarrow> (ucast (c - 1) :: u64) = ucast c - 1 \<and> (ucast c :: u64) \<noteq> 0"
proof -
  assume c: "c \<noteq> 0"
  then have pos: "0 < unat c" by (simp add: unat_gt_0)
  have "unat (c - 1) = unat c - 1" using c by (simp add: unat_minus_one)
  moreover have ne: "(ucast c :: u64) \<noteq> 0" using pos by (metis less_irrefl unat_0 unat_ucast_u32_u64)
  then have "unat ((ucast c :: u64) - 1) = unat c - 1" by (simp add: unat_minus_one)
  ultimately have "(ucast (c - 1) :: u64) = ucast c - 1" by (intro word_unat_eq_iff [THEN iffD2]) simp
  with ne show ?thesis by blast
qed

lemma fb_ok_stored:
  assumes "fb_ok st" and "set_key (fb_bloomfilter st) k = Inr bf"
  shows "fb_ok (stored st k bf)"
proof -
  have u: "usable (fb_bloomfilter st)" using assms(1) by (simp add: fb_ok_def)
  have "usable bf" using bloom.add_total [OF u, of k] assms(2) by auto
  then show ?thesis
    using assms bloom.add_hit [OF u assms(2)] bloom.add_mono [OF u assms(2)] by (auto simp: fb_ok_def)
qed

lemma next_entry_dir: "fb_ok st \<Longrightarrow> fb_ok (st\<lparr>fb_dir := x\<rparr>)"
  by (simp add: fb_ok_def)

context posix_dir
begin

lemma reported_put:
  assumes "fb_ok st" and "fb_path st = d" and "is_name key" and "reported files st w"
    and "putBlock P st w key data = Inr (b, st', w')"
  shows "fb_ok st' \<and> fb_path st' = d \<and> fb_blocksize st' = fb_blocksize st \<and> reported files st' w'"
proof -
  have bs: "0 < sint (fb_blocksize st)" and u: "usable (fb_bloomfilter st)"
    using assms(1) by (simp_all add: fb_ok_def)
  from assms(1-3) show ?thesis
  proof (cases rule: put_cases [where w = w and data = data])
    case no_room
    with assms show ?thesis by simp
  next
    case (not_opened w1)
    with assms show ?thesis by (auto simp: reported_def)
  next
    case (too_big fd w1)
    with assms bs show ?thesis by (auto simp: reported_def split: if_splits)
  next
    case (short fd r w1)
    then have "int (length (take (nat r) data)) \<noteq> sint (fb_blocksize st)" using bs by auto
    with short assms show ?thesis by (auto simp: reported_def split: if_splits)
  next
    case (written bf w1)
    have "reported files (stored st key bf) w1"
    proof (rule reportedI)
      fix k c assume k: "is_name k" "take 1 k \<noteq> ''.''" "files w1 k = Some c"
        "int (length c) = sint (fb_blocksize (stored st key bf))"
      show "mayContain (fb_bloomfilter (stored st key bf)) k = Inr True"
      proof (cases "k = key")
        case True
        then show ?thesis using bloom.add_hit [OF u written(3)] by simp
      next
        case False
        with k written(6) assms(4) have "mayContain (fb_bloomfilter st) k = Inr True"
          by (auto simp: reported_def)
        then show ?thesis using bloom.add_mono [OF u written(3)] by simp
      qed
    qed
    with written assms fb_ok_stored [OF assms(1) written(3)] show ?thesis by simp
  qed
qed

lemma reported_listed:
  assumes "fb_ok st" and "opendir_path P d w = Some es" and "fb_blockset st = listed es"
  shows "reported files st w"
  using assms opendir_listed [OF assms(2)] by (auto simp: reported_def fb_ok_def)

lemma fb_exec_ok:
  assumes "fb_ok st" and "fb_path st = d" and "reported files st w"
    and "opens_dir P (st, w) op" and "\<forall>k \<in> set (op_keys op). is_name k"
  shows "\<exists>st' w'. fb_exec P (st, w) op = Inr (st', w') \<and> fb_ok st' \<and> fb_path st' = d \<and>
           fb_blocksize st' = fb_blocksize st \<and> reported files st' w'"
proof (cases op)
  case (Put k data)
  then have k: "is_name k" using assms(5) by simp
  obtain b st' w' where put: "putBlock P st w k data = Inr (b, st', w')"
    by (rule put_cases [OF assms(1,2) k, of w data]) blast+
  with reported_put [OF assms(1,2) k assms(3) put] Put show ?thesis by simp
next
  case (Get k)
  then have k: "is_name k" using assms(5) by simp
  obtain r w1 where "getBlock P st w k = Inr (r, w1)" "files w1 = files w"
    by (rule get_cases [OF assms(1,2) k, of w], rule that)
  with Get assms show ?thesis by (simp add: reported_def)
next
  case (Remove k)
  then have k: "is_name k" using assms(5) by simp
  from assms(1,2) k show ?thesis
  proof (cases rule: remove_cases [where w = w])
    case (kept w1)
    with Remove assms show ?thesis by (simp add: reported_def)
  next
    case (removed w1 st')
    have "c_str d = d" using assms(1,2) by (auto simp: fb_ok_def c_str_id)
    then obtain es where es: "opendir_path P d w1 = Some es" using assms(2,4) Remove removed(1) by auto
    with removed have "reported files st' w1" by (intro reported_listed) simp_all
    with Remove removed show ?thesis by simp
  qed
next
  case Next
  obtain es where "(case fb_dir st of None \<Rightarrow> opendir_path P (c_str (fb_path st)) w | Some es \<Rightarrow> Some es) = Some es"
    using assms(4) Next by (cases "fb_dir st") auto
  with Next assms show ?thesis
    by (auto simp: next_block_def next_entry_dir reported_def split: prod.splits)
qed

lemma fb_run_ok:
  "fb_ok st \<Longrightarrow> fb_path st = d \<Longrightarrow> reported files st w \<Longrightarrow> opens_all P (st, w) ops \<Longrightarrow>
   \<forall>op \<in> set ops. \<forall>k \<in> set (op_keys op). is_name k \<Longrightarrow>
   \<exists>st' w'. rfold (fb_exec P) (st, w) ops = Inr (st', w') \<and> fb_ok st' \<and> fb_path st' = d \<and>
           fb_blocksize st' = fb_blocksize st \<and> reported files st' w'"
proof (induction ops arbitrary: st w)
  case (Cons op ops)
  then obtain st1 w1 where "fb_exec P (st, w) op = Inr (st1, w1)" "fb_ok st1" "fb_path st1 = d"
    "fb_blocksize st1 = fb_blocksize st" "reported files st1 w1" using fb_exec_ok [of st w op] by auto
  with Cons.IH [of st1 w1] Cons.prems(4,5) show ?case by simp
qed simp

lemma new_store_ok:
  assumes "d \<noteq> []" and "CHR 0x00 \<notin> set d" and "0 < sint blocksize" and "opendir_path P d w = Some es"
  shows "\<exists>st. new_fileblockstore P d blocksize w = Inr st \<and> fb_ok st \<and> fb_path st = d \<and>
           fb_blocksize st = blocksize \<and> fb_dir st = None \<and> fb_blockset st = listed es \<and> reported files st w"
proof -
  obtain bf where bf: "new_bloomfilter = Inr bf"
    using reset_default [of "\<lparr>bf_seed = 0, bf_size = 0, bf_hash = []\<rparr>"] by (auto simp: new_bloomfilter_def)
  let ?st = "\<lparr>fb_dir = None, fb_blocksize = blocksize, fb_path = d, fb_bloomfilter = bf,
              fb_blockset = {}, fb_freeBlocks = 0, fb_usedBlocks = 0\<rparr>"
  from regenerate_ok [of ?st P w] assms obtain st where
    st: "regenerateBloomFilterAndBlockSet P ?st w = Inr st" "fb_ok st" "fb_path st = d" "fb_blocksize st = blocksize"
      "fb_dir st = None" "fb_blockset st = listed es" by auto
  have "new_fileblockstore P d blocksize w = Inr st"
    unfolding new_fileblockstore_def bf rbind_simps by (rule st(1))
  with st reported_listed [OF st(2) assms(4) st(6)] show ?thesis by blast
qed

end

context posix_dir
begin

lemma failed_put:
  assumes "fb_ok st" and "fb_path st = d" and "is_name key" and "putBlock P st w key data = Inr (False, st', w')"
  shows "st' = st \<and>
    ((files w' = files w \<and> fds w' = fds w) \<or>
     (\<exists>c fd pos. files w' = (files w)(key \<mapsto> c) \<and> int (length c) < sint (fb_blocksize st) \<and>
        fds w fd = None \<and> fds w' = (fds w)(fd \<mapsto> (key, pos))))"
  using assms(1-3)
proof (cases rule: put_cases [where w = w and data = data])
  case no_room
  with assms(4) show ?thesis by simp
next
  case (not_opened w1)
  with assms(4) show ?thesis by simp
next
  case (too_big fd w1)
  then have "st' = st" "w' = w1" using assms(4) by auto
  moreover have "int (length ([] :: bytes)) < sint (fb_blocksize st)" using assms(1) by (simp add: fb_ok_def)
  ultimately show ?thesis using too_big by blast
next
  case (short fd r w1)
  then have "st' = st" "w' = w1" using assms(4) by auto
  moreover have "0 < sint (fb_blocksize st)" using assms(1) by (simp add: fb_ok_def)
  with short have "int (length (take (nat r) data)) < sint (fb_blocksize st)" by auto
  ultimately show ?thesis using short by blast
next
  case (written bf w1)
  with assms(4) show ?thesis by simp
qed

end

text \<open>Calling \<open>next\<close> a number of times in an unchanged directory.\<close>

fun next_names :: "'w posix \<Rightarrow> fileblockstore \<Rightarrow> 'w \<Rightarrow> nat \<Rightarrow> (string list \<times> fileblockstore) res" where
  "next_names P st w 0 = Inr ([], st)"
| "next_names P st w (Suc n) = rbind (next_block P st w) (\<lambda>r.
     rbind (next_names P (snd r) w n) (\<lambda>rs. Inr (fst r # fst rs, snd rs)))"

lemma next_names_stream:
  "fb_dir st = Some es \<Longrightarrow>
   next_names P st w (Suc (length (filter (\<lambda>e. \<not> skipped e) es))) =
     Inr (map fst (filter (\<lambda>e. \<not> skipped e) es) @ [''''], st\<lparr>fb_dir := None\<rparr>)"
proof (induction es arbitrary: st)
  case Nil
  then show ?case by (simp add: next_block_def)
next
  case (Cons e es)
  then show ?case
  proof (cases "skipped e")
    case True
    have "next_block P st w = next_block P (st\<lparr>fb_dir := Some es\<rparr>) w"
      using Cons.prems True by (simp add: next_block_def)
    with Cons.IH [of "st\<lparr>fb_dir := Some es\<rparr>"] True show ?thesis by simp
  next
    case False
    have "next_block P st w = Inr (fst e, st\<lparr>fb_dir := Some es\<rparr>)"
      using Cons.prems False by (simp add: next_block_def)
    with Cons.IH [of "st\<lparr>fb_dir := Some es\<rparr>"] False show ?thesis by (simp del: next_names.simps add: next_names.simps(2))
  qed
qed

lemma next_names_fresh:
  assumes "fb_dir st = None" and "opendir_path P (c_str (fb_path st)) w = Some es"
  shows "next_names P st w (Suc (length (filter (\<lambda>e. \<not> skipped e) es))) =
     Inr (map fst (filter (\<lambda>e. \<not> skipped e) es) @ [''''], st)"
proof -
  have "next_block P st w = next_block P (st\<lparr>fb_dir := Some es\<rparr>) w"
    using assms by (simp add: next_block_def)
  moreover have "st\<lparr>fb_dir := None\<rparr> = st" using assms(1) by simp
  ultimately show ?thesis
    using next_names_stream [of "st\<lparr>fb_dir := Some es\<rparr>" es P w] by simp
qed

subsection \<open>Properties\<close>

text \<open>
  C4. The Bloom filter never hides a block while the directory can be opened: whatever blocks the
  directory held when the store was opened, and whatever operations run afterwards, with any of the
  other system calls failing or writing too little, as long as \<open>opendir\<close> succeeds when it is called,
  by the constructor, after a removal and at the start of an iteration, no operation goes wrong and
  at the end the store's filter reports every complete block of the directory whose name does not
  start with a dot.
\<close>

theorem bloomfilter_never_hides_a_block:
  assumes "posix_dir P d files fds" and "d \<noteq> []" and "CHR 0x00 \<notin> set d" and "0 < sint blocksize"
    and "opendir_path P d w \<noteq> None" and "\<forall>op \<in> set ops. \<forall>k \<in> set (op_keys op). is_name k"
  shows "\<exists>st. new_fileblockstore P d blocksize w = Inr st \<and> (opens_all P (st, w) ops \<longrightarrow>
     (\<exists>st' w'. rfold (fb_exec P) (st, w) ops = Inr (st', w') \<and>
       (\<forall>k c. is_name k \<longrightarrow> take 1 k \<noteq> ''.'' \<longrightarrow> files w' k = Some c \<longrightarrow> int (length c) = sint blocksize \<longrightarrow>
          mayContain (fb_bloomfilter st') k = Inr True)))"
proof -
  obtain es where "opendir_path P d w = Some es" using assms(5) by blast
  from posix_dir.new_store_ok [OF assms(1-4) this] obtain st where st: "new_fileblockstore P d blocksize w = Inr st"
    "fb_ok st" "fb_path st = d" "fb_blocksize st = blocksize" "reported files st w" by blast
  from posix_dir.fb_run_ok [OF assms(1) st(2,3,5) _ assms(6)] st show ?thesis
    unfolding reported_def by (intro exI [of _ st]) auto
qed

theorem bloomfilter_never_hides_a_block_witness:
  "\<exists>st st' w'. new_fileblockstore mem_posix ''/d'' 2 \<lparr>mf_files = [(''/d/x'', [1, 2])], mf_fds = [], mf_room = 9\<rparr> = Inr st \<and>
     rfold (fb_exec mem_posix) (st, \<lparr>mf_files = [(''/d/x'', [1, 2])], mf_fds = [], mf_room = 9\<rparr>) [Next, Next] = Inr (st', w') \<and>
     mayContain (fb_bloomfilter st') ''x'' = Inr True"
proof -
  let ?w = "\<lparr>mf_files = [(''/d/x'', [1, 2])], mf_fds = [], mf_room = 9\<rparr>"
  have "\<exists>st. new_fileblockstore mem_posix ''/d'' 2 ?w = Inr st \<and> (opens_all mem_posix (st, ?w) [Next, Next] \<longrightarrow>
     (\<exists>st' w'. rfold (fb_exec mem_posix) (st, ?w) [Next, Next] = Inr (st', w') \<and>
     (\<forall>k c. is_name k \<longrightarrow> take 1 k \<noteq> ''.'' \<longrightarrow> mem_files ''/d'' w' k = Some c \<longrightarrow> int (length c) = sint (2 :: i32) \<longrightarrow>
        mayContain (fb_bloomfilter st') k = Inr True)))"
    by (rule bloomfilter_never_hides_a_block [OF mem.posix_dir_axioms])
       (simp_all add: mem_posix_def mem_opendir_def)
  moreover have "opens_all mem_posix (st, ?w) [Next, Next]" for st
    by (auto simp: mem_posix_def mem_opendir_def split: sum.split)
  ultimately obtain st st' w' where r: "new_fileblockstore mem_posix ''/d'' 2 ?w = Inr st"
    "rfold (fb_exec mem_posix) (st, ?w) [Next, Next] = Inr (st', w')"
    and all: "\<And>k c. is_name k \<Longrightarrow> take 1 k \<noteq> ''.'' \<Longrightarrow> mem_files ''/d'' w' k = Some c \<Longrightarrow> int (length c) = sint (2 :: i32) \<Longrightarrow>
        mayContain (fb_bloomfilter st') k = Inr True" by blast
  have "w' = ?w" using r(2) by (auto simp: rbind_Inr_iff)
  then have "mem_files ''/d'' w' ''x'' = Some [1, 2]" by (simp add: mem_files_def is_name_def slash_def)
  then have "mayContain (fb_bloomfilter st') ''x'' = Inr True" by (rule all [rotated 2]) (simp_all add: is_name_def)
  with r show ?thesis by blast
qed

text \<open>
  What the condition excludes: a removal after which \<open>opendir\<close> fails leaves an empty block set and a
  filter that reports no block at all, and any removal drops the blocks with hidden names from both,
  though their files are still there.
\<close>

lemma unreadable_directory_empties_filter:
  assumes "fb_ok st" and "is_name key" and "unlink_path P (slash (fb_path st) @ key) w = (True, w')"
    and "opendir_path P (fb_path st) w' = None"
  shows "\<exists>st'. removeBlock P st w key = Inr (True, st', w') \<and> fb_blockset st' = {} \<and>
    (\<forall>k. mayContain (fb_bloomfilter st') k = Inr False)"
proof -
  have path: "fb_path st \<noteq> []" "CHR 0x00 \<notin> set (fb_path st)" "fb_blocksize st \<noteq> 0" using assms(1) by (auto simp: fb_ok_def)
  have s: "0 < sint default_size" "sint default_size + 7 < 2 ^ 31" by (simp_all add: default_size_sint)
  from reset_gives_empty_filter [OF s] obtain bf where
    bf: "reset (fb_bloomfilter st) default_size 0 = Inr bf" "\<And>k. mayContain bf k = Inr False" by blast
  obtain free where "free_from_statfs (statfs_path P (fb_path st) w') (fb_blocksize st) = Inr free"
    using path(3) by (cases "statfs_path P (fb_path st) w'") (auto simp: free_from_statfs_def)
  with bf path assms show ?thesis
    by (simp add: removeBlock_def get_fullpath_slash c_str_slash regenerateBloomFilterAndBlockSet_def c_str_id Let_def)
qed

lemma hidden_blocks_leave_index:
  assumes "posix_dir P d files fds" and "fb_ok st" and "fb_path st = d" and "is_name key"
    and "removeBlock P st w key = Inr (True, st', w')" and "take 1 k = ''.''"
  shows "k \<notin> fb_blockset st'"
  by (rule posix_dir.remove_cases [OF assms(1-4), of w])
     (use assms(5,6) in \<open>auto simp: listed_def skipped_def split: option.splits\<close>)

text \<open>
  C23. Round trip: when \<open>putBlock\<close> returns true, the block was exactly one block long, the file of
  the key holds it, no other file changed and no descriptor stays open; and \<open>getBlock\<close> of the
  key, if the system lets it open and read the file, returns exactly the bytes that were put.
\<close>

theorem put_then_get:
  assumes "posix_dir P d files fds" and "fb_ok st" and "fb_path st = d" and "is_name key"
    and "putBlock P st w key data = Inr (True, st', w')"
    and "open_r P (slash d @ key) w' = (Some fd, w1)"
    and "read_fd P fd (nat (sint (fb_blocksize st))) w1 = (Some bs, w2)"
  shows "int (length data) = sint (fb_blocksize st) \<and> files w' = (files w)(key \<mapsto> data) \<and> fds w' = fds w \<and>
         (\<exists>w3. getBlock P st' w' key = Inr (Some data, w3) \<and> files w3 = files w')"
proof -
  note fs = assms(1)
  obtain bf where len: "int (length data) = sint (fb_blocksize st)" and bf: "set_key (fb_bloomfilter st) key = Inr bf"
    and st': "st' = stored st key bf" and f: "files w' = (files w)(key \<mapsto> data)" and fds: "fds w' = fds w"
    by (rule posix_dir.put_cases [OF fs assms(2-4), of w data]) (use assms(5) in auto)
  have ok: "fb_ok st'" "fb_path st' = d" using fb_ok_stored [OF assms(2) bf] assms(3) by (simp_all add: st')
  have "0 < sint (fb_blocksize st)" using assms(2) by (simp add: fb_ok_def)
  with len have ne: "data \<noteq> []" by auto
  have n: "fb_blocksize st' = fb_blocksize st" by (simp add: st')
  have bs: "bs = data"
    using posix_dir.open_r_Some [OF fs assms(4,6)] posix_dir.read_Some [OF fs _ _ assms(7), of key 0 data] f len by auto
  obtain w3 r where "getBlock P st' w' key = Inr (r, w3)" "files w3 = files w'"
    "r = (if bs = [] then None else Some bs)"
    by (rule posix_dir.get_cases [OF fs ok assms(4), of w']) (use assms(6,7) n in auto)
  with bs ne len f fds show ?thesis by auto
qed

text \<open>A store of two-byte blocks with room for four of them, over an empty directory in memory.\<close>

definition example_store :: fileblockstore where
  "example_store = \<lparr>fb_dir = None, fb_blocksize = 2, fb_path = ''/d'',
     fb_bloomfilter = \<lparr>bf_seed = 5, bf_size = 12, bf_hash = [Some 1, Some 0]\<rparr>,
     fb_blockset = {}, fb_freeBlocks = 4, fb_usedBlocks = 0\<rparr>"

definition example_world :: memfs where
  "example_world = \<lparr>mf_files = [], mf_fds = [], mf_room = 9\<rparr>"

lemma example_store_ok: "fb_ok example_store" "fb_path example_store = ''/d''"
  using usable_example by (simp_all add: fb_ok_def example_store_def)

lemma example_put:
  obtains st' where "putBlock mem_posix example_store example_world ''k'' [7, 8] =
    Inr (True, st', \<lparr>mf_files = [(''/d/k'', [7, 8])], mf_fds = [], mf_room = 7\<rparr>)"
proof -
  obtain bf where bf: "set_key (fb_bloomfilter example_store) ''k'' = Inr bf"
    using bloom.add_total [OF usable_example, of "''k''"] by (auto simp: example_store_def)
  then show thesis
    by (intro that [of "stored example_store ''k'' bf"])
       (simp add: putBlock_def example_store_def example_world_def get_fullpath_def c_str_def Let_def stored_def
         mem_posix_def mem_open_w_def mem_write_def mem_close_def fresh_fd_def map_erase_def)
qed

theorem put_then_get_witness:
  "\<exists>st' w' w3. putBlock mem_posix example_store example_world ''k'' [7, 8] = Inr (True, st', w') \<and>
     getBlock mem_posix st' w' ''k'' = Inr (Some [7, 8], w3)"
proof -
  let ?w = "\<lparr>mf_files = [(''/d/k'', [7, 8])], mf_fds = [], mf_room = 7\<rparr>"
  obtain st' where put: "putBlock mem_posix example_store example_world ''k'' [7, 8] = Inr (True, st', ?w)"
    by (rule example_put)
  have op: "open_r mem_posix (slash ''/d'' @ ''k'') ?w = (Some 3, ?w\<lparr>mf_fds := [(3, ''/d/k'', 0)]\<rparr>)"
    by (simp add: mem_posix_def mem_open_r_def fresh_fd_def slash_def)
  have rd: "read_fd mem_posix 3 (nat (sint (fb_blocksize example_store))) (?w\<lparr>mf_fds := [(3, ''/d/k'', 0)]\<rparr>) =
      (Some [7, 8], ?w\<lparr>mf_fds := [(3, ''/d/k'', 2)]\<rparr>)"
    by (simp add: mem_posix_def mem_read_def example_store_def Let_def)
  have "is_name ''k''" by (simp add: is_name_def)
  from put_then_get [OF mem.posix_dir_axioms example_store_ok this put op rd] put show ?thesis by blast
qed

text \<open>
  C39. What a failed \<open>putBlock\<close> leaves behind: the store itself is as before and no other file
  changed; either nothing happened on disk, or the key's file now exists without holding a
  complete block, whatever it held before, and the descriptor opened for it was never closed.
\<close>

theorem failed_put_leaks_descriptor:
  assumes "posix_dir P d files fds" and "fb_ok st" and "fb_path st = d" and "is_name key"
    and "putBlock P st w key data = Inr (False, st', w')"
  shows "st' = st \<and>
    ((files w' = files w \<and> fds w' = fds w) \<or>
     (\<exists>c fd pos. files w' = (files w)(key \<mapsto> c) \<and> int (length c) < sint (fb_blocksize st) \<and>
        fds w fd = None \<and> fds w' = (fds w)(fd \<mapsto> (key, pos))))"
  using assms by (rule posix_dir.failed_put)

theorem failed_put_leaks_descriptor_witness:
  "\<exists>w'. putBlock mem_posix example_store example_world ''k'' [7, 8, 9] = Inr (False, example_store, w') \<and>
     (\<exists>fd pos. mem_fds ''/d'' example_world fd = None \<and> mem_fds ''/d'' w' = (mem_fds ''/d'' example_world)(fd \<mapsto> (''k'', pos)))"
proof -
  let ?w = "\<lparr>mf_files = [(''/d/k'', [])], mf_fds = [(3, ''/d/k'', 0)], mf_room = 9\<rparr>"
  have put: "putBlock mem_posix example_store example_world ''k'' [7, 8, 9] = Inr (False, example_store, ?w)"
    by (simp add: putBlock_def example_store_def example_world_def get_fullpath_def c_str_def Let_def
         mem_posix_def mem_open_w_def fresh_fd_def)
  have k: "is_name ''k''" by (simp add: is_name_def)
  have "mem_files ''/d'' ?w ''k'' \<noteq> mem_files ''/d'' example_world ''k''"
    by (simp add: mem_files_def k slash_def example_world_def)
  then have "mem_files ''/d'' ?w \<noteq> mem_files ''/d'' example_world" by metis
  with failed_put_leaks_descriptor [OF mem.posix_dir_axioms example_store_ok k put] put show ?thesis by blast
qed

text \<open>
  A block shorter than the block size is refused although it was stored: if the file can be
  opened and all of the data is written, \<open>putBlock\<close> returns false, counts nothing, does not tell
  the filter, and the file holds the data.
\<close>

lemma short_block_stored_but_refused:
  assumes "posix_dir P d files fds" and "fb_ok st" and "fb_path st = d" and "is_name key"
    and "fb_freeBlocks st \<noteq> 0" and "int (length data) < sint (fb_blocksize st)"
    and "open_w P (slash d @ key) w = (Some fd, w1)" and "write_fd P fd data w1 = (int (length data), w2)"
  shows "putBlock P st w key data = Inr (False, st, w2) \<and> files w2 key = Some data \<and> fds w2 fd \<noteq> None"
proof -
  have path: "fb_path st \<noteq> []" "CHR 0x00 \<notin> set (fb_path st)" and bs: "0 < sint (fb_blocksize st)"
    using assms(2) by (simp_all add: fb_ok_def)
  have "\<not> nat (sint (fb_blocksize st)) < length data" using assms(6) by linarith
  then have "putBlock P st w key data = Inr (False, st, w2)"
    using path assms(3-8)
    by (simp add: putBlock_def get_fullpath_slash c_str_slash unat_scast_blocksize [OF bs] Let_def)
  moreover have "files w2 key = Some data \<and> fds w2 fd \<noteq> None"
    using posix_dir.open_w_Some [OF assms(1,4,7)] posix_dir.write_end [OF assms(1) _ _ _ assms(8), of key 0 "[]"]
    by simp
  ultimately show ?thesis by simp
qed

text \<open>
  The counters: a successful \<open>putBlock\<close> needs a free block, makes one fewer free and one more
  used, leaves the reported total (a 32-bit sum) as it was, and puts the key into the filter and
  the block set.
\<close>

lemma put_counts_one_block:
  assumes "posix_dir P d files fds" and "fb_ok st" and "fb_path st = d" and "is_name key"
    and "putBlock P st w key data = Inr (True, st', w')"
  shows "numFreeBlocks st \<noteq> 0 \<and> numFreeBlocks st' = numFreeBlocks st - 1 \<and>
         numTotalBlocks st' = numTotalBlocks st \<and> fb_blockset st' = insert key (fb_blockset st) \<and>
         mayContain (fb_bloomfilter st') key = Inr True \<and> fb_ok st'"
proof -
  obtain bf where free: "fb_freeBlocks st \<noteq> 0" and bf: "set_key (fb_bloomfilter st) key = Inr bf"
    and st': "st' = stored st key bf"
    by (rule posix_dir.put_cases [OF assms(1-4), of w data]) (use assms(5) in auto)
  have "numFreeBlocks st \<noteq> 0" using ucast_pred [OF free] by (simp add: numFreeBlocks_def)
  moreover have "numFreeBlocks st' = numFreeBlocks st - 1"
    using ucast_pred [OF free] by (simp add: numFreeBlocks_def st')
  moreover have "numTotalBlocks st' = numTotalBlocks st" by (simp add: numTotalBlocks_def st')
  moreover have "fb_ok st'" using fb_ok_stored [OF assms(2) bf] by (simp add: st')
  ultimately show ?thesis by (simp add: st' fb_ok_def)
qed

text \<open>
  C31. Removal: when \<open>removeBlock\<close> returns true the key's file and no other is gone, \<open>getBlock\<close> of
  the key returns null, and, the directory being readable, the block set is again exactly the
  set of regular files without hidden names, all of them reported by the new filter.
\<close>

theorem remove_forgets_block:
  assumes "posix_dir P d files fds" and "fb_ok st" and "fb_path st = d" and "is_name key"
    and "removeBlock P st w key = Inr (True, st', w')" and "opendir_path P d w' \<noteq> None"
  shows "files w' = (files w)(key := None) \<and> fds w' = fds w \<and> (\<exists>w1. getBlock P st' w' key = Inr (None, w1)) \<and>
         fb_blockset st' = {k. is_name k \<and> files w' k \<noteq> None \<and> take 1 k \<noteq> ''.''} \<and>
         (\<forall>k \<in> fb_blockset st'. mayContain (fb_bloomfilter st') k = Inr True)"
proof -
  note fs = assms(1)
  have r: "files w' = (files w)(key := None) \<and> fds w' = fds w \<and> fb_ok st' \<and> fb_path st' = d \<and>
      fb_blockset st' = (case opendir_path P d w' of None \<Rightarrow> {} | Some es \<Rightarrow> listed es)"
    by (rule posix_dir.remove_cases [OF assms(1-4), of w]) (use assms(5) in auto)
  obtain es where es: "opendir_path P d w' = Some es" using assms(6) by blast
  have "\<exists>w1. getBlock P st' w' key = Inr (None, w1)"
    by (rule posix_dir.get_cases [OF fs _ _ assms(4), of st' w']) (use r in auto)
  with r posix_dir.opendir_listed [OF fs es] es show ?thesis by (auto simp: fb_ok_def)
qed

theorem remove_forgets_block_witness:
  "\<exists>st' w'. removeBlock mem_posix example_store (example_world\<lparr>mf_files := [(''/d/k'', [7]), (''/d/m'', [8])]\<rparr>) ''k'' =
       Inr (True, st', w') \<and> (\<exists>w1. getBlock mem_posix st' w' ''k'' = Inr (None, w1)) \<and> ''m'' \<in> fb_blockset st'"
proof -
  let ?w = "example_world\<lparr>mf_files := [(''/d/k'', [7]), (''/d/m'', [8])]\<rparr>"
  let ?w' = "example_world\<lparr>mf_files := [(''/d/m'', [8])]\<rparr>"
  have ul: "unlink_path mem_posix (c_str (''/d'' @ ''/'' @ ''k'')) ?w = (True, ?w')"
    by (simp add: mem_posix_def mem_unlink_def map_erase_def c_str_def example_world_def)
  have ok: "fb_path example_store \<noteq> []" "CHR 0x00 \<notin> set (fb_path example_store)" "0 < sint (fb_blocksize example_store)"
    using example_store_ok by (simp_all add: fb_ok_def)
  obtain st' where "regenerateBloomFilterAndBlockSet mem_posix example_store ?w' = Inr st'"
    using regenerate_ok [OF ok, of mem_posix ?w'] by blast
  with ul have rm: "removeBlock mem_posix example_store ?w ''k'' = Inr (True, st', ?w')"
    by (simp add: removeBlock_def get_fullpath_def example_store_def)
  have k: "is_name ''k''" by (simp add: is_name_def)
  have dir: "opendir_path mem_posix ''/d'' ?w' \<noteq> None" by (simp add: mem_posix_def mem_opendir_def)
  have "mem_files ''/d'' ?w' ''m'' \<noteq> None" by (simp add: mem_files_def is_name_def slash_def)
  with remove_forgets_block [OF mem.posix_dir_axioms example_store_ok k rm dir] rm show ?thesis
    by (auto simp: is_name_def)
qed

text \<open>
  C30. Iteration: called over and over from a fresh start in an unchanged directory, \<open>next\<close> returns
  each regular file without a hidden name once, then the empty string, and is then back at a
  fresh start.
\<close>

theorem next_visits_every_block_once:
  assumes "posix_dir P d files fds" and "fb_ok st" and "fb_path st = d" and "fb_dir st = None"
    and "opendir_path P d w \<noteq> None"
  shows "\<exists>names. next_names P st w (Suc (length names)) = Inr (names @ [''''], st) \<and> distinct names \<and>
           set names = {k. is_name k \<and> files w k \<noteq> None \<and> take 1 k \<noteq> ''.''}"
proof -
  obtain es where es: "opendir_path P d w = Some es" using assms(5) by blast
  let ?names = "map fst (filter (\<lambda>e. \<not> skipped e) es)"
  have "c_str (fb_path st) = d" using assms(2,3) by (simp add: fb_ok_def c_str_id)
  with next_names_fresh [OF assms(4), of P w es] es
  have "next_names P st w (Suc (length ?names)) = Inr (?names @ [''''], st)" by simp
  moreover have "distinct ?names"
    using posix_dir.opendir_Some [OF assms(1) es] by (simp add: distinct_map_filter)
  moreover have "set ?names = {k. is_name k \<and> files w k \<noteq> None \<and> take 1 k \<noteq> ''.''}"
    using posix_dir.opendir_listed [OF assms(1) es] by (simp add: listed_def)
  ultimately show ?thesis by blast
qed

theorem next_visits_every_block_once_witness:
  "\<exists>names. next_names mem_posix example_store (example_world\<lparr>mf_files := [(''/d/k'', [7]), (''/d/m'', [8])]\<rparr>) (Suc (length names)) =
       Inr (names @ [''''], example_store) \<and> distinct names \<and> ''k'' \<in> set names \<and> ''m'' \<in> set names"
proof -
  let ?w = "example_world\<lparr>mf_files := [(''/d/k'', [7]), (''/d/m'', [8])]\<rparr>"
  have 1: "fb_dir example_store = None" by (simp add: example_store_def)
  have 2: "opendir_path mem_posix ''/d'' ?w \<noteq> None" by (simp add: mem_posix_def mem_opendir_def)
  have "mem_files ''/d'' ?w ''m'' \<noteq> None" "mem_files ''/d'' ?w ''k'' \<noteq> None"
    by (simp_all add: mem_files_def is_name_def slash_def)
  with next_visits_every_block_once [OF mem.posix_dir_axioms example_store_ok 1 2] show ?thesis
    by (fastforce simp: is_name_def)
qed

end
