(* ===== verification/Blockstore.thy ===== *)
theory Blockstore
  imports Fileblockstore
begin

section \<open>The block store interface (\<open>blockstore/blockstore.h\<close>)\<close>

text \<open>
  The virtual functions of \<open>BlockStore\<close> as a datatype of calls and one of results, and the
  contract \<open>block_store\<close> that clients of the interface rely on: no call goes wrong, a call
  changes at most the block of its own key, and a block that is returned is the one that was
  stored. \<open>FileBlockStore\<close> keeps the contract over every file system that keeps \<open>posix_dir\<close>.
\<close>

datatype store_op =
    PutBlock string bytes
  | GetBlock string
  | RemoveBlock string
  | BlockSize
  | NumFreeBlocks
  | NumTotalBlocks
  | GetBloomfilter

datatype store_result = Flag bool | Block "bytes option" | Count u64 | Filter bloomfilter

fun op_key :: "store_op \<Rightarrow> string list" where
  "op_key (PutBlock k data) = [k]"
| "op_key (GetBlock k) = [k]"
| "op_key (RemoveBlock k) = [k]"
| "op_key _ = []"

fun op_changes :: "store_op \<Rightarrow> string list" where
  "op_changes (PutBlock k data) = [k]"
| "op_changes (RemoveBlock k) = [k]"
| "op_changes _ = []"

fun op_result :: "store_op \<Rightarrow> store_result \<Rightarrow> bool" where
  "op_result (PutBlock k data) r = (\<exists>b. r = Flag b)"
| "op_result (GetBlock k) r = (\<exists>c. r = Block c)"
| "op_result (RemoveBlock k) r = (\<exists>b. r = Flag b)"
| "op_result GetBloomfilter r = (\<exists>bf. r = Filter bf)"
| "op_result _ r = (\<exists>n. r = Count n)"

definition run_ops :: "(store_op \<Rightarrow> 's \<Rightarrow> (store_result \<times> 's) res) \<Rightarrow> 's \<Rightarrow> store_op list \<Rightarrow> 's res" where
  "run_ops step = rfold (\<lambda>s op. rbind (step op s) (\<lambda>r. Inr (snd r)))"

locale block_store =
  fixes step :: "store_op \<Rightarrow> 's \<Rightarrow> (store_result \<times> 's) res"
    and ok :: "'s \<Rightarrow> bool"
    and key :: "string \<Rightarrow> bool"
    and view :: "'s \<Rightarrow> string \<Rightarrow> bytes option"
  assumes total: "ok s \<Longrightarrow> \<forall>k \<in> set (op_key op). key k \<Longrightarrow>
      \<exists>r s'. step op s = Inr (r, s') \<and> ok s' \<and> op_result op r"
    and frame: "ok s \<Longrightarrow> \<forall>k \<in> set (op_key op). key k \<Longrightarrow> step op s = Inr (r, s') \<Longrightarrow>
      k \<notin> set (op_changes op) \<Longrightarrow> view s' k = view s k"
    and put_True: "ok s \<Longrightarrow> key k \<Longrightarrow> step (PutBlock k data) s = Inr (Flag True, s') \<Longrightarrow> view s' k = Some data"
    and get_Some: "ok s \<Longrightarrow> key k \<Longrightarrow> step (GetBlock k) s = Inr (Block (Some c), s') \<Longrightarrow> view s k = Some c"
    and remove_True: "ok s \<Longrightarrow> key k \<Longrightarrow> step (RemoveBlock k) s = Inr (Flag True, s') \<Longrightarrow> view s' k = None"
begin

lemma run_total:
  "ok s \<Longrightarrow> \<forall>op \<in> set ops. \<forall>k \<in> set (op_key op). key k \<Longrightarrow> \<exists>s'. run_ops step s ops = Inr s' \<and> ok s'"
proof (induction ops arbitrary: s)
  case (Cons op ops)
  then obtain r s1 where "step op s = Inr (r, s1)" "ok s1" using total [of s op] by auto
  with Cons show ?case by (simp add: run_ops_def)
qed (simp add: run_ops_def)

lemma run_frame:
  "ok s \<Longrightarrow> \<forall>op \<in> set ops. \<forall>k \<in> set (op_key op). key k \<Longrightarrow> run_ops step s ops = Inr s' \<Longrightarrow>
   \<forall>op \<in> set ops. k \<notin> set (op_changes op) \<Longrightarrow> view s' k = view s k"
proof (induction ops arbitrary: s)
  case (Cons op ops)
  then obtain r s1 where st: "step op s = Inr (r, s1)" "ok s1" using total [of s op] by auto
  then have "view s1 k = view s k" using frame [of s op r s1 k] Cons.prems by simp
  moreover have "view s' k = view s1 k" using Cons st by (simp add: run_ops_def)
  ultimately show ?case by simp
qed (simp add: run_ops_def)

lemma get_after_put:
  assumes "ok s" and "key k" and "step (PutBlock k data) s = Inr (Flag True, s1)"
    and "\<forall>op \<in> set ops. (\<forall>x \<in> set (op_key op). key x) \<and> k \<notin> set (op_changes op)"
  shows "\<exists>s2 c s3. run_ops step s1 ops = Inr s2 \<and> step (GetBlock k) s2 = Inr (Block c, s3) \<and> (c = None \<or> c = Some data)"
proof -
  have ok1: "ok s1" using total [of s "PutBlock k data"] assms(1-3) by auto
  then obtain s2 where s2: "run_ops step s1 ops = Inr s2" "ok s2" using run_total assms(4) by blast
  then obtain c s3 where get: "step (GetBlock k) s2 = Inr (Block c, s3)"
    using total [of s2 "GetBlock k"] assms(2) by auto
  have "view s2 k = Some data"
    using run_frame [OF ok1 _ s2(1)] put_True [OF assms(1-3)] assms(4) by auto
  then have "c = None \<or> c = Some data" using get_Some [OF s2(2) assms(2)] get by (cases c) auto
  with s2(1) get show ?thesis by blast
qed

lemma get_after_remove:
  assumes "ok s" and "key k" and "step (RemoveBlock k) s = Inr (Flag True, s1)"
    and "\<forall>op \<in> set ops. (\<forall>x \<in> set (op_key op). key x) \<and> k \<notin> set (op_changes op)"
  shows "\<exists>s2 s3. run_ops step s1 ops = Inr s2 \<and> step (GetBlock k) s2 = Inr (Block None, s3)"
proof -
  have ok1: "ok s1" using total [of s "RemoveBlock k"] assms(1-3) by auto
  then obtain s2 where s2: "run_ops step s1 ops = Inr s2" "ok s2" using run_total assms(4) by blast
  then obtain c s3 where get: "step (GetBlock k) s2 = Inr (Block c, s3)"
    using total [of s2 "GetBlock k"] assms(2) by auto
  have "view s2 k = None"
    using run_frame [OF ok1 _ s2(1)] remove_True [OF assms(1-3)] assms(4) by auto
  then have "c = None" using get_Some [OF s2(2) assms(2)] get by (cases c) auto
  with s2(1) get show ?thesis by blast
qed

end

subsection \<open>\<open>FileBlockStore\<close> behind the interface\<close>

fun local_op :: "'w posix \<Rightarrow> store_op \<Rightarrow> fileblockstore \<times> 'w \<Rightarrow> (store_result \<times> fileblockstore \<times> 'w) res" where
  "local_op P (PutBlock k data) (st, w) = rbind (putBlock P st w k data) (\<lambda>r. Inr (Flag (fst r), snd r))"
| "local_op P (GetBlock k) (st, w) = rbind (getBlock P st w k) (\<lambda>r. Inr (Block (fst r), st, snd r))"
| "local_op P (RemoveBlock k) (st, w) = rbind (removeBlock P st w k) (\<lambda>r. Inr (Flag (fst r), snd r))"
| "local_op P BlockSize (st, w) = Inr (Count (blockSize st), st, w)"
| "local_op P NumFreeBlocks (st, w) = Inr (Count (numFreeBlocks st), st, w)"
| "local_op P NumTotalBlocks (st, w) = Inr (Count (numTotalBlocks st), st, w)"
| "local_op P GetBloomfilter (st, w) = rbind (bloomfilter_of st) (\<lambda>bf. Inr (Filter bf, st, w))"

definition local_ok :: "string \<Rightarrow> fileblockstore \<times> 'w \<Rightarrow> bool" where
  "local_ok d s \<longleftrightarrow> fb_ok (fst s) \<and> fb_path (fst s) = d"

definition local_view :: "('w \<Rightarrow> string \<Rightarrow> bytes option) \<Rightarrow> fileblockstore \<times> 'w \<Rightarrow> string \<Rightarrow> bytes option" where
  "local_view files s k = map_option (take (nat (sint (fb_blocksize (fst s))))) (files (snd s) k)"

context posix_dir
begin

lemma local_put:
  assumes "local_ok d s" and "is_name k"
  shows "\<exists>b s'. local_op P (PutBlock k data) s = Inr (Flag b, s') \<and> local_ok d s' \<and>
    (\<forall>x. x \<noteq> k \<longrightarrow> local_view files s' x = local_view files s x) \<and> (b \<longrightarrow> local_view files s' k = Some data)"
proof -
  obtain st w where s: "s = (st, w)" by force
  then have ok: "fb_ok st" "fb_path st = d" using assms(1) by (simp_all add: local_ok_def)
  from ok assms(2) show ?thesis
  proof (cases rule: put_cases [where w = w and data = data])
    case (written bf w1)
    with fb_ok_stored [OF ok(1) written(3)] s ok show ?thesis by (auto simp: local_ok_def local_view_def)
  qed (use s ok in \<open>auto simp: local_ok_def local_view_def intro: exI [of _ False]\<close>)
qed

lemma local_get:
  assumes "local_ok d s" and "is_name k"
  shows "\<exists>c s'. local_op P (GetBlock k) s = Inr (Block c, s') \<and> local_ok d s' \<and>
    (\<forall>x. local_view files s' x = local_view files s x) \<and> (c = None \<or> c = local_view files s k)"
proof -
  obtain st w where s: "s = (st, w)" by force
  then have ok: "fb_ok st" "fb_path st = d" using assms(1) by (simp_all add: local_ok_def)
  show ?thesis
    by (rule get_cases [OF ok assms(2), of w]) (use s ok in \<open>auto simp: local_ok_def local_view_def\<close>)
qed

lemma local_remove:
  assumes "local_ok d s" and "is_name k"
  shows "\<exists>b s'. local_op P (RemoveBlock k) s = Inr (Flag b, s') \<and> local_ok d s' \<and>
    (\<forall>x. x \<noteq> k \<longrightarrow> local_view files s' x = local_view files s x) \<and> (b \<longrightarrow> local_view files s' k = None)"
proof -
  obtain st w where s: "s = (st, w)" by force
  then have ok: "fb_ok st" "fb_path st = d" using assms(1) by (simp_all add: local_ok_def)
  from ok assms(2) show ?thesis
    by (cases rule: remove_cases [where w = w]) (use s ok in \<open>auto simp: local_ok_def local_view_def\<close>)
qed

end

lemma local_filter:
  assumes "local_ok d s"
  shows "\<exists>bf. local_op P GetBloomfilter s = Inr (Filter bf, s) \<and>
    (\<forall>k. mayContain bf k = mayContain (fb_bloomfilter (fst s)) k)"
proof -
  have "usable (fb_bloomfilter (fst s))" using assms by (simp add: local_ok_def fb_ok_def)
  with copies_answer_alike obtain bf where
    "copy_bloomfilter (fb_bloomfilter (fst s)) = Inr bf" "\<forall>k. mayContain bf k = mayContain (fb_bloomfilter (fst s)) k"
    by metis
  then show ?thesis by (cases s) (simp add: bloomfilter_of_def)
qed

context posix_dir
begin

sublocale files: block_store "local_op P" "local_ok d" is_name "local_view files"
proof
  fix s :: "fileblockstore \<times> 'w" and op :: store_op
  assume ok: "local_ok d s" and keys: "\<forall>k \<in> set (op_key op). is_name k"
  show "\<exists>r s'. local_op P op s = Inr (r, s') \<and> local_ok d s' \<and> op_result op r"
  proof (cases op)
    case (PutBlock k data)
    with local_put [OF ok, of k data] keys show ?thesis by fastforce
  next
    case (GetBlock k)
    with local_get [OF ok, of k] keys show ?thesis by fastforce
  next
    case (RemoveBlock k)
    with local_remove [OF ok, of k] keys show ?thesis by fastforce
  next
    case GetBloomfilter
    with local_filter [OF ok] ok show ?thesis by fastforce
  qed (use ok in \<open>cases s; simp\<close>)+
  fix r s' k
  assume st: "local_op P op s = Inr (r, s')" and k: "k \<notin> set (op_changes op)"
  show "local_view files s' k = local_view files s k"
  proof (cases op)
    case (PutBlock x data)
    with local_put [OF ok, of x data] keys st k show ?thesis by auto
  next
    case (GetBlock x)
    with local_get [OF ok, of x] keys st show ?thesis by auto
  next
    case (RemoveBlock x)
    with local_remove [OF ok, of x] keys st k show ?thesis by auto
  next
    case GetBloomfilter
    with local_filter [OF ok, of P] st show ?thesis by auto
  qed (use st in \<open>cases s; simp\<close>)+
next
  fix s s' :: "fileblockstore \<times> 'w" and k data
  assume ok: "local_ok d s" and k: "is_name k"
  show "local_view files s' k = Some data" if "local_op P (PutBlock k data) s = Inr (Flag True, s')"
    using local_put [OF ok k, of data] that by auto
  show "local_view files s k = Some data" if "local_op P (GetBlock k) s = Inr (Block (Some data), s')"
    using local_get [OF ok k] that by auto
  show "local_view files s' k = None" if "local_op P (RemoveBlock k) s = Inr (Flag True, s')"
    using local_remove [OF ok k] that by auto
qed

lemmas files_store = files.block_store_axioms

end

end
