(* ===== verification/Remoteblockstore.thy ===== *)
theory Remoteblockstore
  imports Blockstore Rpc_Exchange Cstring
begin

section \<open>Block stores over RPC (\<open>blockstore/remoteblockstore.h\<close>)\<close>

text \<open>
  \<open>RegisterRemoteBlockStore\<close> offers a local store under seven names that carry its \<open>bsid\<close>;
  \<open>RemoteBlockStore\<close> is the proxy that calls them. The types that travel are the four of
  \<open>bs_val\<close>; an object that does not convert to the type a template expects makes msgpack throw.
  Empty blocks travel as empty vectors; that the code takes \<open>&data[0]\<close> of them, as libstdc++
  allows, is not an error of the model. The stores of a server are numbered and \<open>7 * b + i\<close> is the \<open>i\<close>-th function bound to store \<open>b\<close>.
\<close>

datatype bs_val = VBool bool | VU64 u64 | VString string | VBytes bytes

subsection \<open>The server side\<close>

definition PutBlockHelper ::
  "'w posix \<Rightarrow> fileblockstore \<Rightarrow> 'w \<Rightarrow> string \<Rightarrow> bytes \<Rightarrow> (bool \<times> fileblockstore \<times> 'w) res" where
  "PutBlockHelper P bs w name data = putBlock P bs w name data"

definition GetBlockHelperCallback :: "bytes option \<Rightarrow> bytes" where
  "GetBlockHelperCallback src = (case src of None \<Rightarrow> [] | Some ret \<Rightarrow> ret)"

definition GetBlockHelper :: "'w posix \<Rightarrow> fileblockstore \<Rightarrow> 'w \<Rightarrow> string \<Rightarrow> (bytes \<times> 'w) res" where
  "GetBlockHelper P bs w name =
     rbind (getBlock P bs w name) (\<lambda>src. Inr (GetBlockHelperCallback (fst src), snd src))"

definition BloomFilterHelper :: "fileblockstore \<Rightarrow> bytes res" where
  "BloomFilterHelper bs = rbind (bloomfilter_of bs) serialize"

text \<open>The buffer has 128 characters; \<open>snprintf\<close> is told 127 and writes at most 126 of them.\<close>

definition MakeString :: "string \<Rightarrow> u64 \<Rightarrow> string" where
  "MakeString str bsid = take 126 (c_str str @ show_nat (unat bsid))"

definition RegisterRemoteBlockStore :: "rpc_server \<Rightarrow> nat \<Rightarrow> u64 \<Rightarrow> rpc_server" where
  "RegisterRemoteBlockStore server blockstore bsid =
     (let server = registerFunction server (MakeString ''putBlock'' bsid) (7 * blockstore, 2);
          server = registerFunction server (MakeString ''getBlock'' bsid) (7 * blockstore + 1, 1);
          server = registerFunction server (MakeString ''removeBlock'' bsid) (7 * blockstore + 2, 1);
          server = registerFunction server (MakeString ''blockSize'' bsid) (7 * blockstore + 3, 0);
          server = registerFunction server (MakeString ''numFreeBlocks'' bsid) (7 * blockstore + 4, 0);
          server = registerFunction server (MakeString ''numTotalBlocks'' bsid) (7 * blockstore + 5, 0);
          server = registerFunction server (MakeString ''bloomfilter'' bsid) (7 * blockstore + 6, 0)
      in server)"

text \<open>What each of the seven registered functions runs, with the conversion of its arguments.\<close>

fun store_function ::
  "'w posix \<Rightarrow> nat \<Rightarrow> bs_val list \<Rightarrow> fileblockstore \<Rightarrow> 'w \<Rightarrow> (bs_val \<times> fileblockstore \<times> 'w) res" where
  "store_function P i as bs w =
     (if i = 0 then (case as of
        [VString name, VBytes data] \<Rightarrow> rbind (PutBlockHelper P bs w name data) (\<lambda>r. Inr (VBool (fst r), snd r))
      | _ \<Rightarrow> Inl UncaughtException)
      else if i = 1 then (case as of
        [VString name] \<Rightarrow> rbind (GetBlockHelper P bs w name) (\<lambda>r. Inr (VBytes (fst r), bs, snd r))
      | _ \<Rightarrow> Inl UncaughtException)
      else if i = 2 then (case as of
        [VString name] \<Rightarrow> rbind (removeBlock P bs w name) (\<lambda>r. Inr (VBool (fst r), snd r))
      | _ \<Rightarrow> Inl UncaughtException)
      else if i = 3 then Inr (VU64 (blockSize bs), bs, w)
      else if i = 4 then Inr (VU64 (numFreeBlocks bs), bs, w)
      else if i = 5 then Inr (VU64 (numTotalBlocks bs), bs, w)
      else rbind (BloomFilterHelper bs) (\<lambda>v. Inr (VBytes v, bs, w)))"

declare store_function.simps [simp del]

definition run_store :: "'w posix \<Rightarrow> (bs_val, fileblockstore list \<times> 'w) run" where
  "run_store P f as s =
     (if f div 7 < length (fst s)
      then rbind (store_function P (f mod 7) as (fst s ! (f div 7)) (snd s)) (\<lambda>r.
             Inr (fst r, (fst s)[f div 7 := fst (snd r)], snd (snd r)))
      else Inl UseAfterFree)"

subsection \<open>The proxy\<close>

record remoteblockstore =
  rb_bsid :: u64

definition new_remoteblockstore :: "u64 \<Rightarrow> remoteblockstore" where
  "new_remoteblockstore bsid = \<lparr>rb_bsid = bsid\<rparr>"

type_synonym rb_call = "rpc_client \<Rightarrow> bs_val rpc_event list \<times> rpc_client"

definition remote_putBlock :: "bs_val codec \<Rightarrow> remoteblockstore \<Rightarrow> future \<Rightarrow> string \<Rightarrow> bytes \<Rightarrow> rb_call" where
  "remote_putBlock C rb fut key data cl =
     cl_call C cl fut (MakeString ''putBlock'' (rb_bsid rb)) [VString key, VBytes data]"

definition remote_getBlock :: "bs_val codec \<Rightarrow> remoteblockstore \<Rightarrow> future \<Rightarrow> string \<Rightarrow> rb_call" where
  "remote_getBlock C rb fut key cl = cl_call C cl fut (MakeString ''getBlock'' (rb_bsid rb)) [VString key]"

definition remote_removeBlock :: "bs_val codec \<Rightarrow> remoteblockstore \<Rightarrow> future \<Rightarrow> string \<Rightarrow> rb_call" where
  "remote_removeBlock C rb fut key cl = cl_call C cl fut (MakeString ''removeBlock'' (rb_bsid rb)) [VString key]"

definition remote_blockSize :: "bs_val codec \<Rightarrow> remoteblockstore \<Rightarrow> future \<Rightarrow> rb_call" where
  "remote_blockSize C rb fut cl = cl_call C cl fut (MakeString ''blockSize'' (rb_bsid rb)) []"

definition remote_numFreeBlocks :: "bs_val codec \<Rightarrow> remoteblockstore \<Rightarrow> future \<Rightarrow> rb_call" where
  "remote_numFreeBlocks C rb fut cl = cl_call C cl fut (MakeString ''numFreeBlocks'' (rb_bsid rb)) []"

definition remote_numTotalBlocks :: "bs_val codec \<Rightarrow> remoteblockstore \<Rightarrow> future \<Rightarrow> rb_call" where
  "remote_numTotalBlocks C rb fut cl = cl_call C cl fut (MakeString ''numTotalBlocks'' (rb_bsid rb)) []"

definition remote_bloomfilter :: "bs_val codec \<Rightarrow> remoteblockstore \<Rightarrow> future \<Rightarrow> rb_call" where
  "remote_bloomfilter C rb fut cl = cl_call C cl fut (MakeString ''bloomfilter'' (rb_bsid rb)) []"

text \<open>The value of a future of type \<open>A\<close>: what was received converted to \<open>A\<close>, or \<open>A()\<close>.\<close>

fun as_bool :: "bs_val outcome \<Rightarrow> bool res" where
  "as_bool (Got (VBool b)) = Inr b"
| "as_bool (Got _) = Inl UncaughtException"
| "as_bool Aborted = Inr False"

fun as_u64 :: "bs_val outcome \<Rightarrow> u64 res" where
  "as_u64 (Got (VU64 n)) = Inr n"
| "as_u64 (Got _) = Inl UncaughtException"
| "as_u64 Aborted = Inr 0"

fun as_bytes :: "bs_val outcome \<Rightarrow> bytes res" where
  "as_bytes (Got (VBytes b)) = Inr b"
| "as_bytes (Got _) = Inl UncaughtException"
| "as_bytes Aborted = Inr []"

definition getBlockHelper :: "bytes \<Rightarrow> bytes option" where
  "getBlockHelper proxy_ret = (if length proxy_ret = 0 then None else Some proxy_ret)"

text \<open>The function returns before it looks at the bytes it got.\<close>

definition bloomfilterHelper :: "bytes \<Rightarrow> bloomfilter res" where
  "bloomfilterHelper proxy_ret = new_bloomfilter"

text \<open>
  A call of the interface on the proxy, with \<open>ret\<close> the future that \<open>call\<close> makes. The caller waits
  for that future.
\<close>

type_synonym 'w remote_sys = "rpc_client \<times> rpc_conn \<times> fileblockstore list \<times> 'w"

fun remote_call :: "bs_val codec \<Rightarrow> remoteblockstore \<Rightarrow> future \<Rightarrow> store_op \<Rightarrow> rb_call" where
  "remote_call C rb ret (PutBlock k data) = remote_putBlock C rb ret k data"
| "remote_call C rb ret (GetBlock k) = remote_getBlock C rb ret k"
| "remote_call C rb ret (RemoveBlock k) = remote_removeBlock C rb ret k"
| "remote_call C rb ret BlockSize = remote_blockSize C rb ret"
| "remote_call C rb ret NumFreeBlocks = remote_numFreeBlocks C rb ret"
| "remote_call C rb ret NumTotalBlocks = remote_numTotalBlocks C rb ret"
| "remote_call C rb ret GetBloomfilter = remote_bloomfilter C rb ret"

fun remote_result :: "store_op \<Rightarrow> bs_val outcome \<Rightarrow> store_result res" where
  "remote_result (PutBlock k data) v = rbind (as_bool v) (\<lambda>b. Inr (Flag b))"
| "remote_result (GetBlock k) v = rbind (as_bytes v) (\<lambda>b. Inr (Block (getBlockHelper b)))"
| "remote_result (RemoveBlock k) v = rbind (as_bool v) (\<lambda>b. Inr (Flag b))"
| "remote_result GetBloomfilter v = rbind (as_bytes v) (\<lambda>b. rbind (bloomfilterHelper b) (\<lambda>bf. Inr (Filter bf)))"
| "remote_result _ v = rbind (as_u64 v) (\<lambda>n. Inr (Count n))"

definition remote_op ::
  "bs_val codec \<Rightarrow> funcs \<Rightarrow> 'w posix \<Rightarrow> remoteblockstore \<Rightarrow> future \<Rightarrow> store_op \<Rightarrow> 'w remote_sys \<Rightarrow>
   (store_result \<times> 'w remote_sys) res" where
  "remote_op C fs P rb ret op s =
     rbind (exchange C fs (run_store P) (remote_call C rb ret op) s) (\<lambda>r.
       case map_of (fst r) ret of
         None \<Rightarrow> Inl NeverSet
       | Some v \<Rightarrow> rbind (remote_result op v) (\<lambda>x. Inr (x, snd r)))"

subsection \<open>Names\<close>

definition store_methods :: "string list" where
  "store_methods = [''putBlock'', ''getBlock'', ''removeBlock'', ''blockSize'', ''numFreeBlocks'', ''numTotalBlocks'', ''bloomfilter'']"

lemma show_nat_length: "n < 10 ^ Suc k \<Longrightarrow> length (show_nat n) \<le> Suc k"
proof (induction k arbitrary: n)
  case 0
  then show ?case by (subst show_nat.simps) simp
next
  case (Suc k)
  have "n div 10 < 10 ^ Suc k" using Suc.prems by (simp add: div_less_iff_less_mult)
  from Suc.IH [OF this] show ?case by (subst show_nat.simps) simp
qed

lemma show_nat_u64: "length (show_nat (unat (n :: u64))) \<le> 20"
proof -
  have "unat n < 2 ^ 64" using unsigned_less [of n] by simp
  also have "(2 :: nat) ^ 64 < 10 ^ Suc 19" by simp
  finally show ?thesis using show_nat_length by fastforce
qed

lemma store_methods_facts:
  "m \<in> set store_methods \<Longrightarrow> length m \<le> 14 \<and> c_str m = m \<and> (\<forall>c \<in> set m. \<not> is_digit c)"
  by (auto simp: store_methods_def c_str_def is_digit_def)

lemma MakeString_method: "m \<in> set store_methods \<Longrightarrow> MakeString m bsid = m @ show_nat (unat bsid)"
  using store_methods_facts [of m] show_nat_u64 [of bsid] by (simp add: MakeString_def) linarith

lemma MakeString_inj:
  assumes "m \<in> set store_methods" and "m' \<in> set store_methods"
  shows "MakeString m a = MakeString m' b \<longleftrightarrow> m = m' \<and> a = b"
proof -
  have name: "takeWhile (\<lambda>c. \<not> is_digit c) (MakeString m n) = m"
    and number: "dropWhile (\<lambda>c. \<not> is_digit c) (MakeString m n) = show_nat (unat n)"
    if "m \<in> set store_methods" for m n
  proof -
    have "\<forall>c \<in> set m. \<not> is_digit c" using store_methods_facts [OF that] by blast
    moreover obtain c cs where "show_nat (unat n) = c # cs" "is_digit c"
      using show_nat_digits [of "unat n"] show_nat_nonempty [of "unat n"] by (cases "show_nat (unat n)") auto
    ultimately show "takeWhile (\<lambda>c. \<not> is_digit c) (MakeString m n) = m"
      "dropWhile (\<lambda>c. \<not> is_digit c) (MakeString m n) = show_nat (unat n)"
      by (simp_all add: MakeString_method [OF that] takeWhile_append2 dropWhile_append2)
  qed
  show ?thesis
    using name [OF assms(1), of a] name [OF assms(2), of b] number [OF assms(1), of a] number [OF assms(2), of b]
    by (metis show_nat_inj unsigned_word_eqI word_unat_eq_iff)
qed

text \<open>That the seven functions of store \<open>b\<close> are registered under the names of \<open>bsid\<close>.\<close>

definition serves :: "funcs \<Rightarrow> nat \<Rightarrow> u64 \<Rightarrow> bool" where
  "serves fs b bsid \<longleftrightarrow>
     map (\<lambda>m. map_of fs (MakeString m bsid)) store_methods =
     [Some (7 * b, 2), Some (7 * b + 1, 1), Some (7 * b + 2, 1), Some (7 * b + 3, 0), Some (7 * b + 4, 0),
      Some (7 * b + 5, 0), Some (7 * b + 6, 0)]"

lemma register_serves: "serves (sv_funcs (RegisterRemoteBlockStore sv b bsid)) b bsid"
proof -
  have "MakeString m bsid = MakeString m' bsid \<longleftrightarrow> m = m'" if "m \<in> set store_methods" "m' \<in> set store_methods" for m m'
    using that by (simp add: MakeString_inj)
  from this [unfolded store_methods_def] show ?thesis
    by (simp add: serves_def store_methods_def RegisterRemoteBlockStore_def registerFunction_def map_of_map_store)
qed

lemma register_keeps:
  assumes "serves (sv_funcs sv) b bsid" and "bsid' \<noteq> bsid"
  shows "serves (sv_funcs (RegisterRemoteBlockStore sv b' bsid')) b bsid"
proof -
  have "MakeString m bsid \<noteq> MakeString m' bsid'" if "m \<in> set store_methods" "m' \<in> set store_methods" for m m'
    using that assms(2) by (simp add: MakeString_inj)
  from this [unfolded store_methods_def] show ?thesis
    using assms(1)
    by (simp add: serves_def store_methods_def RegisterRemoteBlockStore_def registerFunction_def map_of_map_store)
qed

subsection \<open>The proxy does what the store does\<close>

fun op_index :: "store_op \<Rightarrow> nat" where
  "op_index (PutBlock k data) = 0"
| "op_index (GetBlock k) = 1"
| "op_index (RemoveBlock k) = 2"
| "op_index BlockSize = 3"
| "op_index NumFreeBlocks = 4"
| "op_index NumTotalBlocks = 5"
| "op_index GetBloomfilter = 6"

fun op_args :: "store_op \<Rightarrow> bs_val list" where
  "op_args (PutBlock k data) = [VString k, VBytes data]"
| "op_args (GetBlock k) = [VString k]"
| "op_args (RemoveBlock k) = [VString k]"
| "op_args _ = []"

lemma op_index_less: "op_index op < 7"
  by (cases op) simp_all

lemma remote_call_eq:
  "remote_call C rb ret op = (\<lambda>cl. cl_call C cl ret (MakeString (store_methods ! op_index op) (rb_bsid rb)) (op_args op))"
  by (cases op)
     (simp_all add: fun_eq_iff store_methods_def remote_putBlock_def remote_getBlock_def remote_removeBlock_def
       remote_blockSize_def remote_numFreeBlocks_def remote_numTotalBlocks_def remote_bloomfilter_def)

lemma serves_method:
  assumes "serves fs b bsid"
  shows "map_of fs (MakeString (store_methods ! op_index op) bsid) = Some (7 * b + op_index op, length (op_args op))"
  using assms by (cases op) (simp_all add: serves_def store_methods_def)

text \<open>A client and a connection with nothing in flight and a number free for the next request.\<close>

definition quiet :: "rpc_client \<Rightarrow> rpc_conn \<Rightarrow> bool" where
  "quiet cl co \<longleftrightarrow> cl_pac cl = [] \<and> co_pac co = [] \<and> map_ok (cl_respCallbacks cl) \<and>
     map_of (cl_respCallbacks cl) (cl_reqId cl) = None"

lemma run_store_index:
  assumes "b < length stores" and "i < 7"
  shows "run_store P (7 * b + i) as (stores, w) =
    rbind (store_function P i as (stores ! b) w) (\<lambda>r. Inr (fst r, stores[b := fst (snd r)], snd (snd r)))"
  using assms by (simp add: run_store_def)

lemma remote_exchange:
  assumes "msgpack C" and "quiet cl co" and "serves fs b (rb_bsid rb)" and "b < length stores"
  shows "exchange C fs (run_store P) (remote_call C rb ret op) (cl, co, stores, w) =
    rbind (store_function P (op_index op) (op_args op) (stores ! b) w) (\<lambda>r.
      Inr ([(ret, Got (fst r))], cl\<lparr>cl_reqId := cl_reqId cl + 1\<rparr>, co, stores[b := fst (snd r)], snd (snd r)))"
proof -
  have q: "cl_pac cl = []" "co_pac co = []" "map_of (cl_respCallbacks cl) (cl_reqId cl) = None"
    "map_ok (cl_respCallbacks cl)" using assms(2) by (simp_all add: quiet_def)
  from msgpack.exchange_call [OF assms(1) q serves_method [OF assms(3), of op], of "run_store P" ret "(stores, w)"]
  have "exchange C fs (run_store P) (remote_call C rb ret op) (cl, co, stores, w) =
    rbind (run_store P (7 * b + op_index op) (op_args op) (stores, w)) (\<lambda>r.
      Inr ([(ret, Got (fst r))], cl\<lparr>cl_reqId := cl_reqId cl + 1\<rparr>, co, snd r))"
    by (simp only: remote_call_eq)
  then show ?thesis
    by (cases "store_function P (op_index op) (op_args op) (stores ! b) w")
       (simp_all add: run_store_index [OF assms(4) op_index_less])
qed

lemma getBlock_nonempty:
  assumes "getBlock P st w k = Inr (Some c, w')"
  shows "c \<noteq> []"
proof -
  obtain p where p: "get_fullpath (fb_path st) k = Inr p"
    using assms by (auto simp: getBlock_def rbind_Inr_iff)
  obtain fd w1 where op: "open_r P (c_str p) w = (fd, w1)" by force
  then obtain fd' where fd: "fd = Some fd'" using assms p by (cases fd) (simp_all add: getBlock_def)
  obtain r w2 where rd: "read_fd P fd' (nat (sint (fb_blocksize st))) w1 = (r, w2)" by force
  show ?thesis
    using assms p op fd rd by (cases r) (auto simp: getBlock_def split: if_splits)
qed

lemma block_travels:
  assumes "getBlock P st w k = Inr r"
  shows "getBlockHelper (GetBlockHelperCallback (fst r)) = fst r"
  using assms getBlock_nonempty [of P st w k _ "snd r"]
  by (cases "fst r") (auto simp: getBlockHelper_def GetBlockHelperCallback_def prod_eq_iff)

lemma store_function_local:
  assumes "op \<noteq> GetBloomfilter"
  shows "rbind (store_function P (op_index op) (op_args op) st w) (\<lambda>r. rbind (remote_result op (Got (fst r))) (\<lambda>x. Inr (x, snd r))) =
    local_op P op (st, w)"
proof (cases op)
  case (PutBlock k data)
  then show ?thesis
    by (cases "putBlock P st w k data") (simp_all add: store_function.simps PutBlockHelper_def)
next
  case (GetBlock k)
  then show ?thesis
    by (cases "getBlock P st w k") (simp_all add: store_function.simps GetBlockHelper_def block_travels)
next
  case (RemoveBlock k)
  then show ?thesis by (cases "removeBlock P st w k") (simp_all add: store_function.simps)
qed (use assms in \<open>simp_all add: store_function.simps\<close>)

lemma remote_op_eq:
  assumes "msgpack C" and "quiet cl co" and "serves fs b (rb_bsid rb)" and "b < length stores" and "op \<noteq> GetBloomfilter"
  shows "remote_op C fs P rb ret op (cl, co, stores, w) =
    rbind (local_op P op (stores ! b, w)) (\<lambda>r.
      Inr (fst r, cl\<lparr>cl_reqId := cl_reqId cl + 1\<rparr>, co, stores[b := fst (snd r)], snd (snd r)))"
  unfolding remote_op_def remote_exchange [OF assms(1-4)] store_function_local [OF assms(5), symmetric]
  by (cases "store_function P (op_index op) (op_args op) (stores ! b) w")
     (auto simp: rbind_def split: sum.split)

lemma remote_filter_eq:
  assumes "msgpack C" and "quiet cl co" and "serves fs b (rb_bsid rb)" and "b < length stores"
    and "usable (fb_bloomfilter (stores ! b))"
  shows "remote_op C fs P rb ret GetBloomfilter (cl, co, stores, w) =
    rbind new_bloomfilter (\<lambda>bf. Inr (Filter bf, cl\<lparr>cl_reqId := cl_reqId cl + 1\<rparr>, co, stores, w))"
proof -
  obtain bf where bf: "copy_bloomfilter (fb_bloomfilter (stores ! b)) = Inr bf" "usable bf"
    using copies_answer_alike [OF assms(5)] by blast
  then obtain v where v: "serialize bf = Inr v"
    using read_bytes_init [of "bf_hash bf" "nbytes (bf_size bf)"] by (auto simp: serialize_def usable_def sound_def)
  have "store_function P 6 [] (stores ! b) w = Inr (VBytes v, stores ! b, w)"
    using bf(1) v by (simp add: store_function.simps BloomFilterHelper_def bloomfilter_of_def)
  moreover have "stores[b := stores ! b] = stores" by simp
  ultimately show ?thesis
    unfolding remote_op_def remote_exchange [OF assms(1-4)]
    by (simp add: bloomfilterHelper_def rbind_assoc)
qed

subsection \<open>The proxy keeps the contract of the interface\<close>

definition remote_ok :: "nat \<Rightarrow> string \<Rightarrow> 'w remote_sys \<Rightarrow> bool" where
  "remote_ok b d s \<longleftrightarrow> (case s of (cl, co, stores, w) \<Rightarrow>
     cl_pac cl = [] \<and> co_pac co = [] \<and> cl_respCallbacks cl = [] \<and> b < length stores \<and> local_ok d (stores ! b, w))"

definition remote_view :: "nat \<Rightarrow> ('w \<Rightarrow> string \<Rightarrow> bytes option) \<Rightarrow> 'w remote_sys \<Rightarrow> string \<Rightarrow> bytes option" where
  "remote_view b files s = (case s of (cl, co, stores, w) \<Rightarrow> local_view files (stores ! b, w))"

text \<open>One step of the proxy as a step of the store behind it; only the filter is not the store's.\<close>

lemma remote_simulates:
  assumes "msgpack C" and "posix_dir P d files fds" and "serves fs b (rb_bsid rb)" and "remote_ok b d s"
    and "\<forall>k \<in> set (op_key op). is_name k"
  obtains cl co stores w r st' w' r' s' where "s = (cl, co, stores, w)"
    "local_op P op (stores ! b, w) = Inr (r, st', w')" "local_ok d (st', w')" "op_result op r"
    "remote_op C fs P rb ret op s = Inr (r', s')" "remote_ok b d s'" "op_result op r'" "op \<noteq> GetBloomfilter \<Longrightarrow> r' = r"
    "\<And>k. remote_view b files s' k = local_view files (st', w') k"
proof -
  obtain cl co stores w where s: "s = (cl, co, stores, w)" by (metis surj_pair)
  then have ok: "local_ok d (stores ! b, w)" "b < length stores" and q: "quiet cl co"
    and idle: "cl_pac cl = []" "co_pac co = []" "cl_respCallbacks cl = []"
    using assms(4) by (simp_all add: remote_ok_def quiet_def map_ok_def)
  from block_store.total [OF posix_dir.files_store [OF assms(2)] ok(1) assms(5)]
  obtain r st' w' where loc: "local_op P op (stores ! b, w) = Inr (r, st', w')" "local_ok d (st', w')" "op_result op r"
    by (metis prod.exhaust)
  let ?s' = "(cl\<lparr>cl_reqId := cl_reqId cl + 1\<rparr>, co, stores[b := st'], w')"
  have s': "remote_ok b d ?s'" "remote_view b files ?s' k = local_view files (st', w') k" for k
    using loc(2) ok(2) idle by (simp_all add: remote_ok_def remote_view_def)
  show thesis
  proof (cases "op = GetBloomfilter")
    case False
    with remote_op_eq [OF assms(1) q assms(3) ok(2) False, of P ret w] loc s
    have "remote_op C fs P rb ret op s = Inr (r, ?s')" by simp
    with that [OF s loc _ s'(1) loc(3) _ s'(2)] show thesis by blast
  next
    case True
    have u: "usable (fb_bloomfilter (stores ! b))" using ok(1) by (simp add: local_ok_def fb_ok_def)
    obtain bf where bf: "new_bloomfilter = Inr bf"
      using reset_default [of "\<lparr>bf_seed = 0, bf_size = 0, bf_hash = []\<rparr>"] by (auto simp: new_bloomfilter_def)
    have same: "st' = stores ! b" "w' = w" using local_filter [OF ok(1), of P] loc(1) True by auto
    then have "?s' = (cl\<lparr>cl_reqId := cl_reqId cl + 1\<rparr>, co, stores, w)" by simp
    then have "remote_op C fs P rb ret op s = Inr (Filter bf, ?s')"
      using remote_filter_eq [OF assms(1) q assms(3) ok(2) u, of P ret w, unfolded bf] s True by simp
    moreover have "op_result op (Filter bf)" using True by simp
    ultimately show thesis using that [OF s loc _ s'(1) _ _ s'(2)] True by blast
  qed
qed

lemma remote_block_store:
  assumes "msgpack C" and "posix_dir P d files fds" and "serves fs b (rb_bsid rb)"
  shows "block_store (remote_op C fs P rb ret) (remote_ok b d) is_name (remote_view b files)"
proof
  note local = posix_dir.files_store [OF assms(2)]
  fix s :: "'a remote_sys" and op :: store_op
  assume ok: "remote_ok b d s" and keys: "\<forall>k \<in> set (op_key op). is_name k"
  show "\<exists>r s'. remote_op C fs P rb ret op s = Inr (r, s') \<and> remote_ok b d s' \<and> op_result op r"
    by (rule remote_simulates [OF assms ok keys, of ret]) blast
  fix r s' k
  assume st: "remote_op C fs P rb ret op s = Inr (r, s')" and k: "k \<notin> set (op_changes op)"
  obtain cl co stores w r1 st1 w1 where s: "s = (cl, co, stores, w)"
    and loc: "local_op P op (stores ! b, w) = Inr (r1, st1, w1)" and view: "remote_view b files s' k = local_view files (st1, w1) k"
    by (rule remote_simulates [OF assms ok keys, of ret]) (use st in auto)
  then have "local_ok d (stores ! b, w)" using ok by (simp add: remote_ok_def)
  from block_store.frame [OF local this keys loc k] view s
  show "remote_view b files s' k = remote_view b files s k" by (simp add: remote_view_def)
next
  note local = posix_dir.files_store [OF assms(2)]
  have sim: "\<exists>cl co stores w st1 w1. s = (cl, co, stores, w) \<and> local_ok d (stores ! b, w) \<and>
      local_op P op (stores ! b, w) = Inr (r, st1, w1) \<and> (\<forall>k. remote_view b files s' k = local_view files (st1, w1) k)"
    if "remote_ok b d s" "\<forall>k \<in> set (op_key op). is_name k" "op \<noteq> GetBloomfilter"
      "remote_op C fs P rb ret op s = Inr (r, s')" for s s' :: "'a remote_sys" and op r
    by (rule remote_simulates [OF assms that(1,2), of ret]) (use that in \<open>auto simp: remote_ok_def\<close>)
  fix s s' :: "'a remote_sys" and k data
  assume ok: "remote_ok b d s" and k: "is_name k"
  show "remote_view b files s' k = Some data" if "remote_op C fs P rb ret (PutBlock k data) s = Inr (Flag True, s')"
    using sim [OF ok _ _ that] block_store.put_True [OF local _ k] k by auto
  show "remote_view b files s k = Some data" if "remote_op C fs P rb ret (GetBlock k) s = Inr (Block (Some data), s')"
    using sim [OF ok _ _ that] block_store.get_Some [OF local _ k] k by (fastforce simp: remote_view_def)
  show "remote_view b files s' k = None" if "remote_op C fs P rb ret (RemoveBlock k) s = Inr (Flag True, s')"
    using sim [OF ok _ _ that] block_store.remove_True [OF local _ k] k by auto
qed

subsection \<open>Properties\<close>

text \<open>A concrete encoding of the values, and a server with two stores in one directory in memory.\<close>

fun val_nums :: "bs_val \<Rightarrow> nat list" where
  "val_nums (VBool b) = [0, of_bool b]"
| "val_nums (VU64 n) = [1, unat n]"
| "val_nums (VString s) = 2 # map of_char s"
| "val_nums (VBytes b) = 3 # map unat b"

definition nums_val :: "nat list \<Rightarrow> bs_val option" where
  "nums_val ns = (case ns of [] \<Rightarrow> None | t # ms \<Rightarrow>
     if t = 0 then Some (VBool (ms = [1])) else if t = 1 then Some (VU64 (of_nat (hd ms)))
     else if t = 2 then Some (VString (map char_of ms)) else Some (VBytes (map of_nat ms)))"

definition store_codec :: "bs_val codec" where
  "store_codec = unary_via val_nums nums_val"

interpretation store_codec: msgpack store_codec
proof -
  have "nums_val (val_nums v) = Some v" for v
    by (cases v) (simp_all add: nums_val_def comp_def)
  then show "msgpack store_codec" unfolding store_codec_def by (rule msgpack_unary_via)
qed

definition example_server :: funcs where
  "example_server = sv_funcs (RegisterRemoteBlockStore (RegisterRemoteBlockStore new_server 0 7) 1 8)"

lemma example_serves: "serves example_server 0 7" "serves example_server 1 8"
  unfolding example_server_def by (rule register_keeps [OF register_serves], simp) (rule register_serves)

abbreviation example_remote :: "memfs remote_sys" where
  "example_remote \<equiv> (new_client, new_conn, [example_store, example_store], example_world)"

lemma example_quiet: "quiet new_client new_conn"
  by (simp add: quiet_def new_client_def new_conn_def map_ok_def)

lemma example_remote_ok: "remote_ok 1 ''/d'' example_remote"
  using example_store_ok by (simp add: remote_ok_def local_ok_def new_client_def new_conn_def)

text \<open>
  C2. The proxy does what the store does: a call of \<open>RemoteBlockStore\<close> other than \<open>bloomfilter\<close>
  gives the same result and has the same effect as the call on the \<open>FileBlockStore\<close> behind it,
  error for error; no other store of the server changes, and the client is left with its request
  counter one further and nothing pending.
\<close>

theorem remote_call_is_local_call:
  assumes "msgpack C" and "quiet cl co" and "serves fs b (rb_bsid rb)" and "b < length stores" and "op \<noteq> GetBloomfilter"
  shows "remote_op C fs P rb ret op (cl, co, stores, w) =
    rbind (local_op P op (stores ! b, w)) (\<lambda>r.
      Inr (fst r, cl\<lparr>cl_reqId := cl_reqId cl + 1\<rparr>, co, stores[b := fst (snd r)], snd (snd r)))"
  by (rule remote_op_eq [OF assms])

theorem remote_call_is_local_call_witness:
  "remote_op store_codec example_server mem_posix \<lparr>rb_bsid = 8\<rparr> 3 (GetBlock ''k'') example_remote =
    rbind (local_op mem_posix (GetBlock ''k'') (example_store, example_world)) (\<lambda>r.
      Inr (fst r, new_client\<lparr>cl_reqId := 1\<rparr>, new_conn, [example_store, fst (snd r)], snd (snd r)))"
  using remote_call_is_local_call [OF store_codec.msgpack_axioms example_quiet, of example_server 1 "\<lparr>rb_bsid = 8\<rparr>"
      "[example_store, example_store]" "GetBlock ''k''" mem_posix 3 example_world] example_serves
  by (simp add: new_client_def)

text \<open>
  C28. Stores do not collide: when any number of stores are registered on one server under
  different ids, every name of every store is registered to that store's own function, whatever
  was registered before.
\<close>

theorem stores_do_not_collide:
  assumes "distinct ids" and "i < length ids"
  shows "serves (sv_funcs (fold (\<lambda>b sv. RegisterRemoteBlockStore sv b (ids ! b)) [0..<length ids] sv)) i (ids ! i)"
proof -
  have "serves (sv_funcs (fold (\<lambda>b sv. RegisterRemoteBlockStore sv b (ids ! b)) [0..<n] sv)) i (ids ! i)"
    if "i < n" "n \<le> length ids" for n
    using that
  proof (induction n)
    case (Suc n)
    show ?case
    proof (cases "i = n")
      case True
      then show ?thesis by (simp add: register_serves)
    next
      case False
      then have "ids ! n \<noteq> ids ! i" using assms Suc.prems by (simp add: nth_eq_iff_index_eq)
      with False Suc show ?thesis by (simp add: register_keeps)
    qed
  qed simp
  then show ?thesis using assms(2) by blast
qed

theorem stores_do_not_collide_witness:
  "serves (sv_funcs (RegisterRemoteBlockStore (RegisterRemoteBlockStore (RegisterRemoteBlockStore new_server 0 1) 1 12) 2 112)) 1 12"
proof -
  have "distinct [1, 12, 112 :: u64]" by simp
  from stores_do_not_collide [OF this, of 1 new_server] show ?thesis by (simp add: numeral_2_eq_2)
qed

text \<open>
  A block put through the proxy is never returned wrong: after a put that returned true and any
  calls through the proxy that do not put or remove this key, none of which goes wrong, \<open>getBlock\<close>
  returns the block that was put or, when the system refuses to open or read the file, null.
\<close>

lemma remote_block_is_kept:
  assumes "msgpack C" and "posix_dir P d files fds" and "serves fs b (rb_bsid rb)" and "remote_ok b d s"
    and "is_name k" and "remote_op C fs P rb ret (PutBlock k data) s = Inr (Flag True, s1)"
    and "\<forall>op \<in> set ops. (\<forall>x \<in> set (op_key op). is_name x) \<and> k \<notin> set (op_changes op)"
  shows "\<exists>s2 c s3. run_ops (remote_op C fs P rb ret) s1 ops = Inr s2 \<and>
    remote_op C fs P rb ret (GetBlock k) s2 = Inr (Block c, s3) \<and> (c = None \<or> c = Some data)"
  by (rule block_store.get_after_put [OF remote_block_store [OF assms(1-3)] assms(4-7)])

text \<open>
  C40. The proxy's Bloom filter is empty: \<open>bloomfilter\<close> fetches the filter of the store, but
  \<open>bloomfilterHelper\<close> returns before it looks at it, so the filter it hands out reports no key at
  all, also none of those the store holds.
\<close>

theorem remote_filter_hides_every_block:
  assumes "msgpack C" and "quiet cl co" and "serves fs b (rb_bsid rb)" and "b < length stores"
    and "fb_ok (stores ! b)"
  shows "\<exists>bf s'. remote_op C fs P rb ret GetBloomfilter (cl, co, stores, w) = Inr (Filter bf, s') \<and>
    (\<forall>k. mayContain bf k = Inr False) \<and> (\<forall>k \<in> fb_blockset (stores ! b). mayContain (fb_bloomfilter (stores ! b)) k = Inr True)"
proof -
  have u: "usable (fb_bloomfilter (stores ! b))" and set: "\<forall>k \<in> fb_blockset (stores ! b). mayContain (fb_bloomfilter (stores ! b)) k = Inr True"
    using assms(5) by (simp_all add: fb_ok_def)
  obtain bf where bf: "new_bloomfilter = Inr bf" "usable bf" "bits bf = {}" using new_bloomfilter_empty by blast
  then have "\<forall>k. mayContain bf k = Inr False" by (simp add: mayContain_bits)
  moreover have "\<exists>s'. remote_op C fs P rb ret GetBloomfilter (cl, co, stores, w) = Inr (Filter bf, s')"
    using remote_filter_eq [OF assms(1-4) u, of P ret w, unfolded bf(1)] by simp
  ultimately show ?thesis using set by blast
qed

theorem remote_filter_hides_every_block_witness:
  "\<exists>bf s'. remote_op store_codec example_server mem_posix \<lparr>rb_bsid = 7\<rparr> 3 GetBloomfilter example_remote = Inr (Filter bf, s') \<and>
    mayContain bf ''k'' = Inr False"
proof -
  have s: "serves example_server 0 (rb_bsid \<lparr>rb_bsid = 7\<rparr>)" using example_serves by simp
  have "fb_ok ([example_store, example_store] ! 0)" using example_store_ok by simp
  from remote_filter_hides_every_block [OF store_codec.msgpack_axioms example_quiet s _ this, of mem_posix 3 example_world]
  show ?thesis by auto
qed

end
