(* ===== verification/Rpc_Workers.thy ===== *)
theory Rpc_Workers
  imports Rpc_Service
begin

section \<open>Worker threads\<close>

text \<open>
  The service of \<open>Rpc_Service\<close> with the threads of the event manager that run its tasks. A worker
  takes a task and begins the function on the state of the application as it is then; when the
  function ends, what it made of that state becomes the state, and the answer is written. In between
  other workers may begin and end functions and every link may go on. At most \<open>N\<close> functions are in
  progress at a time: \<open>N\<close> is the number of workers, or 1 when the functions take a mutex for their
  whole body, as those of \<open>ServiceNode\<close> do. \<open>FileBlockStore\<close> has no mutex, and the daemon starts its
  event managers with five workers.
\<close>

type_synonym task = "u64 \<times> (func \<times> nat) \<times> bytes"

record ('v, 's) workers =
  wk_service :: "('v, 's) rpc_service"
  wk_running :: "(nat \<times> task \<times> 's) list" \<comment> \<open>link, task, the state the function began on\<close>

definition workers_start :: "'s \<Rightarrow> ('v, 's) workers" where
  "workers_start st = \<lparr>wk_service = service_start st, wk_running = []\<rparr>"

inductive worker_step ::
  "'v codec \<Rightarrow> funcs \<Rightarrow> ('v, 's) run \<Rightarrow> nat \<Rightarrow> ('v, 's) workers \<Rightarrow> ('v, 's) workers \<Rightarrow> bool" for C fs run N where
  link: "rpc_step C fs (rs_links r i) s' \<Longrightarrow> sy_running s' = sy_running (rs_links r i) \<Longrightarrow>
    worker_step C fs run N \<lparr>wk_service = r, wk_running = ts\<rparr>
      \<lparr>wk_service = r\<lparr>rs_links := (rs_links r)(i := s')\<rparr>, wk_running = ts\<rparr>"
| begins: "length ts < N \<Longrightarrow> t \<in> set (sy_server_tasks (rs_links r i)) \<Longrightarrow> (i, t) \<notin> (\<lambda>e. (fst e, fst (snd e))) ` set ts \<Longrightarrow>
    worker_step C fs run N \<lparr>wk_service = r, wk_running = ts\<rparr> \<lparr>wk_service = r, wk_running = ts @ [(i, t, rs_state r)]\<rparr>"
| ends: "ts = us @ (i, (rid, f, raw), st) # vs \<Longrightarrow> sy_server_tasks (rs_links r i) = xs @ (rid, f, raw) # ys \<Longrightarrow>
    deferredRPCCall C f raw = Inr (g, as) \<Longrightarrow> run g as st = Inr (v, st') \<Longrightarrow>
    worker_step C fs run N \<lparr>wk_service = r, wk_running = ts\<rparr>
      \<lparr>wk_service = r\<lparr>rs_links := (rs_links r)(i := task_done C (rs_links r i) (xs @ ys) rid g as v), rs_state := st',
         rs_log := rs_log r @ [(i, rid, g, as, v)]\<rparr>, wk_running = us @ vs\<rparr>"

inductive worker_reach :: "'v codec \<Rightarrow> funcs \<Rightarrow> ('v, 's) run \<Rightarrow> nat \<Rightarrow> 's \<Rightarrow> ('v, 's) workers \<Rightarrow> bool" for C fs run N st0 where
  start: "worker_reach C fs run N st0 (workers_start st0)"
| step: "worker_reach C fs run N st0 a \<Longrightarrow> worker_step C fs run N a b \<Longrightarrow> worker_reach C fs run N st0 b"

lemma worker_reach_steps:
  "(worker_step C fs run N)\<^sup>*\<^sup>* a b \<Longrightarrow> worker_reach C fs run N st0 a \<Longrightarrow> worker_reach C fs run N st0 b"
  by (induction rule: rtranclp_induct) (auto intro: worker_reach.step)

subsection \<open>One function at a time\<close>

text \<open>A function that is alone in progress ends on the state it began on.\<close>

definition alone :: "('v, 's) workers \<Rightarrow> bool" where
  "alone w \<longleftrightarrow> length (wk_running w) \<le> 1 \<and> (\<forall>e \<in> set (wk_running w). snd (snd e) = rs_state (wk_service w))"

lemma worker_step_refines:
  assumes "worker_step C fs run 1 a b" and "alone a"
  shows "alone b \<and> (service_step C fs run)\<^sup>=\<^sup>= (wk_service a) (wk_service b)"
  using assms(1)
proof cases
  case (link r i s' ts)
  then show ?thesis using assms(2) service_step.link [OF link(3,4), of run] by (simp add: alone_def)
next
  case (begins ts t r i)
  then show ?thesis by (simp add: alone_def)
next
  case (ends ts us i rid f raw st vs r xs ys g as v st')
  then have "us = []" "vs = []" "st = rs_state r" using assms(2) by (auto simp: alone_def)
  with ends show ?thesis using service_step.exec [OF ends(4,5), of run v st' fs] by (simp add: alone_def)
qed

lemma workers_refine:
  assumes "(worker_step C fs run 1)\<^sup>*\<^sup>* a b" and "alone a"
  shows "alone b \<and> (service_step C fs run)\<^sup>*\<^sup>* (wk_service a) (wk_service b)"
  using assms
proof (induction rule: rtranclp_induct)
  case (step b c)
  then have "alone c" "(service_step C fs run)\<^sup>=\<^sup>= (wk_service b) (wk_service c)" using worker_step_refines by blast+
  with step show ?case by (auto intro: rtranclp.rtrancl_into_rtrancl)
qed simp

lemma worker_reach_refines:
  assumes "worker_reach C fs run 1 st0 w"
  shows "alone w \<and> service_reach C fs run st0 (wk_service w)"
  using assms
proof (induction rule: worker_reach.induct)
  case start
  show ?case by (simp add: alone_def workers_start_def service_reach.start)
next
  case (step a b)
  then show ?case using worker_step_refines [OF step(2)] service_reach.step by fastforce
qed

text \<open>And every execution of the service is one of the workers.\<close>

lemma service_step_workers:
  assumes "service_step C fs run r r'" and "0 < N"
  shows "(worker_step C fs run N)\<^sup>*\<^sup>* \<lparr>wk_service = r, wk_running = []\<rparr> \<lparr>wk_service = r', wk_running = []\<rparr>"
  using assms(1)
proof cases
  case (link i s')
  show ?thesis unfolding link(1) by (intro r_into_rtranclp worker_step.link link)
next
  case (exec i xs rid f raw ys g as v st')
  let ?t = "(rid, f, raw)"
  have "worker_step C fs run N \<lparr>wk_service = r, wk_running = []\<rparr> \<lparr>wk_service = r, wk_running = [] @ [(i, ?t, rs_state r)]\<rparr>"
    using assms(2) exec(2) by (intro worker_step.begins) simp_all
  moreover have "worker_step C fs run N \<lparr>wk_service = r, wk_running = [] @ [(i, ?t, rs_state r)]\<rparr>
      \<lparr>wk_service = r', wk_running = [] @ []\<rparr>"
    unfolding exec(1) by (rule worker_step.ends [where us = "[]" and vs = "[]", OF _ exec(2,3)]) (simp, rule exec(4))
  ultimately show ?thesis by simp
qed

lemma service_steps_workers:
  "(service_step C fs run)\<^sup>*\<^sup>* r r' \<Longrightarrow> 0 < N \<Longrightarrow>
   (worker_step C fs run N)\<^sup>*\<^sup>* \<lparr>wk_service = r, wk_running = []\<rparr> \<lparr>wk_service = r', wk_running = []\<rparr>"
  by (induction rule: rtranclp_induct) (auto dest: service_step_workers)

lemma service_reach_workers:
  "service_reach C fs run st0 r \<Longrightarrow> 0 < N \<Longrightarrow> worker_reach C fs run N st0 \<lparr>wk_service = r, wk_running = []\<rparr>"
proof (induction rule: service_reach.induct)
  case start
  then show ?case using worker_reach.start [of C fs run N st0] by (simp add: workers_start_def)
next
  case (step r r')
  show ?case by (rule worker_reach_steps [OF service_step_workers [OF step(2,4)] step(3) [OF step(4)]])
qed

subsection \<open>Two functions at a time\<close>

text \<open>
  Without the restriction an execution can get lost: two clients call the function that adds its
  argument to a counter, both functions begin, both end, and the counter has only one of the sums.
\<close>

definition queued :: "nat rpc_sys" where
  "queued = example_called\<lparr>sy_c2s := [], sy_server_tasks := [(0, (1, 1), [1, 1, 0])]\<rparr>"

lemma queued_link:
  assumes "worker_reach unary example_funcs run N st0 \<lparr>wk_service = r, wk_running = ts\<rparr>" and "rs_links r i = rpc_start"
  shows "worker_reach unary example_funcs run N st0 \<lparr>wk_service = with_link r i queued, wk_running = ts\<rparr>"
proof -
  have "cl_call unary new_client 7 [CHR 0x01] [2] =
      ([Write example_req], new_client\<lparr>cl_reqId := 1, cl_respCallbacks := [(0, 7)]\<rparr>)" by code_simp
  then have "rpc_step unary example_funcs rpc_start
      (rpc_start\<lparr>sy_client := new_client\<lparr>cl_reqId := 1, cl_respCallbacks := [(0, 7)]\<rparr>,
         sy_c2s := sy_c2s (rpc_start :: nat rpc_sys) @ written [Write example_req :: nat rpc_event],
         sy_calls := sy_calls rpc_start @ [(7, cl_reqId (sy_client (rpc_start :: nat rpc_sys)), [CHR 0x01], [2])]\<rparr>)"
    by (intro rpc_step.call [where f = 1]) (simp_all add: rpc_start_def example_funcs_def new_client_def)
  then have 1: "rpc_step unary example_funcs rpc_start example_called"
    by (simp add: example_called_def rpc_start_def new_client_def)
  have r: "co_onReceive unary example_funcs new_conn example_req = Inr ([EnqueueCall 0 (1, 1) [1, 1, 0]], new_conn)"
    "example_req \<noteq> []" by code_simp+
  have "rpc_step unary example_funcs example_called (example_called\<lparr>sy_conn := new_conn, sy_c2s := [],
      sy_server_tasks := sy_server_tasks example_called @ enqueued_calls [EnqueueCall 0 (1, 1) [1, 1, 0] :: nat rpc_event]\<rparr>)"
    by (rule rpc_step.to_server [OF _ r(2)]) (use r(1) in \<open>simp_all add: example_called_def rpc_start_def\<close>)
  then have 2: "rpc_step unary example_funcs example_called queued"
    by (simp add: queued_def example_called_def rpc_start_def)
  have "worker_reach unary example_funcs run N st0 \<lparr>wk_service = with_link r i example_called, wk_running = ts\<rparr>"
    by (rule worker_reach.step [OF assms(1) worker_step.link]) (use 1 assms(2) in \<open>simp_all add: example_called_def\<close>)
  from worker_reach.step [OF this worker_step.link [where i = i and s' = queued]] 2 show ?thesis
    by (simp add: queued_def)
qed

lemma two_workers_lose_an_update:
  "\<exists>w. worker_reach unary example_funcs add_run 2 0 w \<and> wk_running w = [] \<and>
     rs_log (wk_service w) = [(0, 0, 1, [2], 2), (1, 0, 1, [2], 2)] \<and> rs_state (wk_service w) = 2 \<and>
     replay add_run (rs_log (wk_service w)) 0 = None"
proof -
  let ?r = "with_link (with_link (service_start 0) 0 queued) 1 queued :: (nat, nat) rpc_service" and ?t = "(0, (1, 1), [1, 1, 0]) :: task"
  let ?reach = "worker_reach unary example_funcs add_run 2 0" and ?done = "task_done unary queued [] 0 1 [2] 2"
  let ?r1 = "?r\<lparr>rs_links := (rs_links ?r)(0 := ?done), rs_state := 2, rs_log := rs_log ?r @ [(0, 0, 1, [2], 2)]\<rparr>"
  have d: "deferredRPCCall unary (1, 1) [1, 1, 0] = Inr (1, [2])" by code_simp
  have st: "rs_state (service_start 0 :: (nat, nat) rpc_service) = 0" by (simp add: service_start_def)
  have "?reach \<lparr>wk_service = service_start 0, wk_running = []\<rparr>"
    using worker_reach.start [of unary example_funcs add_run 2 0] by (simp add: workers_start_def)
  then have "?reach \<lparr>wk_service = with_link (service_start 0) 0 queued, wk_running = []\<rparr>"
    by (rule queued_link) (simp add: service_start_def)
  then have "?reach \<lparr>wk_service = ?r, wk_running = []\<rparr>" by (rule queued_link) (simp add: service_start_def)
  then have "?reach \<lparr>wk_service = ?r, wk_running = [] @ [(0, ?t, rs_state ?r)]\<rparr>"
    by (rule worker_reach.step [OF _ worker_step.begins]) (simp_all add: queued_def)
  then have "?reach \<lparr>wk_service = ?r, wk_running = ([] @ [(0, ?t, rs_state ?r)]) @ [(1, ?t, rs_state ?r)]\<rparr>"
    by (rule worker_reach.step [OF _ worker_step.begins]) (simp_all add: queued_def)
  from worker_reach.step [OF this worker_step.ends [where r = ?r and i = 0 and rid = 0 and g = 1 and as = "[2]" and v = 2
      and st' = 2 and us = "[]" and vs = "[(1, ?t, 0)]" and xs = "[]" and ys = "[]" and st = 0, OF _ _ d]]
  have "?reach \<lparr>wk_service = ?r1, wk_running = [(1, ?t, 0)]\<rparr>" by (simp add: queued_def st add_run_def)
  from worker_reach.step [OF this worker_step.ends [where r = ?r1 and i = 1 and rid = 0 and g = 1 and as = "[2]" and v = 2
      and st' = 2 and us = "[]" and vs = "[]" and xs = "[]" and ys = "[]" and st = 0, OF _ _ d]]
  have "?reach \<lparr>wk_service = ?r1\<lparr>rs_links := (rs_links ?r1)(1 := ?done), rs_state := 2, rs_log := rs_log ?r1 @ [(1, 0, 1, [2], 2)]\<rparr>,
      wk_running = []\<rparr>"
    by (simp add: queued_def add_run_def)
  then show ?thesis by (intro exI conjI) (assumption, simp_all add: service_start_def add_run_def)
qed

subsection \<open>Properties\<close>

text \<open>
  C5. Functions that exclude each other run as if one after the other: for any number of clients of a
  server on which one function is in progress at a time, with one worker or a mutex, however requests
  and answers travel and functions begin and end in between, the state of the server is what the
  executions in the log give one after the other, no request is executed twice, each request of a
  link with nothing in flight has been executed exactly once with its own arguments, and when a call
  has returned before another one was made, their executions are in the log in this order and with
  the values returned.
\<close>

theorem exclusive_calls_are_sequential:
  assumes "msgpack C" and "worker_reach C fs run 1 st0 a" and "(worker_step C fs run 1)\<^sup>*\<^sup>* a b"
  shows "replay run (rs_log (wk_service b)) st0 = Some (rs_state (wk_service b)) \<and>
    distinct (map (\<lambda>e. (fst e, fst (snd e))) (rs_log (wk_service b))) \<and>
    (\<forall>i. rpc_idle (rs_links (wk_service b) i) \<longrightarrow>
       mset (map request_of (filter (\<lambda>e. fst e = i) (rs_log (wk_service b)))) =
       mset (map (call_request fs) (sy_calls (rs_links (wk_service b) i)))) \<and>
    (\<forall>i fut v j fut' v'. (fut, Got v) \<in> set (sy_done (rs_links (wk_service a) i)) \<and>
       (fut', Got v') \<in> set (sy_done (rs_links (wk_service b) j)) \<and> fut' \<notin> fst ` set (sy_calls (rs_links (wk_service a) j)) \<longrightarrow>
       (\<exists>l e m e' n. rs_log (wk_service b) = l @ e # m @ e' # n \<and>
          execution_of fs (wk_service b) i fut v e \<and> execution_of fs (wk_service b) j fut' v' e'))"
proof -
  have a: "alone a" "service_reach C fs run st0 (wk_service a)" using worker_reach_refines [OF assms(2)] by blast+
  have ab: "(service_step C fs run)\<^sup>*\<^sup>* (wk_service a) (wk_service b)" using workers_refine [OF assms(3) a(1)] by blast
  have b: "service_reach C fs run st0 (wk_service b)" by (rule service_reach_steps [OF ab a(2)])
  have "replay run (rs_log (wk_service b)) st0 = Some (rs_state (wk_service b))"
    using msgpack.service_reach_inv [OF assms(1) b] by (simp add: service_inv_def)
  then show ?thesis
    using msgpack.service_once [OF assms(1) b] msgpack.idle_requests [OF assms(1) b]
      msgpack.service_order [OF assms(1) a(2) ab] by blast
qed

theorem exclusive_calls_are_sequential_witness:
  "\<exists>b. worker_reach unary example_funcs add_run 1 0 b \<and> replay add_run (rs_log (wk_service b)) 0 = Some 5 \<and>
     (\<exists>l e m e' n. rs_log (wk_service b) = l @ e # m @ e' # n \<and>
        execution_of example_funcs (wk_service b) 0 7 2 e \<and> execution_of example_funcs (wk_service b) 1 8 5 e')"
proof -
  let ?a = "\<lparr>wk_service = example_first, wk_running = []\<rparr>" and ?b = "\<lparr>wk_service = example_second, wk_running = []\<rparr>"
  have a: "worker_reach unary example_funcs add_run 1 0 ?a" by (rule service_reach_workers [OF example_services(1)]) simp
  have ab: "(worker_step unary example_funcs add_run 1)\<^sup>*\<^sup>* ?a ?b" by (rule service_steps_workers [OF example_services(2)]) simp
  have "(7, Got 2) \<in> set (sy_done (rs_links example_first 0))" "(8, Got 5) \<in> set (sy_done (rs_links example_second 1))"
    "8 \<notin> fst ` set (sy_calls (rs_links example_first 1))"
    unfolding example_second_def example_first_def two_calls_facts by simp_all
  moreover have "rs_state example_second = 5" by (simp add: example_second_def second_call_def)
  ultimately show ?thesis
    using exclusive_calls_are_sequential [OF unary.msgpack_axioms a ab] worker_reach_steps [OF ab a]
    by (intro exI [of _ ?b]) (simp only: workers.select_convs, blast)
qed

end
