(* ===== verification/Store_Service.thy ===== *)
theory Store_Service
  imports Remoteblockstore Rpc_Workers
begin

section \<open>Many users of one block store\<close>

text \<open>
  A \<open>FileBlockStore\<close> behind an \<open>RPCServer\<close>, used by any number of \<open>RemoteBlockStore\<close> proxies at
  once: the workers of \<open>Rpc_Workers\<close> run the functions of \<open>RegisterRemoteBlockStore\<close>. As long as they
  run one function at a time, what a user gets is what the store gives when all calls are made on it
  one after the other. \<open>FileBlockStore\<close> has no lock, and with two at a time nothing of this is claimed.
\<close>

definition store_call :: "u64 \<Rightarrow> store_op \<Rightarrow> string \<times> bs_val list" where
  "store_call bsid op = (MakeString (store_methods ! op_index op) bsid, op_args op)"

lemma store_methods_distinct: "distinct store_methods"
  by (simp add: store_methods_def)

lemma op_args_inj: "op_index op = op_index op' \<Longrightarrow> op_args op = op_args op' \<Longrightarrow> op = op'"
  by (cases op; cases op') simp_all

lemma store_call_inj: "store_call bsid op = store_call bsid op' \<Longrightarrow> op = op'"
proof -
  assume eq: "store_call bsid op = store_call bsid op'"
  have "store_methods ! op_index op \<in> set store_methods" for op
    using op_index_less [of op] by (intro nth_mem) (simp add: store_methods_def)
  then have "store_methods ! op_index op = store_methods ! op_index op'"
    using eq MakeString_inj by (simp add: store_call_def)
  moreover have "length store_methods = 7" by (simp add: store_methods_def)
  ultimately have "op_index op = op_index op'"
    using nth_eq_iff_index_eq [OF store_methods_distinct] op_index_less by metis
  then show "op = op'" using eq op_args_inj by (simp add: store_call_def)
qed






subsection \<open>The types of the seven functions\<close>

lemma store_function_total:
  assumes "posix_dir P d files fds" and "local_ok d (st, w)" and "\<forall>x \<in> set (op_key op). is_name x"
  shows "\<exists>v s'. store_function P (op_index op) (op_args op) st w = Inr (v, s')"
proof (cases "op = GetBloomfilter")
  case True
  have "usable (fb_bloomfilter st)" using assms(2) by (simp add: local_ok_def fb_ok_def)
  then obtain bf where bf: "copy_bloomfilter (fb_bloomfilter st) = Inr bf" "usable bf" using copies_answer_alike by blast
  then obtain v where "serialize bf = Inr v"
    using read_bytes_init [of "bf_hash bf" "nbytes (bf_size bf)"] by (auto simp: serialize_def usable_def sound_def)
  with bf(1) True show ?thesis by (simp add: store_function.simps BloomFilterHelper_def bloomfilter_of_def)
next
  case False
  obtain r where "local_op P op (st, w) = Inr r"
    using block_store.total [OF posix_dir.files_store [OF assms(1)] assms(2,3)] by blast
  then show ?thesis
    using store_function_local [OF False, of P st w] by (cases "store_function P (op_index op) (op_args op) st w") auto
qed

lemma run_store_total:
  assumes "posix_dir P d files fds" and "b < length stores" and "local_ok d (stores ! b, w)" and "\<forall>x \<in> set (op_key op). is_name x"
  shows "\<exists>v s'. run_store P (7 * b + op_index op) (op_args op) (stores, w) = Inr (v, s')"
  using store_function_total [OF assms(1,3,4)] by (auto simp: run_store_index [OF assms(2) op_index_less])

lemma store_function_type:
  assumes "store_function P (op_index op) (op_args op) st w = Inr (v, s')"
  shows "\<exists>x. remote_result op (Got v) = Inr x \<and> op_result op x"
  using assms new_bloomfilter_empty
  by (cases op) (auto simp: store_function.simps rbind_Inr_iff bloomfilterHelper_def)

text \<open>
  C20. The two sides agree on the types: for every call of the interface with proper keys, the name
  the proxy builds is registered on the server with the number of arguments the proxy sends, each
  argument converts to the type the function expects, so that the function returns, and the value it
  returns converts back to the result type of that call. No call between a proxy and its store ends
  in a conversion error of msgpack.
\<close>

theorem store_calls_are_well_typed:
  assumes "posix_dir P d files fds" and "serves fs b bsid" and "b < length stores"
    and "local_ok d (stores ! b, w)" and "\<forall>x \<in> set (op_key op). is_name x"
  shows "\<exists>f v s' x. map_of fs (fst (store_call bsid op)) = Some (f, length (snd (store_call bsid op))) \<and>
    run_store P f (snd (store_call bsid op)) (stores, w) = Inr (v, s') \<and>
    remote_result op (Got v) = Inr x \<and> op_result op x"
proof -
  obtain v s' where run: "run_store P (7 * b + op_index op) (op_args op) (stores, w) = Inr (v, s')"
    using run_store_total [OF assms(1,3-5)] by blast
  then obtain s1 where "store_function P (op_index op) (op_args op) (stores ! b) w = Inr (v, s1)"
    unfolding run_store_index [OF assms(3) op_index_less] by (auto simp: rbind_Inr_iff)
  from store_function_type [OF this] obtain x where "remote_result op (Got v) = Inr x" "op_result op x" by blast
  with run serves_method [OF assms(2), of op] show ?thesis by (auto simp: store_call_def)
qed

theorem store_calls_are_well_typed_witness:
  "\<exists>f v s' x. map_of example_server ''bloomfilter8'' = Some (f, 0) \<and>
    run_store mem_posix f [] ([example_store, example_store], example_world) = Inr (v, s') \<and>
    remote_result GetBloomfilter (Got v) = Inr (Filter x)"
proof -
  have ok: "local_ok ''/d'' ([example_store, example_store] ! 1, example_world)"
    using example_remote_ok by (simp add: remote_ok_def)
  have name: "fst (store_call 8 GetBloomfilter) = ''bloomfilter8''" by code_simp
  have "1 < length [example_store, example_store]" by simp
  from store_calls_are_well_typed [OF mem.posix_dir_axioms example_serves(2) this ok, of GetBloomfilter]
  show ?thesis unfolding name by (auto simp: store_call_def)
qed

subsection \<open>A block that was put is seen by all\<close>







end
