(* ===== verification/Rpc_Benchmark.thy ===== *)
theory Rpc_Benchmark
  imports Rpc_Service
begin

section \<open>The benchmark program (\<open>rpc/rpc_benchmark.cc\<close>)\<close>

text \<open>
  Sixteen clients of one server each make 62500 calls of \<open>addArgs2\<close> and check every result: the
  callback of the future of call \<open>i\<close> is \<open>checkValue\<close> with the expected value bound to it, and aborts
  the program when the value differs. The main thread waits until each client's
  \<open>CountingNotification\<close>, which counts the signals, has been signalled once per call, and then
  disconnects and destroys the client. Logging is not modelled.
\<close>

text \<open>\<open>+\<close> and \<open>*\<close> on \<open>int\<close>.\<close>

definition int_res :: "int \<Rightarrow> i32 res" where
  "int_res n = (if - (2 ^ 31) \<le> n \<and> n < 2 ^ 31 then Inr (word_of_int n) else Inl SignedOverflow)"

definition addArgs2 :: "i32 \<Rightarrow> i32 \<Rightarrow> i32 res" where
  "addArgs2 a b = int_res (sint a + sint b)"

text \<open>
  \<open>checkValue\<close> in two parts, as other threads can run in between: the check and the signal, on the
  number of signals given to \<open>n\<close>, and the increment of \<open>global_cnt\<close> under the mutex.
\<close>

definition checkValue :: "i32 \<Rightarrow> i32 \<Rightarrow> nat \<Rightarrow> nat res" where
  "checkValue expected actual n = (if expected \<noteq> actual then Inl CheckFailed else Inr (Suc n))"

definition checkValue_count :: "i32 \<Rightarrow> i32 res" where
  "checkValue_count global_cnt = int_res (sint global_cnt + 1)"

text \<open>
  The body of the loop of \<open>StartRPCs\<close>, on the requests written, the client, the futures with the
  expected values bound to their callbacks, and the history of the calls made, each with its future,
  request number, name and arguments. The future of the \<open>i\<close>-th call has number \<open>i\<close>.
\<close>

type_synonym started =
  "i32 rpc_event list \<times> rpc_client \<times> (future \<times> i32) list \<times> (future \<times> u64 \<times> string \<times> i32 list) list"

definition start_rpc :: "i32 codec \<Rightarrow> started \<Rightarrow> nat \<Rightarrow> started res" where
  "start_rpc C s i =
     (let (ev, cl, cbs, calls) = s in
      rbind (int_res (int i + 1)) (\<lambda>b.
        let name = ''addArgs2''; args = [of_nat i, b]; (ev', cl') = cl_call C cl i name args in
        rbind (int_res (2 * int i + 1)) (\<lambda>expected.
          Inr (ev @ ev', cl', cbs @ [(i, expected)], calls @ [(i, cl_reqId cl, name, args)]))))"

definition StartRPCs :: "i32 codec \<Rightarrow> rpc_client \<Rightarrow> nat \<Rightarrow> started res" where
  "StartRPCs C client numCalls = rfold (start_rpc C) ([], client, [], []) [0..<numCalls]"

definition kNumThreads :: nat where "kNumThreads = 16"
definition kNumCalls :: nat where "kNumCalls = 1000000"

definition bench_funcs :: funcs where
  "bench_funcs = sv_funcs (registerFunction new_server ''addArgs2'' (0, 2))"

definition bench_run :: "(i32, unit) run" where
  "bench_run f as st =
     (case as of [a, b] \<Rightarrow> rbind (addArgs2 a b) (\<lambda>v. Inr (v, st)) | _ \<Rightarrow> Inl UncaughtException)"

text \<open>
  The callbacks that ran when the futures were set, up to their signals; an aborted call gives the
  value \<open>int()\<close>.
\<close>

definition run_callback :: "(future \<times> i32) list \<Rightarrow> nat \<Rightarrow> future \<times> i32 outcome \<Rightarrow> nat res" where
  "run_callback cbs n d =
     (case map_of cbs (fst d) of
        None \<Rightarrow> Inr n
      | Some expected \<Rightarrow> checkValue expected (case snd d of Got v \<Rightarrow> v | Aborted \<Rightarrow> 0) n)"

text \<open>
  What \<open>disconnect\<close> and the destructor of a client do: a call that is still pending is aborted, which
  runs its callback.
\<close>

definition tear_down :: "i32 codec \<Rightarrow> (future \<times> i32) list \<Rightarrow> rpc_client \<Rightarrow> nat \<Rightarrow> nat res" where
  "tear_down C cbs c n =
     rbind (RPCClient_disconnect C c) (\<lambda>(ev, c).
     rbind (rfold (run_callback cbs) n (futures_set ev)) (\<lambda>n.
     rbind (destroy_client C c) (\<lambda>(ev, c).
       rfold (run_callback cbs) n (futures_set ev))))"

text \<open>
  The loop that waits for all clients, on link \<open>i\<close> of the network for client \<open>i\<close>: its callbacks have
  run for the futures that were set, and a wait for signals that never come does not return. The
  result is the number of callbacks that have signalled, of all clients.
\<close>

definition await_one :: "i32 codec \<Rightarrow> (future \<times> i32) list \<Rightarrow> (nat \<Rightarrow> i32 rpc_sys) \<Rightarrow> nat \<Rightarrow> nat \<Rightarrow> nat res" where
  "await_one C cbs links signalled i =
     rbind (rfold (run_callback cbs) 0 (sy_done (links i))) (\<lambda>n.
       if n < kNumCalls div kNumThreads then Inl NeverSet
       else rbind (tear_down C cbs (sy_client (links i)) n) (\<lambda>n. Inr (signalled + n)))"

definition await_all :: "i32 codec \<Rightarrow> (future \<times> i32) list \<Rightarrow> (nat \<Rightarrow> i32 rpc_sys) \<Rightarrow> nat res" where
  "await_all C cbs links = rfold (await_one C cbs links) 0 [0..<kNumThreads]"

text \<open>The search for a port, over the values of \<open>rand()\<close>; \<open>None\<close> when they are used up.\<close>

fun bench_port :: "(i32 \<Rightarrow> bool) \<Rightarrow> nat list \<Rightarrow> i32 option" where
  "bench_port listen [] = None"
| "bench_port listen (r # rands) =
     (let port = of_nat (r mod 40000 + 1024) in if listen port then Some port else bench_port listen rands)"

text \<open>
  The program, over the state \<open>links\<close> of its clients when the main thread waits for them. The
  callbacks increment \<open>global_cnt\<close> after their signals, so only some of them, \<open>counted\<close> many if there
  are that many, have done so when the main thread destroys the mutex and ends. The result is
  \<open>global_cnt\<close> then, and the number of callbacks that are still to increment it.
\<close>

definition Benchmark ::
  "i32 codec \<Rightarrow> (i32 \<Rightarrow> bool) \<Rightarrow> nat list \<Rightarrow> (nat \<Rightarrow> i32 rpc_sys) \<Rightarrow> nat \<Rightarrow> (i32 \<times> nat) res option" where
  "Benchmark C listen rands links counted =
     (case bench_port listen rands of
        None \<Rightarrow> None
      | Some port \<Rightarrow> Some (
          rbind (StartRPCs C new_client (kNumCalls div kNumThreads)) (\<lambda>(ev, cl, cbs, calls).
          rbind (await_all C cbs links) (\<lambda>signalled.
          rbind (rfold (\<lambda>global_cnt _. checkValue_count global_cnt) 0 [0..<min counted signalled]) (\<lambda>global_cnt.
            Inr (global_cnt, signalled - counted))))))"

subsection \<open>The calls that are made\<close>

lemma int_res_small: "- (2 ^ 31) \<le> n \<Longrightarrow> n < 2 ^ 31 \<Longrightarrow> int_res n = Inr (word_of_int n)"
  by (simp add: int_res_def)

lemma sint_small: "- (2 ^ 31) \<le> n \<Longrightarrow> n < 2 ^ 31 \<Longrightarrow> sint (word_of_int n :: i32) = n"
  by (simp add: signed_of_int signed_take_bit_int_eq_self_iff)

text \<open>An entry of the history of calls, and the table of callbacks.\<close>

definition bench_call :: "nat \<Rightarrow> future \<times> u64 \<times> string \<times> i32 list" where
  "bench_call i = (i, of_nat i, ''addArgs2'', [of_nat i, of_nat i + 1])"

abbreviation bench_callbacks :: "nat \<Rightarrow> (future \<times> i32) list" where
  "bench_callbacks n \<equiv> map (\<lambda>i. (i, 2 * of_nat i + 1)) [0..<n]"

lemma start_rpc_eq:
  assumes "i < 2 ^ 30"
  shows "start_rpc C (ev, cl, cbs, calls) i =
    (let (ev', cl') = cl_call C cl i ''addArgs2'' [of_nat i, of_nat i + 1]
     in Inr (ev @ ev', cl', cbs @ [(i, 2 * of_nat i + 1)], calls @ [(i, cl_reqId cl, ''addArgs2'', [of_nat i, of_nat i + 1])]))"
proof -
  have "int i < 2 ^ 30" using assms by simp
  then have "int_res (int i + 1) = Inr (of_nat i + 1)" "int_res (2 * int i + 1) = Inr (2 * of_nat i + 1)"
    by (simp_all add: int_res_small)
  then show ?thesis by (simp add: start_rpc_def Let_def split: prod.split)
qed

lemma StartRPCs_returns:
  assumes "n \<le> 2 ^ 30"
  shows "\<exists>ev cl. StartRPCs C new_client n = Inr (ev, cl, bench_callbacks n, map bench_call [0..<n]) \<and> cl_reqId cl = of_nat n"
  using assms
proof (induction n)
  case 0
  show ?case by (simp add: StartRPCs_def new_client_def)
next
  case (Suc n)
  then obtain ev cl where IH: "StartRPCs C new_client n = Inr (ev, cl, bench_callbacks n, map bench_call [0..<n])" "cl_reqId cl = of_nat n"
    by auto
  obtain ev2 cl2 where call: "cl_call C cl n ''addArgs2'' [of_nat n, of_nat n + 1] = (ev2, cl2)" by force
  then have "start_rpc C (ev, cl, bench_callbacks n, map bench_call [0..<n]) n =
      Inr (ev @ ev2, cl2, bench_callbacks (Suc n), map bench_call [0..<Suc n])"
    using start_rpc_eq [of n C ev cl "bench_callbacks n"] Suc.prems IH(2) by (simp add: bench_call_def)
  moreover have "cl_reqId cl2 = of_nat (Suc n)" using call IH(2) by (auto simp: cl_call_def Let_def)
  ultimately show ?case using IH(1) by (simp add: StartRPCs_def rfold_snoc)
qed

lemma bench_lookup: "map_of bench_funcs ''addArgs2'' = Some (0, 2)"
  by (simp add: bench_funcs_def registerFunction_def new_server_def)

subsection \<open>Every check passes\<close>

lemma addArgs2_sum:
  assumes "i < 2 ^ 30"
  shows "addArgs2 (of_nat i) (of_nat i + 1) = Inr (2 * of_nat i + 1)"
proof -
  have i: "int i < 2 ^ 30" using assms by simp
  then have "sint (of_nat i :: i32) = int i" "sint (of_nat i + 1 :: i32) = int i + 1"
    using sint_small [of "int i"] sint_small [of "int i + 1"] by simp_all
  then show ?thesis using i by (simp add: addArgs2_def int_res_small)
qed

text \<open>What the future of a call is set to when the calls of link \<open>i\<close> are the first \<open>n\<close> of \<open>StartRPCs\<close>.\<close>

lemma bench_value:
  assumes "msgpack C" and "service_reach C bench_funcs bench_run () r"
    and "sy_calls (rs_links r j) = map bench_call [0..<n]" and "n \<le> 2 ^ 30"
    and "(fut, Got v) \<in> set (sy_done (rs_links r j))"
  shows "fut < n \<and> v = 2 * of_nat fut + 1"
proof -
  obtain rid name as f where c: "(fut, rid, name, as) \<in> set (sy_calls (rs_links r j))" "(j, rid, f, as, v) \<in> set (rs_log r)"
    using msgpack.service_answer [OF assms(1,2,5)] by blast
  then have fut: "fut < n" "as = [of_nat fut, of_nat fut + 1]" by (auto simp: assms(3) bench_call_def)
  obtain l l' where "rs_log r = l @ (j, rid, f, as, v) # l'" using c(2) by (auto simp: in_set_conv_decomp)
  moreover have "replay bench_run (rs_log r) () = Some (rs_state r)"
    using msgpack.service_reach_inv [OF assms(1,2)] by (simp add: service_inv_def)
  ultimately have "bench_run f as () = Inr (v, ())" by (auto elim: replay_SomeE)
  with fut assms(4) show ?thesis by (simp add: bench_run_def addArgs2_sum)
qed

lemma callbacks_lookup: "i < n \<Longrightarrow> map_of (bench_callbacks n) i = Some (2 * of_nat i + 1)"
  by (rule map_of_is_SomeI) (auto simp: comp_def)

lemma callbacks_pass:
  assumes "\<forall>d \<in> set ds. \<exists>i < n. d = (i, Got (2 * of_nat i + 1))"
  shows "rfold (run_callback (bench_callbacks n)) m ds = Inr (m + length ds)"
  using assms
proof (induction ds arbitrary: m)
  case (Cons d ds)
  obtain i where i: "i < n" "d = (i, Got (2 * of_nat i + 1))" using Cons.prems by auto
  then have "run_callback (bench_callbacks n) m d = Inr (Suc m)"
    using callbacks_lookup [OF i(1)] by (simp add: run_callback_def checkValue_def)
  moreover have "rfold (run_callback (bench_callbacks n)) (Suc m) ds = Inr (Suc m + length ds)"
    using Cons.prems by (intro Cons.IH) auto
  ultimately show ?case by simp
qed simp


text \<open>A client with nothing in flight that has made the calls of \<open>StartRPCs\<close>.\<close>

definition bench_rest :: "i32 codec \<Rightarrow> nat \<Rightarrow> i32 rpc_sys \<Rightarrow> bool" where
  "bench_rest C n s \<longleftrightarrow> sy_open s \<and> rpc_idle s \<and>
     (case StartRPCs C new_client n of Inl e \<Rightarrow> False | Inr (ev, cl, cbs, calls) \<Rightarrow> sy_calls s = calls)"

lemma bench_rest_eq: "n \<le> 2 ^ 30 \<Longrightarrow> bench_rest C n s \<longleftrightarrow> sy_open s \<and> rpc_idle s \<and> sy_calls s = map bench_call [0..<n]"
  using StartRPCs_returns [of n C] by (auto simp: bench_rest_def)

lemma rest_done:
  assumes "msgpack C" and "service_reach C bench_funcs bench_run () r" and "bench_rest C n (rs_links r j)" and "n \<le> 2 ^ 30"
  shows "length (sy_done (rs_links r j)) = n" and "\<forall>d \<in> set (sy_done (rs_links r j)). \<exists>i < n. d = (i, Got (2 * of_nat i + 1))"
    and "cl_respCallbacks (sy_client (rs_links r j)) = []"
proof -
  let ?s = "rs_links r j"
  have s: "sy_open ?s" "rpc_idle ?s" "sy_calls ?s = map bench_call [0..<n]" using assms(3,4) by (simp_all add: bench_rest_eq)
  from msgpack.all_answered_when_idle [OF assms(1) msgpack.service_link(1) [OF assms(1,2)] s(1)] s(2)
  have set: "mset (map fst (sy_done ?s)) = mset (map fst (sy_calls ?s))" "\<forall>d \<in> set (sy_done ?s). snd d \<noteq> Aborted"
    by (simp_all add: rpc_idle_def)
  from set(1) have "length (sy_done ?s) = length (sy_calls ?s)" by (metis length_map mset_eq_length)
  then show "length (sy_done ?s) = n" by (simp add: s(3))
  have "accounted ?s"
    by (rule inv_parts(2) [OF msgpack.reach_inv [OF assms(1) msgpack.service_link(1) [OF assms(1,2)]]])
  then show "cl_respCallbacks (sy_client ?s) = []" using set(1) s(2) by (simp add: accounted_def rpc_idle_def)
  show "\<forall>d \<in> set (sy_done ?s). \<exists>i < n. d = (i, Got (2 * of_nat i + 1))"
  proof
    fix d assume d: "d \<in> set (sy_done ?s)"
    then obtain v where "d = (fst d, Got v)" using set(2) by (metis outcome.exhaust prod.collapse)
    with bench_value [OF assms(1,2) s(3) assms(4), of "fst d" v] d show "\<exists>i < n. d = (i, Got (2 * of_nat i + 1))" by metis
  qed
qed

text \<open>With nothing pending the tear-down sets no future.\<close>

lemma tear_down_quiet: "cl_respCallbacks c = [] \<Longrightarrow> tear_down C cbs c s = Inr s"
  by (simp add: tear_down_def RPCClient_disconnect_def destroy_client_def cl_setDisconnectCallback_def cl_disconnect_def)

lemma await_passes:
  assumes "\<And>i. i < kNumThreads \<Longrightarrow> length (sy_done (links i)) = n \<and> cl_respCallbacks (sy_client (links i)) = [] \<and>
      (\<forall>d \<in> set (sy_done (links i)). \<exists>i < n. d = (i, Got (2 * of_nat i + 1)))"
    and n: "n = kNumCalls div kNumThreads"
  shows "t \<le> kNumThreads \<Longrightarrow> rfold (await_one C (bench_callbacks n) links) 0 [0..<t] = Inr (t * n)"
proof (induction t)
  case (Suc t)
  then have "await_one C (bench_callbacks n) links (t * n) t = Inr (t * n + n)"
    using assms(1) [of t] by (simp add: await_one_def callbacks_pass tear_down_quiet n [symmetric])
  with Suc show ?case by (simp add: rfold_snoc ac_simps)
qed simp


text \<open>One more call of a client at rest leads to a state in which it is at rest again.\<close>

lemma rest_next:
  assumes "msgpack C" and r: "service_reach C bench_funcs bench_run () r" and rest: "bench_rest C n (rs_links r i)" and n: "n < 2 ^ 30"
  shows "\<exists>s. bench_rest C (Suc n) s \<and> (\<exists>r'. service_reach C bench_funcs bench_run () r' \<and> rs_links r' = (rs_links r)(i := s))"
proof -
  let ?s = "rs_links r i" and ?as = "[of_nat n, of_nat n + 1] :: i32 list" and ?v = "2 * of_nat n + 1 :: i32"
  have s: "sy_open ?s" "rpc_idle ?s" "sy_calls ?s = map bench_call [0..<n]" using rest n by (simp_all add: bench_rest_eq)
  have fs: "map_of bench_funcs ''addArgs2'' = Some (0, length ?as)" by (simp add: bench_lookup)
  have fut: "n \<notin> fst ` set (sy_calls ?s)" "length (sy_calls ?s) < 2 ^ 64" using n by (auto simp: s(3) bench_call_def)
  have run: "bench_run 0 ?as (rs_state r) = Inr (?v, ())" using n by (simp add: bench_run_def addArgs2_sum)
  from service_reach_steps [OF msgpack.service_call_completes [OF assms(1) r s(2,1) fut fs run] r]
  have "\<exists>r'. service_reach C bench_funcs bench_run () r' \<and> rs_links r' = (rs_links r)(i := call_returned ?s n ''addArgs2'' 0 ?as ?v)"
    by force
  moreover have "numbered ?s" by (rule msgpack.service_link(2) [OF assms(1) r])
  then have "cl_reqId (sy_client ?s) = of_nat n" by (simp add: numbered_def s(3))
  then have "bench_rest C (Suc n) (call_returned ?s n ''addArgs2'' 0 ?as ?v)"
    using s n by (simp add: bench_rest_eq call_returned_def rpc_idle_def bench_call_def)
  ultimately show ?thesis by blast
qed

lemma rest_reachable:
  assumes "msgpack C" and "n \<le> 2 ^ 30"
  shows "\<exists>r. service_reach C bench_funcs bench_run () r \<and> (\<forall>i < t. bench_rest C n (rs_links r i)) \<and> (\<forall>i \<ge> t. bench_rest C 0 (rs_links r i))"
proof (induction t)
  case 0
  have "bench_rest C 0 (rs_links (service_start ()) i)" for i by (simp add: bench_rest_eq service_start_def start_idle)
  then show ?case by (intro exI [of _ "service_start ()"]) (simp add: service_reach.start)
next
  case (Suc t)
  then obtain r where r: "service_reach C bench_funcs bench_run () r" "\<forall>i < t. bench_rest C n (rs_links r i)"
    "\<forall>i \<ge> t. bench_rest C 0 (rs_links r i)" by blast
  have "\<exists>r' s. service_reach C bench_funcs bench_run () r' \<and> rs_links r' = (rs_links r)(t := s) \<and> bench_rest C k s" if "k \<le> n" for k
    using that
  proof (induction k)
    case 0
    then show ?case using r(1,3) by (intro exI [of _ r] exI [of _ "rs_links r t"]) simp
  next
    case (Suc k)
    then have "k \<le> n" by simp
    with Suc.IH obtain r1 s1 where r1: "service_reach C bench_funcs bench_run () r1" "rs_links r1 = (rs_links r)(t := s1)" "bench_rest C k s1"
      by blast
    then have "bench_rest C k (rs_links r1 t)" "k < 2 ^ 30" using Suc.prems assms(2) by simp_all
    from rest_next [OF assms(1) r1(1) this, unfolded r1(2) fun_upd_upd] show ?case by blast
  qed
  then obtain r' s where "service_reach C bench_funcs bench_run () r'" "rs_links r' = (rs_links r)(t := s)" "bench_rest C n s" by blast
  with r(2,3) show ?case by (intro exI [of _ r']) (auto simp: less_Suc_eq)
qed

lemma all_awaited:
  assumes "msgpack C" and "service_reach C bench_funcs bench_run () r"
    and "\<forall>i < kNumThreads. bench_rest C (kNumCalls div kNumThreads) (rs_links r i)"
  shows "\<exists>ev cl cbs calls. StartRPCs C new_client (kNumCalls div kNumThreads) = Inr (ev, cl, cbs, calls) \<and>
    await_all C cbs (rs_links r) = Inr 1000000"
proof -
  let ?n = "kNumCalls div kNumThreads"
  have n: "?n \<le> 2 ^ 30" "kNumThreads * ?n = 1000000" by (simp_all add: kNumCalls_def kNumThreads_def)
  have "await_all C (bench_callbacks ?n) (rs_links r) = Inr (kNumThreads * ?n)"
    unfolding await_all_def by (rule await_passes) (use rest_done [OF assms(1,2) _ n(1)] assms(3) in blast)+
  with StartRPCs_returns [OF n(1), of C] n(2) show ?thesis by auto
qed


text \<open>A codec for \<open>int\<close>, and a state in which all calls were answered.\<close>

definition int_codec :: "i32 codec" where
  "int_codec = unary_via (\<lambda>v. [unat v]) (\<lambda>ns. case ns of [] \<Rightarrow> None | n # _ \<Rightarrow> Some (of_nat n))"

interpretation int_codec: msgpack int_codec
  unfolding int_codec_def by (rule msgpack_unary_via) simp


text \<open>
  Nothing waits for the callbacks after their signals: the main thread can destroy the mutex and end
  while callbacks have still to take it.
\<close>

lemma mutex_destroyed_in_use:
  "\<exists>r. service_reach int_codec bench_funcs bench_run () r \<and> Benchmark int_codec (\<lambda>p. True) [7] (rs_links r) 0 = Some (Inr (0, 1000000))"
proof -
  have "kNumCalls div kNumThreads \<le> 2 ^ 30" by (simp add: kNumCalls_def kNumThreads_def)
  from rest_reachable [OF int_codec.msgpack_axioms this, of kNumThreads] obtain r where
    r: "service_reach int_codec bench_funcs bench_run () r" "\<forall>i < kNumThreads. bench_rest int_codec (kNumCalls div kNumThreads) (rs_links r i)"
    by blast
  with all_awaited [OF int_codec.msgpack_axioms r] show ?thesis by (intro exI [of _ r]) (auto simp: Benchmark_def)
qed

end
