(* ===== verification/Service_Race.thy ===== *)
theory Service_Race
  imports Service_Node
begin

section \<open>Adding peers on several threads\<close>

text \<open>
  \<open>ServiceNode::Internal::RPCAddPeer\<close> looks the address up and connects before it takes the mutex.
  Here its two parts are steps of their own: any number of calls can be between them, and every
  other method runs as one step under the mutex. A client belongs to the address it was connected
  to; its disconnect callback removes the peer at that address.
\<close>

definition lookup_peer :: "service_node \<Rightarrow> addr \<Rightarrow> bool" where
  "lookup_peer n a \<longleftrightarrow> map_of (sn_peers n) a \<noteq> None"

definition enter_peer :: "service_node \<Rightarrow> client \<Rightarrow> addr \<Rightarrow> sn_event list \<times> service_node" where
  "enter_peer n peer a =
     (let n' = n\<lparr>sn_peers := map_store a (Some peer) (sn_peers n)\<rparr> in
      ([SetDisconnectCallback peer (Some a), Start peer, Call peer (AddPeer (sn_host n) (sn_port n))] @ hello n' peer a, n'))"

text \<open>The two parts in sequence are the method.\<close>

lemma RPCAddPeer_parts:
  "RPCAddPeer n sock host port =
     (if lookup_peer n (host, port) then (Ready True, [], n)
      else case sock of None \<Rightarrow> (Ready False, [], n)
           | Some peer \<Rightarrow> (AnswerOf peer, enter_peer n peer (host, port)))"
  by (auto simp: RPCAddPeer_def lookup_peer_def enter_peer_def Let_def split: option.split)

text \<open>
  The node, the calls past the look-up with the client each connected, and the clients in use: those
  whose connection is up and whose disconnect callback is set.
\<close>

record race =
  ra_node :: service_node
  ra_waiting :: "(client \<times> addr) list"
  ra_made :: "(client \<times> addr) set"
  ra_next :: client

definition race_start :: "string \<Rightarrow> u16 \<Rightarrow> race" where
  "race_start host port = \<lparr>ra_node = new_internal host port, ra_waiting = [], ra_made = {}, ra_next = 0\<rparr>"

fun group_op :: "sn_op \<Rightarrow> bool" where
  "group_op (Incoming (AddPeer h p)) = False"
| "group_op (LostPeer a) = False"
| "group_op Shutdown = False"
| "group_op _ = True"

text \<open>
  With \<open>alone\<close>, no two calls for one address are past the look-up at once. A client that the map does
  not hold is destroyed, without its callback, when its calls are answered.
\<close>

inductive race_reach :: "bool \<Rightarrow> string \<Rightarrow> u16 \<Rightarrow> race \<Rightarrow> bool" for alone host port where
  start: "race_reach alone host port (race_start host port)"
| lookup: "race_reach alone host port s \<Longrightarrow> \<not> lookup_peer (ra_node s) a \<Longrightarrow>
    (alone \<longrightarrow> a \<notin> snd ` set (ra_waiting s)) \<Longrightarrow>
    race_reach alone host port (s\<lparr>ra_waiting := ra_waiting s @ [(ra_next s, a)], ra_next := ra_next s + 1\<rparr>)"
| enter: "race_reach alone host port s \<Longrightarrow> ra_waiting s = xs @ (c, a) # ys \<Longrightarrow> enter_peer (ra_node s) c a = (ev, n) \<Longrightarrow>
    race_reach alone host port (s\<lparr>ra_node := n, ra_waiting := xs @ ys, ra_made := insert (c, a) (ra_made s)\<rparr>)"
| other: "race_reach alone host port s \<Longrightarrow> group_op op \<Longrightarrow> sn_exec (\<lambda>a. None) (ra_node s) op = Inr (ev, n) \<Longrightarrow>
    race_reach alone host port (s\<lparr>ra_node := n\<rparr>)"
| lost: "race_reach alone host port s \<Longrightarrow> (c, a) \<in> ra_made s \<Longrightarrow>
    race_reach alone host port (s\<lparr>ra_node := RemovePeer (ra_node s) a, ra_made := ra_made s - {(c, a)}\<rparr>)"
| closed: "race_reach alone host port s \<Longrightarrow> (c, a) \<in> ra_made s \<Longrightarrow> map_of (sn_peers (ra_node s)) a \<noteq> Some (Some c) \<Longrightarrow>
    race_reach alone host port (s\<lparr>ra_made := ra_made s - {(c, a)}\<rparr>)"

lemma group_op_peers: "group_op op \<Longrightarrow> sn_exec conn n op = Inr (ev, m) \<Longrightarrow> sn_peers m = sn_peers n"
proof -
  note defs = addToGroup_def removeFromGroup_def RPCAddToGroup_def RPCRemoveFromGroup_def
    addGroupCallback_def removeGroupCallback_def
  assume g: "group_op op" and r: "sn_exec conn n op = Inr (ev, m)"
  show ?thesis
  proof (cases op)
    case (Incoming pc)
    with g r show ?thesis
      by (cases pc) (auto simp: defs rbind_Inr_iff Let_def split: option.splits prod.splits if_splits)
  qed (use g r in \<open>auto simp: defs rbind_Inr_iff Let_def split: option.splits prod.splits if_splits\<close>)
qed

subsection \<open>Invariants\<close>

text \<open>Every entry of the map is a client in use, of that address.\<close>

definition race_inv :: "race \<Rightarrow> bool" where
  "race_inv s \<longleftrightarrow> map_ok (sn_peers (ra_node s)) \<and>
     (\<forall>a e. map_of (sn_peers (ra_node s)) a = Some e \<longrightarrow> (\<exists>c. e = Some c \<and> (c, a) \<in> ra_made s))"

text \<open>Without races the map holds every client in use, and no address that is being added.\<close>

definition alone_inv :: "race \<Rightarrow> bool" where
  "alone_inv s \<longleftrightarrow> (\<forall>c a. (c, a) \<in> ra_made s \<longrightarrow> map_of (sn_peers (ra_node s)) a = Some (Some c)) \<and>
     distinct (map snd (ra_waiting s)) \<and> (\<forall>a \<in> snd ` set (ra_waiting s). map_of (sn_peers (ra_node s)) a = None)"

lemma enter_peer_node: "snd (enter_peer n c a) = n\<lparr>sn_peers := map_store a (Some c) (sn_peers n)\<rparr>"
  by (simp add: enter_peer_def Let_def)

lemma race_enter:
  assumes "race_reach alone host port s" and "ra_waiting s = xs @ (c, a) # ys"
  shows "race_reach alone host port (s\<lparr>ra_node := (ra_node s)\<lparr>sn_peers := map_store a (Some c) (sn_peers (ra_node s))\<rparr>,
    ra_waiting := xs @ ys, ra_made := insert (c, a) (ra_made s)\<rparr>)"
  using race_reach.enter [OF assms prod.collapse [symmetric]] by (simp only: enter_peer_node)

lemma RemovePeer_peers:
  assumes "map_ok (sn_peers n)"
  shows "sn_peers (RemovePeer n a) = map_erase a (sn_peers n)"
  using assms by (cases "map_of (sn_peers n) a") (simp_all add: RemovePeer_def smap.erase_store)

lemma race_reach_inv: "race_reach alone host port s \<Longrightarrow> race_inv s"
proof (induction rule: race_reach.induct)
  case start
  show ?case by (simp add: race_inv_def race_start_def new_internal_def map_ok_def)
next
  case (enter s xs c a ys ev n)
  then have "n = (ra_node s)\<lparr>sn_peers := map_store a (Some c) (sn_peers (ra_node s))\<rparr>" using enter_peer_node by (metis snd_conv)
  with enter.IH show ?case by (auto simp: race_inv_def smap.ok_store map_of_map_store split: if_splits)
next
  case (other s op ev n)
  then show ?case using group_op_peers by (simp add: race_inv_def)
next
  case (lost s c a)
  then show ?case
    by (auto simp: race_inv_def RemovePeer_peers smap.ok_erase map_of_map_erase split: if_splits)
next
  case (closed s c a)
  then show ?case by (fastforce simp: race_inv_def)
qed (simp_all add: race_inv_def)

lemma alone_reach_inv: "race_reach True host port s \<Longrightarrow> alone_inv s"
proof (induction rule: race_reach.induct)
  case start
  show ?case by (simp add: alone_inv_def race_start_def)
next
  case (enter s xs c a ys ev n)
  have "map_of (sn_peers (ra_node s)) a = None" "a \<notin> snd ` set (xs @ ys)"
    using enter.IH enter.hyps(2) by (auto simp: alone_inv_def)
  moreover have "n = (ra_node s)\<lparr>sn_peers := map_store a (Some c) (sn_peers (ra_node s))\<rparr>"
    using enter.hyps(3) enter_peer_node by (metis snd_conv)
  ultimately show ?case using enter.IH enter.hyps(2) by (auto simp: alone_inv_def map_of_map_store image_iff)
next
  case (other s op ev n)
  then show ?case using group_op_peers by (simp add: alone_inv_def)
next
  case (lost s c a)
  from lost.hyps(2) lost.IH have "map_of (sn_peers (ra_node s)) a = Some (Some c)" unfolding alone_inv_def by blast
  with lost.IH RemovePeer_peers race_reach_inv [OF lost.hyps(1)] show ?case
    by (auto simp: alone_inv_def race_inv_def map_of_map_erase)
qed (auto simp: alone_inv_def lookup_peer_def)

lemma race_calls_return:
  assumes "race_inv s"
  shows "call_peers (ra_node s) pc = Inr (map (\<lambda>c. Call c pc) (clients (ra_node s)))"
proof -
  have "snd e \<noteq> None" if "e \<in> set (sn_peers (ra_node s))" for e
  proof -
    have "map_of (sn_peers (ra_node s)) (fst e) = Some (snd e)"
      using assms that smap.entries_find [of "sn_peers (ra_node s)" "fst e" "snd e"] by (simp add: race_inv_def)
    then obtain c where "snd e = Some c" using assms unfolding race_inv_def by blast
    then show ?thesis by simp
  qed
  then show ?thesis by (simp add: call_peers_def clients_def rfold_call_peer)
qed

subsection \<open>Properties\<close>

text \<open>
  Two calls for one address that race: both find it absent and connect, the second replaces the
  first client in the map, and when the first connection is lost its callback removes the second.
\<close>

lemma race_loses_a_peer:
  "\<exists>s. race_reach False host port s \<and> ra_waiting s = [] \<and> (1, a) \<in> ra_made s \<and> \<not> lookup_peer (ra_node s) a"
proof -
  let ?n0 = "new_internal host port"
  let ?n1 = "?n0\<lparr>sn_peers := map_store a (Some 0) (sn_peers ?n0)\<rparr>"
  let ?n2 = "?n1\<lparr>sn_peers := map_store a (Some 1) (sn_peers ?n1)\<rparr>"
  have absent: "\<not> lookup_peer ?n0 a" by (simp add: lookup_peer_def new_internal_def)
  have "race_reach False host port \<lparr>ra_node = ?n0, ra_waiting = [(0, a)], ra_made = {}, ra_next = 1\<rparr>"
    using race_reach.lookup [OF race_reach.start, where alone = False and a = a] absent by (simp add: race_start_def)
  from race_reach.lookup [OF this, where a = a] absent
  have two: "race_reach False host port \<lparr>ra_node = ?n0, ra_waiting = [(0, a), (1, a)], ra_made = {}, ra_next = 2\<rparr>" by (simp add: numeral_2_eq_2)
  have "race_reach False host port \<lparr>ra_node = ?n1, ra_waiting = [(1, a)], ra_made = {(0, a)}, ra_next = 2\<rparr>"
    using race_enter [OF two, of "[]" 0 a "[(1, a)]"] by simp
  from race_enter [OF this, of "[]" 1 a "[]"]
  have both: "race_reach False host port \<lparr>ra_node = ?n2, ra_waiting = [], ra_made = {(1, a), (0, a)}, ra_next = 2\<rparr>" by simp
  have "map_ok (sn_peers ?n2)" using race_reach_inv [OF both] by (simp add: race_inv_def)
  then have "\<not> lookup_peer (RemovePeer ?n2 a) a" by (simp add: lookup_peer_def RemovePeer_peers map_of_map_erase)
  with race_reach.lost [OF both, of 0 a] show ?thesis by fastforce
qed

text \<open>
  C14. Peers added on several threads: however the calls of \<open>addPeer\<close> interleave with each other, with
  lost connections and with the other methods, each entry of the peer map is a client in use that
  was connected to that address, so that no call to the peers meets a null pointer; and as long as no
  two calls for one address are past the look-up at once, the map holds exactly the clients in use.
\<close>

theorem peer_map_holds_live_clients:
  assumes "race_reach alone host port s"
  shows "(\<forall>a e. map_of (sn_peers (ra_node s)) a = Some e \<longrightarrow> (\<exists>c. e = Some c \<and> (c, a) \<in> ra_made s)) \<and>
    (\<forall>pc. call_peers (ra_node s) pc = Inr (map (\<lambda>c. Call c pc) (clients (ra_node s)))) \<and>
    (alone \<longrightarrow> ra_made s = {(c, a). map_of (sn_peers (ra_node s)) a = Some (Some c)})"
proof -
  have inv: "race_inv s" by (rule race_reach_inv [OF assms])
  then have "alone \<longrightarrow> ra_made s = {(c, a). map_of (sn_peers (ra_node s)) a = Some (Some c)}"
    using alone_reach_inv assms by (cases alone) (force simp: race_inv_def alone_inv_def)+
  with inv race_calls_return [OF inv] show ?thesis by (simp add: race_inv_def)
qed

theorem peer_map_holds_live_clients_witness:
  "\<exists>s. race_reach True ''h'' 1 s \<and> ra_made s = {(0, ''g'', 2)} \<and>
     ra_made s = {(c, a). map_of (sn_peers (ra_node s)) a = Some (Some c)}"
proof -
  let ?n0 = "new_internal ''h'' 1" and ?a = "(''g'', 2) :: addr"
  let ?n1 = "?n0\<lparr>sn_peers := map_store ?a (Some 0) (sn_peers ?n0)\<rparr>"
  have "race_reach True ''h'' 1 \<lparr>ra_node = ?n0, ra_waiting = [(0, ?a)], ra_made = {}, ra_next = 1\<rparr>"
    using race_reach.lookup [OF race_reach.start, where alone = True and a = ?a and host = "''h''" and port = 1]
    by (simp add: race_start_def lookup_peer_def new_internal_def)
  from race_enter [OF this, of "[]" 0 ?a "[]"] have "race_reach True ''h'' 1 \<lparr>ra_node = ?n1, ra_waiting = [], ra_made = {(0, ?a)}, ra_next = 1\<rparr>"
    by simp
  with peer_map_holds_live_clients [OF this] show ?thesis by (intro exI) auto
qed

end
