(* ===== verification/Service_Loss.thy ===== *)
theory Service_Loss
  imports Service_Mesh
begin

section \<open>Service nodes that lose connections\<close>

text \<open>
  The network of \<open>Service_Mesh\<close> in which connections break: a call in flight also has its sender, and
  when the connection of \<open>a\<close> to its peer \<open>b\<close> is lost, the disconnect callback of \<open>a\<close> runs \<open>RemovePeer\<close>
  and any of the calls of \<open>a\<close> on that connection may never arrive. The connection of \<open>b\<close> to \<open>a\<close> is
  another one. Nodes can be introduced to each other again at any time.
\<close>

record lnet =
  ln_node :: "addr \<Rightarrow> service_node"
  ln_pending :: "(addr \<times> addr \<times> peer_call) list" \<comment> \<open>sender, addressee, call\<close>
  ln_asked :: "(addr \<times> addr) set"
  ln_added :: "(addr \<times> string \<times> string) set"

definition lnet_start :: lnet where
  "lnet_start = \<lparr>ln_node = \<lambda>a. new_internal (fst a) (snd a), ln_pending = [], ln_asked = {}, ln_added = {}\<rparr>"

inductive lnet_step :: "lnet \<Rightarrow> lnet \<Rightarrow> bool" where
  ask: "c \<notin> set (clients (ln_node m a)) \<Longrightarrow>
    handle_call (\<lambda>_. Some c) (ln_node m a) (AddPeer (fst b) (snd b)) = Inr (ev, n) \<Longrightarrow>
    lnet_step m (m\<lparr>ln_node := (ln_node m)(a := n), ln_pending := ln_pending m @ map (Pair a) (sent n ev),
      ln_asked := insert (a, b) (ln_asked m)\<rparr>)"
| add: "addToGroup (ln_node m a) g x = Inr (ev, n) \<Longrightarrow>
    lnet_step m (m\<lparr>ln_node := (ln_node m)(a := n), ln_pending := ln_pending m @ map (Pair a) (sent n ev),
      ln_added := insert (a, g, x) (ln_added m)\<rparr>)"
| deliver: "ln_pending m = xs @ (s, a, pc) # ys \<Longrightarrow> c \<notin> set (clients (ln_node m a)) \<Longrightarrow>
    handle_call (\<lambda>_. Some c) (ln_node m a) pc = Inr (ev, n) \<Longrightarrow>
    lnet_step m (m\<lparr>ln_node := (ln_node m)(a := n), ln_pending := xs @ ys @ map (Pair a) (sent n ev)\<rparr>)"
| lose: "b \<in> peer_addrs (ln_node m a) \<Longrightarrow>
    lnet_step m (m\<lparr>ln_node := (ln_node m)(a := RemovePeer (ln_node m a) b),
      ln_pending := filter (\<lambda>p. fst p = a \<and> fst (snd p) = b \<longrightarrow> keep p) (ln_pending m)\<rparr>)"

inductive lnet_reach :: "lnet \<Rightarrow> bool" where
  start: "lnet_reach lnet_start"
| step: "lnet_reach m \<Longrightarrow> lnet_step m m' \<Longrightarrow> lnet_reach m'"

subsection \<open>How entries spread\<close>

text \<open>
  The same on sets: \<open>K\<close> who has whom as a peer, \<open>L\<close> what is listed where, \<open>J\<close> and \<open>G\<close> the introductions
  and additions in flight, \<open>D\<close> what was added where, \<open>R\<close> the nodes that were connected.
\<close>

definition source :: "('a \<times> 'a) set \<Rightarrow> ('a \<times> 'e) set \<Rightarrow> 'a \<Rightarrow> 'e \<Rightarrow> bool" where
  "source R D a e \<longleftrightarrow> (\<exists>b. (b = a \<or> (a, b) \<in> R) \<and> (b, e) \<in> D)"

definition spread_inv ::
  "('a \<times> 'a) set \<Rightarrow> ('a \<times> 'e) set \<Rightarrow> ('a \<times> 'a \<times> 'a) set \<Rightarrow> ('a \<times> 'a \<times> 'e) set \<Rightarrow> ('a \<times> 'e) set \<Rightarrow> ('a \<times> 'a) set \<Rightarrow> bool" where
  "spread_inv K L J G D R \<longleftrightarrow> K \<subseteq> R \<and> (\<forall>s a b. (s, a, b) \<in> J \<longrightarrow> (a, b) \<in> R) \<and>
     (\<forall>a e. (a, e) \<in> L \<longrightarrow> source R D a e) \<and> (\<forall>s a e. (s, a, e) \<in> G \<longrightarrow> source R D a e) \<and>
     D \<subseteq> L \<and> (\<forall>a b e. (a, e) \<in> D \<longrightarrow> (a, b) \<in> K \<longrightarrow> (b, e) \<in> L \<or> (a, b, e) \<in> G)"

lemma source_mono: "source R D a e \<Longrightarrow> R \<subseteq> R' \<Longrightarrow> D \<subseteq> D' \<Longrightarrow> source R' D' a e"
  unfolding source_def by blast

lemma source_linked: "trans R \<Longrightarrow> source R D a e \<Longrightarrow> (b, a) \<in> R \<Longrightarrow> source R D b e"
  unfolding source_def by (meson transD)

lemma spread_connect: "spread_inv K L J G D R \<Longrightarrow> R \<subseteq> R' \<Longrightarrow> spread_inv K L J G D R'"
  unfolding spread_inv_def by (meson order_refl order_trans source_mono subsetD)

lemma spread_join:
  assumes inv: "spread_inv K L J G D R" and R: "sym R" "trans R" "(a, b) \<in> R"
    and K': "K' = insert (a, b) K" and L': "L' = L"
    and J': "J' \<subseteq> J \<union> (if (a, b) \<in> K then {} else {(a, b, x) |x. x = a \<or> (a, x) \<in> K})"
    and G': "G' = G \<union> (if (a, b) \<in> K then {} else {(a, b, e) |e. (a, e) \<in> L})"
  shows "spread_inv K' L' J' G' D R"
proof -
  have ba: "(b, a) \<in> R" using R(1,3) by (rule symD)
  have "(y, x) \<in> R" if "(s, y, x) \<in> J'" for s y x
  proof (cases "(s, y, x) \<in> J")
    case False
    then have "y = b" "x = a \<or> (a, x) \<in> K" using that J' by (auto split: if_splits)
    then show ?thesis using ba inv R(2) unfolding spread_inv_def by (meson subsetD transD)
  qed (use inv in \<open>auto simp: spread_inv_def\<close>)
  moreover have "source R D y e" if "(s, y, e) \<in> G'" for s y e
  proof (cases "(s, y, e) \<in> G")
    case False
    then have "y = b" "(a, e) \<in> L" using that G' by (auto split: if_splits)
    moreover from this have "source R D a e" using inv unfolding spread_inv_def by blast
    ultimately show ?thesis using source_linked [OF R(2) _ ba, of D e] by simp
  qed (use inv in \<open>auto simp: spread_inv_def\<close>)
  moreover have "(y, e) \<in> L' \<or> (x, y, e) \<in> G'" if "(x, e) \<in> D" "(x, y) \<in> K'" for x y e
  proof (cases "(x, y) \<in> K")
    case True
    then have "(y, e) \<in> L \<or> (x, y, e) \<in> G" using inv that(1) unfolding spread_inv_def by blast
    then show ?thesis unfolding L' G' by blast
  next
    case False
    then have "x = a" "y = b" "(a, b) \<notin> K" using that(2) K' by auto
    moreover have "(x, e) \<in> L" using inv that(1) unfolding spread_inv_def by blast
    ultimately show ?thesis by (simp add: G')
  qed
  moreover have "K' \<subseteq> R" using inv R(3) K' unfolding spread_inv_def by blast
  ultimately show ?thesis using inv unfolding spread_inv_def L' by (intro conjI allI impI) blast+
qed

lemma spread_add:
  assumes inv: "spread_inv K L J G D R" and R: "sym R"
    and J': "J' \<subseteq> J" and G': "G' = G \<union> {(a, b, e) |b. (a, b) \<in> K}"
  shows "spread_inv K (insert (a, e) L) J' G' (insert (a, e) D) R"
proof -
  have here: "source R (insert (a, e) D) a e" "(a, b) \<in> K \<Longrightarrow> source R (insert (a, e) D) b e" for b
    using inv R unfolding source_def spread_inv_def by (auto dest: symD)
  have old: "source R (insert (a, e) D) x y" if "source R D x y" for x y
    using source_mono [OF that, of R "insert (a, e) D"] by blast
  show ?thesis
    using inv J' here old unfolding spread_inv_def G' by blast
qed

lemma spread_deliver:
  assumes inv: "spread_inv K L J G D R" and e: "(s, a, e) \<in> G"
    and J': "J' \<subseteq> J" and G': "G' \<subseteq> G" "G \<subseteq> insert (s, a, e) G'"
  shows "spread_inv K (insert (a, e) L) J' G' D R"
proof -
  have "source R D a e" using inv e unfolding spread_inv_def by blast
  with inv J' G' show ?thesis unfolding spread_inv_def by blast
qed

lemma spread_lose:
  assumes inv: "spread_inv K L J G D R" and K': "K' \<subseteq> K - {(a, b)}" and J': "J' \<subseteq> J"
    and G': "G' \<subseteq> G" "\<And>x y e. (x, y, e) \<in> G \<Longrightarrow> (x, y) \<noteq> (a, b) \<Longrightarrow> (x, y, e) \<in> G'"
  shows "spread_inv K' L J' G' D R"
proof -
  have "(y, e) \<in> L \<or> (x, y, e) \<in> G'" if "(x, e) \<in> D" "(x, y) \<in> K'" for x y e
    using that inv K' G'(2) [of x y e] unfolding spread_inv_def by blast
  with inv K' J' G'(1) show ?thesis unfolding spread_inv_def by blast
qed

subsection \<open>The invariant\<close>

text \<open>The nodes the application connected, directly or through others.\<close>

definition linked :: "lnet \<Rightarrow> (addr \<times> addr) set" where
  "linked m = (ln_asked m \<union> (ln_asked m)\<inverse>)\<^sup>+"

definition ln_knows :: "lnet \<Rightarrow> (addr \<times> addr) set" where
  "ln_knows m = {(a, b). b \<in> peer_addrs (ln_node m a)}"

definition ln_listed :: "lnet \<Rightarrow> (addr \<times> string \<times> string) set" where
  "ln_listed m = {(a, e). snd e \<in> members (ln_node m a) (fst e)}"

definition joins :: "(addr \<times> addr \<times> peer_call) set \<Rightarrow> (addr \<times> addr \<times> addr) set" where
  "joins Q = {(s, a, b). (s, a, AddPeer (fst b) (snd b)) \<in> Q}"

definition adding :: "(addr \<times> addr \<times> peer_call) set \<Rightarrow> (addr \<times> addr \<times> string \<times> string) set" where
  "adding Q = {(s, a, e). (s, a, AddToGroup (fst e) (snd e)) \<in> Q}"

definition lnet_inv :: "lnet \<Rightarrow> bool" where
  "lnet_inv m \<longleftrightarrow>
     (\<forall>a. sn_ok (ln_node m a) \<and> (sn_host (ln_node m a), sn_port (ln_node m a)) = a) \<and> additions (map snd (ln_pending m)) \<and>
     spread_inv (ln_knows m) (ln_listed m) (joins (set (ln_pending m))) (adding (set (ln_pending m))) (ln_added m) (linked m)"

lemma lnet_invD:
  assumes "lnet_inv m"
  shows "sn_ok (ln_node m a)" and "(sn_host (ln_node m a), sn_port (ln_node m a)) = a"
    and "additions (map snd (ln_pending m))"
    and "spread_inv (ln_knows m) (ln_listed m) (joins (set (ln_pending m))) (adding (set (ln_pending m))) (ln_added m) (linked m)"
  using assms unfolding lnet_inv_def by blast+

lemma lnet_invI:
  assumes "lnet_inv m" and "ln_node m' = (ln_node m)(a := n)" and "sn_ok n" and "(sn_host n, sn_port n) = a"
    and "additions (map snd (ln_pending m'))"
    and "spread_inv (ln_knows m') (ln_listed m') (joins (set (ln_pending m'))) (adding (set (ln_pending m'))) (ln_added m') (linked m')"
  shows "lnet_inv m'"
  using assms unfolding lnet_inv_def by (metis fun_upd_apply)

lemma linked_rel: "sym (linked m)" "trans (linked m)"
proof -
  have "sym (ln_asked m \<union> (ln_asked m)\<inverse>)" by (auto simp: sym_def)
  then show "sym (linked m)" unfolding linked_def by (rule sym_trancl)
  show "trans (linked m)" unfolding linked_def by (rule trans_trancl)
qed

lemma linked_mono: "ln_asked m \<subseteq> ln_asked m' \<Longrightarrow> linked m \<subseteq> linked m'"
  unfolding linked_def by (auto elim: trancl_mono)

lemma call_sets [simp]:
  "joins (Q \<union> Q') = joins Q \<union> joins Q'" "adding (Q \<union> Q') = adding Q \<union> adding Q'" "joins {} = {}" "adding {} = {}"
  "joins (insert (s, a, AddToGroup g x) Q) = joins Q" "adding (insert (s, a, AddPeer h p) Q) = adding Q"
  "joins (insert (s, a, AddPeer h p) Q) = insert (s, a, h, p) (joins Q)"
  "adding (insert (s, a, AddToGroup g x) Q) = insert (s, a, g, x) (adding Q)"
  by (auto simp: joins_def adding_def)

lemma call_sets_mono: "Q \<subseteq> Q' \<Longrightarrow> joins Q \<subseteq> joins Q'" "Q \<subseteq> Q' \<Longrightarrow> adding Q \<subseteq> adding Q'"
  by (auto simp: joins_def adding_def)

lemma ln_update:
  assumes "ln_node m' = (ln_node m)(a := n)"
  shows "peer_addrs n = peer_addrs (ln_node m a) \<union> P \<Longrightarrow> ln_knows m' = ln_knows m \<union> Pair a ` P"
    and "(\<And>g. members n g = members (ln_node m a) g \<union> D g) \<Longrightarrow> ln_listed m' = ln_listed m \<union> {(a, g, x) |g x. x \<in> D g}"
  using assms by (auto simp: ln_knows_def ln_listed_def split: if_splits)

text \<open>A node handles a call to add a peer, from the application or from a node.\<close>

lemma lnet_join:
  assumes inv: "lnet_inv m" and c: "c \<notin> set (clients (ln_node m a))"
    and call: "handle_call (\<lambda>_. Some c) (ln_node m a) (AddPeer (fst b) (snd b)) = Inr (ev, n)"
    and node: "ln_node m' = (ln_node m)(a := n)" and added: "ln_added m' = ln_added m"
    and asked: "ln_asked m \<subseteq> ln_asked m'" and link: "(a, b) \<in> linked m'"
    and pending: "set (ln_pending m') = Q \<union> Pair a ` set (sent n ev)" "Q \<subseteq> set (ln_pending m)"
      "adding Q = adding (set (ln_pending m))"
  shows "lnet_inv m'"
proof -
  note n = lnet_invD(1,2) [OF inv, of a]
  note eff = join_effect [OF n(1) c call] and more = handle_additions [OF n(1) call]
  have "peer_addrs n = peer_addrs (ln_node m a) \<union> {b}" using more(2) by (auto simp: prod_eq_iff)
  from ln_update(1) [OF node this] have knows: "ln_knows m' = insert (a, b) (ln_knows m)" by auto
  have "members n g = members (ln_node m a) g \<union> {}" for g using more(1) by auto
  from ln_update(2) [OF node this] have listed: "ln_listed m' = ln_listed m" by auto
  have "joins (Pair a ` set (sent n ev)) = (if (a, b) \<in> ln_knows m then {} else {(a, b, x) |x. x = a \<or> (a, x) \<in> ln_knows m})"
    using n(2) unfolding eff(1) by (auto simp: joins_def ln_knows_def greeting_peers image_iff)
  then have joining: "joins (set (ln_pending m')) \<subseteq> joins (set (ln_pending m)) \<union>
      (if (a, b) \<in> ln_knows m then {} else {(a, b, x) |x. x = a \<or> (a, x) \<in> ln_knows m})"
    using call_sets_mono(1) [OF pending(2)] unfolding pending(1) by auto
  have "adding (Pair a ` set (sent n ev)) = (if (a, b) \<in> ln_knows m then {} else {(a, b, e) |e. (a, e) \<in> ln_listed m})"
    unfolding eff(1) by (auto simp: adding_def ln_knows_def ln_listed_def greeting_def image_iff)
  then have adds: "adding (set (ln_pending m')) = adding (set (ln_pending m)) \<union>
      (if (a, b) \<in> ln_knows m then {} else {(a, b, e) |e. (a, e) \<in> ln_listed m})"
    unfolding pending(1) using pending(3) by simp
  note inv' = spread_connect [OF lnet_invD(4) [OF inv] linked_mono [OF asked]]
  have "spread_inv (ln_knows m') (ln_listed m') (joins (set (ln_pending m'))) (adding (set (ln_pending m'))) (ln_added m') (linked m')"
    unfolding added by (rule spread_join [OF inv' linked_rel link knows listed joining adds])
  moreover have "additions (map snd (ln_pending m'))"
    using lnet_invD(3) [OF inv] pending(2) unfolding additions_def set_map pending(1) eff(1)
    by (fastforce simp: greeting_def split: if_splits)
  moreover have "sn_ok n" "(sn_host n, sn_port n) = a" using eff n(2) by simp_all
  ultimately show ?thesis using lnet_invI [OF inv node] by blast
qed

lemma lnet_add:
  assumes inv: "lnet_inv m" and call: "addToGroup (ln_node m a) g x = Inr (ev, n)"
    and m': "m' = m\<lparr>ln_node := (ln_node m)(a := n), ln_pending := ln_pending m @ map (Pair a) (sent n ev),
      ln_added := insert (a, g, x) (ln_added m)\<rparr>"
  shows "lnet_inv m'"
proof -
  note n = lnet_invD(1,2) [OF inv, of a]
  note eff = add_effect [OF n(1) disjI1 [OF call]] and sends = addToGroup_sent [OF n(1) call]
  have node: "ln_node m' = (ln_node m)(a := n)" by (simp add: m')
  have "peer_addrs n = peer_addrs (ln_node m a) \<union> {}" using eff(1) by (simp add: peer_addrs_def)
  from ln_update(1) [OF node this] have knows: "ln_knows m' = ln_knows m" by auto
  have listed: "ln_listed m' = insert (a, g, x) (ln_listed m)" using ln_update(2) [OF node eff(5)] by auto
  have joining: "joins (set (ln_pending m')) \<subseteq> joins (set (ln_pending m))" using sends by (auto simp: m' joins_def)
  have adds: "adding (set (ln_pending m')) = adding (set (ln_pending m)) \<union> {(a, b, g, x) |b. (a, b) \<in> ln_knows m}"
    using sends by (auto simp: m' adding_def ln_knows_def)
  have "spread_inv (ln_knows m') (ln_listed m') (joins (set (ln_pending m'))) (adding (set (ln_pending m'))) (ln_added m') (linked m')"
    using spread_add [OF lnet_invD(4) [OF inv] linked_rel(1) joining adds] knows listed by (simp add: m' linked_def)
  moreover have "additions (map snd (ln_pending m'))"
    using lnet_invD(3) [OF inv] sends by (fastforce simp: m' additions_def)
  moreover have "sn_ok n" "(sn_host n, sn_port n) = a" using eff n(2) by simp_all
  ultimately show ?thesis using lnet_invI [OF inv node] by blast
qed

lemma lnet_deliver_add:
  assumes inv: "lnet_inv m" and pending: "ln_pending m = xs @ (s, a, AddToGroup g x) # ys"
    and call: "RPCAddToGroup (ln_node m a) g x = Inr (ev, n)"
    and m': "m' = m\<lparr>ln_node := (ln_node m)(a := n), ln_pending := xs @ ys @ map (Pair a) (sent n ev)\<rparr>"
  shows "lnet_inv m'"
proof -
  note n = lnet_invD(1,2) [OF inv, of a]
  note eff = add_effect [OF n(1) disjI2 [OF call]] and sends = RPCAddToGroup_sent [OF n(1) call]
  have node: "ln_node m' = (ln_node m)(a := n)" by (simp add: m')
  have "peer_addrs n = peer_addrs (ln_node m a) \<union> {}" using eff(1) by (simp add: peer_addrs_def)
  from ln_update(1) [OF node this] have knows: "ln_knows m' = ln_knows m" by auto
  have listed: "ln_listed m' = insert (a, g, x) (ln_listed m)" using ln_update(2) [OF node eff(5)] by auto
  have e: "(s, a, g, x) \<in> adding (set (ln_pending m))" by (simp add: pending adding_def)
  have joining: "joins (set (ln_pending m')) \<subseteq> joins (set (ln_pending m))" by (auto simp: m' pending sends joins_def)
  have adds: "adding (set (ln_pending m')) \<subseteq> adding (set (ln_pending m))"
    "adding (set (ln_pending m)) \<subseteq> insert (s, a, g, x) (adding (set (ln_pending m')))"
    by (auto simp: m' pending sends adding_def)
  have "spread_inv (ln_knows m') (ln_listed m') (joins (set (ln_pending m'))) (adding (set (ln_pending m'))) (ln_added m') (linked m')"
    using spread_deliver [OF lnet_invD(4) [OF inv] e joining adds] knows listed by (simp add: m' linked_def)
  moreover have "additions (map snd (ln_pending m'))" using lnet_invD(3) [OF inv] by (simp add: m' pending sends)
  moreover have "sn_ok n" "(sn_host n, sn_port n) = a" using eff n(2) by simp_all
  ultimately show ?thesis using lnet_invI [OF inv node] by blast
qed

lemma lnet_lose:
  assumes inv: "lnet_inv m"
    and m': "m' = m\<lparr>ln_node := (ln_node m)(a := RemovePeer (ln_node m a) b),
      ln_pending := filter (\<lambda>p. fst p = a \<and> fst (snd p) = b \<longrightarrow> keep p) (ln_pending m)\<rparr>"
  shows "lnet_inv m'"
proof -
  note n = lnet_invD(1,2) [OF inv, of a]
  let ?n = "RemovePeer (ln_node m a) b"
  have node: "ln_node m' = (ln_node m)(a := ?n)" by (simp add: m')
  note erase = RemovePeer_eq [OF n(1), of b]
  have "map_ok (sn_peers (ln_node m a))" using n(1) by (simp add: sn_ok_def)
  then have gone: "x \<in> peer_addrs ?n \<longleftrightarrow> x \<in> peer_addrs (ln_node m a) \<and> x \<noteq> b" for x
    unfolding erase by (cases "x = b") (simp_all add: peer_addrs_def smap.find_erase)
  have same: "members ?n = members (ln_node m a)" unfolding erase by (simp add: members_def fun_eq_iff)
  have knows: "ln_knows m' \<subseteq> ln_knows m - {(a, b)}"
    unfolding ln_knows_def node by (clarsimp simp: gone split: if_splits)
  have listed: "ln_listed m' = ln_listed m" using same by (auto simp: ln_listed_def node split: if_splits)
  have sub: "set (ln_pending m') \<subseteq> set (ln_pending m)" by (auto simp: m')
  have adds: "(x, y, e) \<in> adding (set (ln_pending m'))" if "(x, y, e) \<in> adding (set (ln_pending m))" "(x, y) \<noteq> (a, b)" for x y e
    using that by (auto simp: m' adding_def)
  have "spread_inv (ln_knows m') (ln_listed m') (joins (set (ln_pending m'))) (adding (set (ln_pending m'))) (ln_added m') (linked m')"
    using spread_lose [OF lnet_invD(4) [OF inv] knows call_sets_mono [OF sub] adds] listed by (simp add: m' linked_def)
  moreover have "additions (map snd (ln_pending m'))" using lnet_invD(3) [OF inv] sub by (auto simp: additions_def)
  moreover have "sn_ok ?n" "(sn_host ?n, sn_port ?n) = a" using sn_ok_erase_peer [OF n(1)] n by (simp_all add: RemovePeer_eq)
  ultimately show ?thesis using lnet_invI [OF inv node] by blast
qed

lemma lnet_step_inv:
  assumes "lnet_step m m'" and inv: "lnet_inv m"
  shows "lnet_inv m'"
  using assms(1)
proof cases
  case (ask c a b ev n)
  have "(a, b) \<in> linked m'" unfolding linked_def by (rule r_into_trancl) (simp add: ask(1))
  then show ?thesis by (intro lnet_join [OF inv ask(2,3), where Q = "set (ln_pending m)"]) (auto simp: ask(1))
next
  case (add a g x ev n)
  then show ?thesis using lnet_add [OF inv add(2,1)] by blast
next
  case (deliver xs s a pc ys c ev n)
  show ?thesis
  proof (cases pc)
    case (AddPeer h p)
    then have call: "handle_call (\<lambda>_. Some c) (ln_node m a) (AddPeer (fst (h, p)) (snd (h, p))) = Inr (ev, n)"
      using deliver(4) by simp
    have "(s, a, h, p) \<in> joins (set (ln_pending m))" by (simp add: deliver(2) AddPeer joins_def)
    then have "(a, h, p) \<in> linked m" using lnet_invD(4) [OF inv] unfolding spread_inv_def by blast
    then have "(a, h, p) \<in> linked m'" by (simp add: linked_def deliver(1))
    then show ?thesis
      by (intro lnet_join [OF inv deliver(3) call, where Q = "set (xs @ ys)"])
         (auto simp: deliver(1,2) AddPeer adding_def)
  next
    case (AddToGroup g x)
    then show ?thesis using lnet_deliver_add [OF inv _ _ deliver(1)] deliver(2,4) by simp
  next
    case (RemoveFromGroup g x)
    then show ?thesis using lnet_invD(3) [OF inv] deliver(2) by auto
  qed
next
  case (lose b a keep)
  then show ?thesis using lnet_lose [OF inv lose(1)] by blast
qed

lemma lnet_reach_inv: "lnet_reach m \<Longrightarrow> lnet_inv m"
proof (induction rule: lnet_reach.induct)
  case start
  show ?case
    by (simp add: lnet_inv_def spread_inv_def lnet_start_def ln_knows_def ln_listed_def peer_addrs_def members_def
        new_internal_def count_of_def sn_ok_def)
next
  case (step m m')
  then show ?case using lnet_step_inv by blast
qed

subsection \<open>Properties\<close>

text \<open>
  A node is introduced to another, loses the connection with its greeting, adds a name, and is
  introduced again: the other node lists the name.
\<close>

definition example_lnet :: lnet where
  "example_lnet = \<lparr>ln_node = (ln_node lnet_start)((''h'', 1) := sn_a2, (''h'', 2) := sn_b2),
     ln_pending = [], ln_asked = {((''h'', 1), (''h'', 2))}, ln_added = {((''h'', 1), ''g'', ''x'')}\<rparr>"

lemma lnet_stepI: "lnet_reach m \<Longrightarrow> lnet_step m t \<Longrightarrow> t = m' \<Longrightarrow> lnet_reach m'"
  using lnet_reach.step by blast

lemma example_lost: "lnet_reach (lnet_start\<lparr>ln_asked := {((''h'', 1), (''h'', 2))}\<rparr>)"
proof -
  let ?a = "(''h'', 1) :: addr" and ?b = "(''h'', 2) :: addr"
  let ?n = "(new_internal ''h'' 1)\<lparr>sn_peers := [(?b, Some 5)]\<rparr>"
  let ?ev = "[SetDisconnectCallback 5 (Some ?b), Start 5, Call 5 (AddPeer ''h'' 1)]"
  define m1 where "m1 = lnet_start\<lparr>ln_node := (ln_node lnet_start)(?a := ?n), ln_pending := [(?a, ?b, AddPeer ''h'' 1)], ln_asked := {(?a, ?b)}\<rparr>"
  have r: "handle_call (\<lambda>_. Some 5) (new_internal ''h'' 1) (AddPeer ''h'' 2) = Inr (?ev, ?n)"
    "sent ?n ?ev = [(?b, AddPeer ''h'' 1)]" "RemovePeer ?n ?b = new_internal ''h'' 1" by code_simp+
  have 1: "lnet_reach m1"
    by (rule lnet_stepI [OF lnet_reach.start lnet_step.ask [where a = ?a and b = ?b and c = 5 and ev = ?ev and n = ?n]])
       (use r in \<open>simp_all add: m1_def lnet_start_def example_clients del: handle_call.simps\<close>)
  show ?thesis
    by (rule lnet_stepI [OF 1 lnet_step.lose [where a = ?a and b = ?b and keep = "\<lambda>_. False"]])
       (use r(3) in \<open>simp_all add: m1_def lnet_start_def peer_addrs_def fun_upd_idem\<close>)
qed

lemma example_lnet_reach: "lnet_reach example_lnet"
proof -
  let ?a = "(''h'', 1) :: addr" and ?b = "(''h'', 2) :: addr"
  note r = example_calls and s = example_sent and c = example_clients
  define m1 where "m1 = example_lnet\<lparr>ln_node := (ln_node lnet_start)(?a := sn_a)\<rparr>"
  define m2 where "m2 = example_lnet\<lparr>ln_node := (ln_node lnet_start)(?a := sn_a2),
      ln_pending := [(?a, ?b, AddPeer ''h'' 1), (?a, ?b, AddToGroup ''g'' ''x'')]\<rparr>"
  define m3 where "m3 = example_lnet\<lparr>ln_node := (ln_node lnet_start)(?a := sn_a2, ?b := sn_b),
      ln_pending := [(?a, ?b, AddToGroup ''g'' ''x''), (?b, ?a, AddPeer ''h'' 2)]\<rparr>"
  define m4 where "m4 = example_lnet\<lparr>ln_pending := [(?b, ?a, AddPeer ''h'' 2)]\<rparr>"
  note defs = m1_def m2_def m3_def m4_def lnet_start_def example_lnet_def
  have 1: "lnet_reach m1"
    by (rule lnet_stepI [OF example_lost lnet_step.add [where a = ?a and g = "''g''" and x = "''x''" and ev = "[]" and n = sn_a]])
       (simp_all add: defs r s)
  have 2: "lnet_reach m2"
    by (rule lnet_stepI [OF 1 lnet_step.ask [where a = ?a and b = ?b and c = 5 and ev = greet_b and n = sn_a2]])
       (use r(2) in \<open>simp_all add: defs s c del: handle_call.simps\<close>)
  have 3: "lnet_reach m3"
    by (rule lnet_stepI [OF 2 lnet_step.deliver [where xs = "[]" and s = ?a and a = ?b and c = 6 and ev = greet_a and n = sn_b]])
       (use r(3) in \<open>simp_all add: defs s c del: handle_call.simps\<close>)
  have 4: "lnet_reach m4"
    by (rule lnet_stepI [OF 3 lnet_step.deliver [where xs = "[]" and s = ?a and a = ?b and c = 7 and ev = "[]" and n = sn_b2]])
       (use r(4) in \<open>simp_all add: defs s c del: handle_call.simps\<close>)
  show ?thesis
    by (rule lnet_stepI [OF 4 lnet_step.deliver [where xs = "[]" and s = ?b and a = ?a and c = 8 and ev = "[]" and n = sn_a2]])
       (use r(5) in \<open>simp_all add: defs s c fun_upd_twist del: handle_call.simps\<close>)
qed

text \<open>
  C9. The directory survives lost connections: however often connections between nodes break, with
  any of the calls on them lost, and nodes are introduced again, once the remaining calls are handled
  a node lists under each group at least the names added there at the node itself and at every node
  that has it as a peer, and only names added at it or at a node connected with it, directly or
  through others. What it learnt from a peer it goes on listing when it has lost the peer, although the
  comment on \<open>removeFromGroup\<close> in \<open>service_node.h\<close> says the names are then removed.
\<close>

theorem directory_survives_losses:
  assumes "lnet_reach m" and "ln_pending m = []"
  shows "{x. \<exists>b. (b = a \<or> a \<in> peer_addrs (ln_node m b)) \<and> (b, g, x) \<in> ln_added m} \<subseteq> members (ln_node m a) g \<and>
    members (ln_node m a) g \<subseteq> {x. \<exists>b. (b = a \<or> (a, b) \<in> (ln_asked m \<union> (ln_asked m)\<inverse>)\<^sup>+) \<and> (b, g, x) \<in> ln_added m}"
proof
  note inv = lnet_invD(4) [OF lnet_reach_inv [OF assms(1)]]
  have listed: "(a, g, x) \<in> ln_listed m \<longleftrightarrow> x \<in> members (ln_node m a) g" for x by (simp add: ln_listed_def)
  have "x \<in> members (ln_node m a) g" if "(a, g, x) \<in> ln_added m" for x
    using that inv unfolding spread_inv_def listed [symmetric] by blast
  moreover have "x \<in> members (ln_node m a) g" if "a \<in> peer_addrs (ln_node m b)" "(b, g, x) \<in> ln_added m" for b x
  proof -
    have "(b, a) \<in> ln_knows m" using that(1) by (simp add: ln_knows_def)
    moreover have "(b, a, g, x) \<notin> adding (set (ln_pending m))" using assms(2) by simp
    ultimately show ?thesis using that(2) inv unfolding spread_inv_def listed [symmetric] by blast
  qed
  ultimately show "{x. \<exists>b. (b = a \<or> a \<in> peer_addrs (ln_node m b)) \<and> (b, g, x) \<in> ln_added m} \<subseteq> members (ln_node m a) g"
    by blast
  have "source (linked m) (ln_added m) a (g, x)" if "x \<in> members (ln_node m a) g" for x
    using that inv unfolding spread_inv_def listed [symmetric] by blast
  then show "members (ln_node m a) g \<subseteq> {x. \<exists>b. (b = a \<or> (a, b) \<in> (ln_asked m \<union> (ln_asked m)\<inverse>)\<^sup>+) \<and> (b, g, x) \<in> ln_added m}"
    unfolding source_def linked_def by blast
qed

theorem directory_survives_losses_witness: "''x'' \<in> members (ln_node example_lnet (''h'', 2)) ''g''"
proof -
  have "ln_pending example_lnet = []" "ln_added example_lnet = {((''h'', 1), ''g'', ''x'')}"
    "(''h'', 2) \<in> peer_addrs (ln_node example_lnet (''h'', 1))" by (simp_all add: example_lnet_def peer_addrs_def)
  then show ?thesis using directory_survives_losses [OF example_lnet_reach, of "(''h'', 2)" "''g''"] by auto
qed

end
