(* ===== verification/Blockstore_Daemon.thy ===== *)
theory Blockstore_Daemon
  imports Remoteblockstore
begin

section \<open>A node of the block store network (\<open>blockstore/blockstore_daemon.{h,cc}\<close>)\<close>

text \<open>
  \<open>BlockStoreNode\<close> keeps its peers by address and the block stores it knows by id, local ones and
  those its peers announced. As in the other components a handler takes the node and returns what
  it asked of the sockets, the event manager and the peers' clients, and the node it left. An
  \<open>RPCClient\<close> object is known by number; what \<open>TcpSocket::connect\<close> answers is the argument
  \<open>sock\<close>. \<open>_ip\<close> and \<open>_port\<close> of \<open>Peer\<close> are never used and not kept.
\<close>

datatype PeerAddr = PeerAddr (pa_host: string) (pa_port: u16)

definition addr_less :: "PeerAddr \<Rightarrow> PeerAddr \<Rightarrow> bool" where
  "addr_less a other \<longleftrightarrow> pa_host a < pa_host other \<or> (pa_host a = pa_host other \<and> pa_port a < pa_port other)"

definition addr_eq :: "PeerAddr \<Rightarrow> PeerAddr \<Rightarrow> bool" where
  "addr_eq a other \<longleftrightarrow> pa_host a = pa_host other \<and> pa_port a = pa_port other"

definition addr_neq :: "PeerAddr \<Rightarrow> PeerAddr \<Rightarrow> bool" where
  "addr_neq a other \<longleftrightarrow> \<not> addr_eq a other"

lemma addr_eq_iff [simp]: "addr_eq a b \<longleftrightarrow> a = b"
  by (auto simp: addr_eq_def PeerAddr.expand)

text \<open>\<open>std::map\<close> needs a strict order; \<open>operator<\<close> is one, and a total one.\<close>

instantiation PeerAddr :: linorder
begin

definition less_PeerAddr :: "PeerAddr \<Rightarrow> PeerAddr \<Rightarrow> bool" where
  "a < b \<longleftrightarrow> addr_less a b"

definition less_eq_PeerAddr :: "PeerAddr \<Rightarrow> PeerAddr \<Rightarrow> bool" where
  "a \<le> b \<longleftrightarrow> addr_less a b \<or> a = b"

instance
proof
  fix a b c :: PeerAddr
  show "a < b \<longleftrightarrow> a \<le> b \<and> \<not> b \<le> a"
    by (auto simp: less_PeerAddr_def less_eq_PeerAddr_def addr_less_def)
  show "a \<le> a" by (simp add: less_eq_PeerAddr_def)
  show "a \<le> c" if "a \<le> b" "b \<le> c"
    using that by (auto simp: less_eq_PeerAddr_def addr_less_def)
  show "a = b" if "a \<le> b" "b \<le> a"
    using that by (auto simp: less_eq_PeerAddr_def addr_less_def)
  show "a \<le> b \<or> b \<le> a"
    using linorder_less_linear [of "pa_host a" "pa_host b"] linorder_less_linear [of "pa_port a" "pa_port b"]
    by (auto simp: less_eq_PeerAddr_def addr_less_def PeerAddr.expand)
qed

end

type_synonym bsn_client = nat

datatype bsn_event =
    ClientStart bsn_client
  | ClientAddPeer bsn_client string u16 \<comment> \<open>\<open>call<bool, string, uint16_t>("addPeer", ...)\<close>\<close>
  | ClientSetDisconnect bsn_client PeerAddr
  | ServerStart
  | EnqueueTimer

text \<open>A future of type \<open>bool\<close> that is set already, or that of the first call on a new client.\<close>

datatype bsn_answer = Known bool | AnswerTo bsn_client

record bsn_peer =
  pe_client :: "bsn_client option"
  pe_bsids :: "u64 list"

datatype bsn_store = LocalStore fileblockstore | RemoteStore "bsn_client option" remoteblockstore

record bsn_node =
  bn_host :: string
  bn_port :: u16
  bn_stopped :: bool
  bn_rpc_server :: "rpc_server option"
  bn_peers :: "(PeerAddr, bsn_peer option) smap"
  bn_blockstores :: "(u64, bsn_store) smap"

subsection \<open>Peers\<close>

definition new_peer :: bsn_peer where
  "new_peer = \<lparr>pe_client = None, pe_bsids = []\<rparr>"

definition peer_connect ::
  "bsn_peer \<Rightarrow> bsn_client option \<Rightarrow> string \<Rightarrow> u16 \<Rightarrow> bsn_answer \<times> bsn_event list \<times> bsn_peer" where
  "peer_connect peer sock myhost myport =
     (case sock of
        None \<Rightarrow> (Known False, [], peer)
      | Some c \<Rightarrow> (AnswerTo c, [ClientStart c, ClientAddPeer c myhost myport], peer\<lparr>pe_client := Some c\<rparr>))"

definition peer_setDisconnectCallback :: "bsn_peer \<Rightarrow> PeerAddr \<Rightarrow> bsn_event list res" where
  "peer_setDisconnectCallback peer addr =
     (case pe_client peer of None \<Rightarrow> Inl NullDeref | Some c \<Rightarrow> Inr [ClientSetDisconnect c addr])"

definition registerBlockStore :: "bsn_peer \<Rightarrow> u64 \<Rightarrow> bsn_store \<times> bsn_peer" where
  "registerBlockStore peer bsid =
     (RemoteStore (pe_client peer) (new_remoteblockstore bsid), peer\<lparr>pe_bsids := pe_bsids peer @ [bsid]\<rparr>)"

definition getBlockStoreIDs :: "bsn_peer \<Rightarrow> u64 list" where
  "getBlockStoreIDs peer = pe_bsids peer"

text \<open>Two functions that were left without a body.\<close>

definition peer_setBlock :: "bsn_peer \<Rightarrow> string \<Rightarrow> bytes \<Rightarrow> bsn_answer res" where
  "peer_setBlock peer name data = Inl MissingReturn"

definition peer_getBlock :: "bsn_peer \<Rightarrow> string \<Rightarrow> bytes option res" where
  "peer_getBlock peer name = Inl MissingReturn"

subsection \<open>Membership\<close>

text \<open>
  \<open>_peers[addr]\<close> of an unknown address stores a null pointer, which the next line dereferences.
\<close>

definition bsn_RemovePeer :: "bsn_node \<Rightarrow> PeerAddr \<Rightarrow> bsn_node res" where
  "bsn_RemovePeer n addr =
     (let (peer, peers) = map_index None (bn_peers n) addr in
      case peer of
        None \<Rightarrow> Inl NullDeref
      | Some p \<Rightarrow> Inr (n\<lparr>bn_blockstores := fold map_erase (getBlockStoreIDs p) (bn_blockstores n),
                        bn_peers := map_erase addr peers\<rparr>))"

text \<open>The loop that introduces the new peer to the others.\<close>

definition introduce ::
  "bsn_client option \<Rightarrow> PeerAddr \<Rightarrow> bsn_event list \<Rightarrow> PeerAddr \<times> bsn_peer option \<Rightarrow> bsn_event list res" where
  "introduce client addr ev i =
     (if addr_neq addr (fst i)
      then case client of None \<Rightarrow> Inl NullDeref
           | Some c \<Rightarrow> Inr (ev @ [ClientAddPeer c (pa_host (fst i)) (pa_port (fst i))])
      else Inr ev)"

definition bsn_RPCAddPeer ::
  "bsn_node \<Rightarrow> bsn_client option \<Rightarrow> string \<Rightarrow> u16 \<Rightarrow> (bsn_answer \<times> bsn_event list \<times> bsn_node) res" where
  "bsn_RPCAddPeer n sock host port =
     (let addr = PeerAddr host port in
      if map_of (bn_peers n) addr \<noteq> None then Inr (Known True, [], n)
      else
        let (ret, ev, peer) = peer_connect new_peer sock (bn_host n) (bn_port n);
            n = n\<lparr>bn_peers := map_store addr (Some peer) (bn_peers n)\<rparr>
        in rbind (peer_setDisconnectCallback peer addr) (\<lambda>ev'.
             rbind (rfold (introduce (pe_client peer) addr) [] (bn_peers n)) (\<lambda>ev''.
               Inr (ret, ev @ ev' @ ev'', n))))"

definition bsn_RPCAddBlockStore :: "bsn_node \<Rightarrow> string \<Rightarrow> u16 \<Rightarrow> u64 \<Rightarrow> (bool \<times> bsn_node) res" where
  "bsn_RPCAddBlockStore n host port bsid =
     (let addr = PeerAddr host port in
      case map_of (bn_peers n) addr of
        None \<Rightarrow> Inr (False, n)
      | Some entry \<Rightarrow>
          if map_of (bn_blockstores n) bsid \<noteq> None then Inr (False, n)
          else case entry of
            None \<Rightarrow> Inl NullDeref
          | Some peer \<Rightarrow>
              let (store, peer) = registerBlockStore peer bsid in
              Inr (True, n\<lparr>bn_peers := map_store addr (Some peer) (bn_peers n),
                           bn_blockstores := map_store bsid store (bn_blockstores n)\<rparr>))"

text \<open>\<open>addPeer\<close> then waits for the future to convert it to a \<open>bool\<close>.\<close>

definition bsn_addPeer ::
  "bsn_node \<Rightarrow> bsn_client option \<Rightarrow> string \<Rightarrow> u16 \<Rightarrow> (bsn_answer \<times> bsn_event list \<times> bsn_node) res" where
  "bsn_addPeer n sock host port = bsn_RPCAddPeer n sock host port"

definition bsn_addBlockStore :: "'w posix \<Rightarrow> bsn_node \<Rightarrow> u64 \<Rightarrow> string \<Rightarrow> 'w \<Rightarrow> bsn_node res" where
  "bsn_addBlockStore P n bsid pathname w =
     rbind (new_fileblockstore P pathname default_blocksize w) (\<lambda>st.
       Inr (n\<lparr>bn_blockstores := map_store bsid (LocalStore st) (bn_blockstores n)\<rparr>))"

subsection \<open>Construction and the timer\<close>

text \<open>
  The constructor tries the ports \<open>rand()\<close> gives, cut to 16 bits, until one can be listened on;
  \<open>None\<close> means that the given random numbers were used up. The functions registered are number
  0, \<open>RPCAddPeer\<close>, and number 1, \<open>RPCAddBlockStore\<close> with the node's own address bound.
\<close>

fun new_node :: "(u16 \<Rightarrow> bool) \<Rightarrow> string \<Rightarrow> nat list \<Rightarrow> bsn_node option" where
  "new_node listen host [] = None"
| "new_node listen host (r # rands) =
     (let port = of_nat r in
      if listen port
      then let server = registerFunction new_server ''addPeer'' (0, 2);
               server = registerFunction server ''addBlockStore'' (1, 1)
           in Some \<lparr>bn_host = host, bn_port = port, bn_stopped = False, bn_rpc_server = Some server,
                    bn_peers = [], bn_blockstores = []\<rparr>
      else new_node listen host rands)"

datatype node_val = NString string | NPort u16 | NId u64

fun node_function ::
  "bsn_node \<Rightarrow> (PeerAddr \<Rightarrow> bsn_client option) \<Rightarrow> func \<Rightarrow> node_val list \<Rightarrow> (bsn_event list \<times> bsn_node) res" where
  "node_function n conn f as =
     (if f = 0 then (case as of
        [NString host, NPort port] \<Rightarrow>
          rbind (bsn_RPCAddPeer n (conn (PeerAddr host port)) host port) (\<lambda>r. Inr (snd r))
      | _ \<Rightarrow> Inl UncaughtException)
      else (case as of
        [NId bsid] \<Rightarrow> rbind (bsn_RPCAddBlockStore n (bn_host n) (bn_port n) bsid) (\<lambda>r. Inr ([], snd r))
      | _ \<Rightarrow> Inl UncaughtException))"

definition bsn_start :: "bsn_node \<Rightarrow> bsn_event list res" where
  "bsn_start n = (case bn_rpc_server n of None \<Rightarrow> Inl NullDeref | Some server \<Rightarrow> Inr [EnqueueTimer, ServerStart])"

text \<open>
  \<open>stop\<close> before it waits for \<open>_stopped\<close>: the server is destroyed, and with it the connections
  it holds, the first component.
\<close>

definition bsn_stop :: "bsn_node \<Rightarrow> nat set \<times> bsn_node" where
  "bsn_stop n = (case bn_rpc_server n of None \<Rightarrow> {} | Some server \<Rightarrow> sv_connections server, n\<lparr>bn_rpc_server := None\<rparr>)"

text \<open>The destructor stops the node.\<close>

definition destroy_node :: "bsn_node \<Rightarrow> nat set \<times> bsn_node" where
  "destroy_node n = bsn_stop n"

definition bsn_port :: "bsn_node \<Rightarrow> u16" where
  "bsn_port n = bn_port n"

definition bsn_onTimer :: "bsn_node \<Rightarrow> bsn_event list \<times> bsn_node" where
  "bsn_onTimer n = (if bn_rpc_server n \<noteq> None then ([EnqueueTimer], n) else ([], n\<lparr>bn_stopped := True\<rparr>))"

subsection \<open>Blocks\<close>

text \<open>\<open>put\<close> is \<open>putBlock\<close> of the interface, on the one store or the other.\<close>

definition putBlockHelper ::
  "('s \<Rightarrow> string \<Rightarrow> bytes \<Rightarrow> 'r) \<Rightarrow> string \<Rightarrow> bytes \<Rightarrow> 's \<Rightarrow> 's \<Rightarrow> u64 \<Rightarrow> u64 \<Rightarrow> 'r" where
  "putBlockHelper put name data bsA bsB fA fB = (if fA < fB then put bsA name data else put bsB name data)"

definition findBestLocation :: "bsn_node \<Rightarrow> u64 \<Rightarrow> bsn_store option" where
  "findBestLocation n h = None"

definition findNextBestLocation :: "bsn_node \<Rightarrow> u64 \<Rightarrow> bsn_store option" where
  "findNextBestLocation n h = None"

text \<open>
  \<open>h\<close> is the hash of the name, \<open>free\<close> and \<open>put\<close> the calls of the interface; the result is that
  of the future \<open>ret\<close>.
\<close>

definition bsn_putBlock ::
  "(bsn_store \<Rightarrow> u64) \<Rightarrow> (bsn_store \<Rightarrow> string \<Rightarrow> bytes \<Rightarrow> bool) \<Rightarrow> bsn_node \<Rightarrow> (string \<Rightarrow> u64) \<Rightarrow> string \<Rightarrow> bytes \<Rightarrow> bool res" where
  "bsn_putBlock free put n h name data =
     (case findBestLocation n (h name) of
        None \<Rightarrow> Inl NullDeref
      | Some bsA \<Rightarrow> (case findNextBestLocation n (h name) of
          None \<Rightarrow> Inl NullDeref
        | Some bsB \<Rightarrow> Inr (putBlockHelper put name data bsA bsB (free bsA) (free bsB))))"

definition bsn_getBlock :: "bsn_node \<Rightarrow> string \<Rightarrow> bytes option" where
  "bsn_getBlock n name = None"

subsection \<open>The invariant\<close>

text \<open>
  The maps are proper maps; every peer is an object with a client; and every store that is reached
  through a client was announced by a peer of the node that has this client.
\<close>

definition owned :: "bsn_node \<Rightarrow> u64 \<Rightarrow> bsn_client option \<Rightarrow> bool" where
  "owned n bsid c \<longleftrightarrow> (\<exists>addr p. map_of (bn_peers n) addr = Some (Some p) \<and> pe_client p = c \<and> bsid \<in> set (pe_bsids p))"

definition bsn_ok :: "bsn_node \<Rightarrow> bool" where
  "bsn_ok n \<longleftrightarrow> map_ok (bn_peers n) \<and> map_ok (bn_blockstores n) \<and>
     (\<forall>addr e. map_of (bn_peers n) addr = Some e \<longrightarrow> (\<exists>p c. e = Some p \<and> pe_client p = Some c)) \<and>
     (\<forall>bsid c rb. map_of (bn_blockstores n) bsid = Some (RemoteStore c rb) \<longrightarrow> rb_bsid rb = bsid \<and> owned n bsid c)"

lemma ownedI:
  "map_of (bn_peers n) addr = Some (Some p) \<Longrightarrow> bsid \<in> set (pe_bsids p) \<Longrightarrow> pe_client p = c \<Longrightarrow> owned n bsid c"
  unfolding owned_def by blast

lemma map_of_fold_erase: "map_of (fold map_erase ks m) k = (if k \<in> set ks then None else map_of m k)"
  by (induction ks arbitrary: m) (auto simp: map_of_map_erase)

lemma map_ok_fold_erase: "map_ok m \<Longrightarrow> map_ok (fold map_erase ks m)"
  by (induction ks arbitrary: m) (auto simp: map_ok_erase)

lemma rfold_introduce:
  "rfold (introduce (Some c) addr) ev ps =
     Inr (ev @ map (\<lambda>i. ClientAddPeer c (pa_host (fst i)) (pa_port (fst i))) (filter (\<lambda>i. fst i \<noteq> addr) ps))"
  by (induction ps arbitrary: ev) (auto simp: introduce_def addr_neq_def)

lemma bsn_RPCAddPeer_known: "map_of (bn_peers n) (PeerAddr host port) \<noteq> None \<Longrightarrow>
    bsn_RPCAddPeer n sock host port = Inr (Known True, [], n)"
  by (simp add: bsn_RPCAddPeer_def)

definition joined :: "bsn_node \<Rightarrow> bsn_client \<Rightarrow> PeerAddr \<Rightarrow> bsn_node" where
  "joined n c addr = n\<lparr>bn_peers := map_store addr (Some \<lparr>pe_client = Some c, pe_bsids = []\<rparr>) (bn_peers n)\<rparr>"

lemma bsn_RPCAddPeer_new:
  assumes "map_of (bn_peers n) (PeerAddr host port) = None"
  shows "bsn_RPCAddPeer n (Some c) host port =
    Inr (AnswerTo c,
      [ClientStart c, ClientAddPeer c (bn_host n) (bn_port n), ClientSetDisconnect c (PeerAddr host port)] @
        map (\<lambda>i. ClientAddPeer c (pa_host (fst i)) (pa_port (fst i)))
          (filter (\<lambda>i. fst i \<noteq> PeerAddr host port) (bn_peers (joined n c (PeerAddr host port)))),
      joined n c (PeerAddr host port))"
  using assms
  by (simp add: bsn_RPCAddPeer_def peer_connect_def new_peer_def peer_setDisconnectCallback_def rfold_introduce joined_def Let_def)

lemma bsn_RPCAddPeer_no_socket:
  "map_of (bn_peers n) (PeerAddr host port) = None \<Longrightarrow> bsn_RPCAddPeer n None host port = Inl NullDeref"
  by (simp add: bsn_RPCAddPeer_def peer_connect_def new_peer_def peer_setDisconnectCallback_def)

lemma ok_joined:
  assumes ok: "bsn_ok n" and new: "map_of (bn_peers n) addr = None"
  shows "bsn_ok (joined n c addr)"
proof -
  have "owned (joined n c addr) bsid x" if o: "owned n bsid x" for bsid x
  proof -
    obtain a p where "map_of (bn_peers n) a = Some (Some p)" "pe_client p = x" "bsid \<in> set (pe_bsids p)"
      using o by (auto simp: owned_def)
    with new show ?thesis by (intro ownedI [of _ a p]) (auto simp: joined_def map_of_map_store)
  qed
  then show ?thesis
    using ok by (auto simp: bsn_ok_def joined_def map_of_map_store map_ok_store)
qed

lemma ok_RPCAddPeer:
  assumes "bsn_ok n"
  shows "\<exists>ret ev n'. bsn_RPCAddPeer n (Some c) host port = Inr (ret, ev, n') \<and> bsn_ok n'"
proof (cases "map_of (bn_peers n) (PeerAddr host port)")
  case None
  with bsn_RPCAddPeer_new [OF None] ok_joined [OF assms None] show ?thesis by blast
next
  case (Some e)
  then show ?thesis using assms bsn_RPCAddPeer_known [of n host port] by simp
qed

lemma ok_RPCAddBlockStore:
  assumes "bsn_ok n"
  shows "\<exists>b n'. bsn_RPCAddBlockStore n host port bsid = Inr (b, n') \<and> bsn_ok n'"
proof (cases "map_of (bn_peers n) (PeerAddr host port)")
  case None
  then have "bsn_RPCAddBlockStore n host port bsid = Inr (False, n)" by (simp add: bsn_RPCAddBlockStore_def)
  then show ?thesis using assms by blast
next
  case (Some e)
  then obtain p c where e: "e = Some p" "pe_client p = Some c" using assms by (force simp: bsn_ok_def)
  show ?thesis
  proof (cases "map_of (bn_blockstores n) bsid")
    case None
    let ?a = "PeerAddr host port"
    let ?n = "n\<lparr>bn_peers := map_store ?a (Some (p\<lparr>pe_bsids := pe_bsids p @ [bsid]\<rparr>)) (bn_peers n),
               bn_blockstores := map_store bsid (RemoteStore (Some c) \<lparr>rb_bsid = bsid\<rparr>) (bn_blockstores n)\<rparr>"
    have "bsn_RPCAddBlockStore n host port bsid = Inr (True, ?n)"
      using Some None e by (simp add: bsn_RPCAddBlockStore_def registerBlockStore_def new_remoteblockstore_def)
    moreover have own: "owned ?n k x" if o: "owned n k x" for k x
    proof -
      obtain a q where q: "map_of (bn_peers n) a = Some (Some q)" "pe_client q = x" "k \<in> set (pe_bsids q)"
        using o by (auto simp: owned_def)
      show ?thesis
      proof (cases "a = ?a")
        case True
        then have "q = p" using q(1) Some e by simp
        with True q show ?thesis
          by (intro ownedI [of _ a "p\<lparr>pe_bsids := pe_bsids p @ [bsid]\<rparr>"]) (auto simp: map_of_map_store)
      next
        case False
        with q show ?thesis by (intro ownedI [of _ a q]) (auto simp: map_of_map_store)
      qed
    qed
    have "owned ?n bsid (Some c)" using e by (auto simp: owned_def map_of_map_store)
    with own have "bsn_ok ?n"
      using assms e by (auto simp: bsn_ok_def map_of_map_store map_ok_store)
    ultimately show ?thesis by blast
  next
    case (Some st)
    then have "bsn_RPCAddBlockStore n host port bsid = Inr (False, n)"
      using \<open>map_of (bn_peers n) (PeerAddr host port) = Some e\<close> by (simp add: bsn_RPCAddBlockStore_def)
    then show ?thesis using assms by blast
  qed
qed

lemma bsn_RemovePeer_known:
  assumes "map_of (bn_peers n) addr = Some (Some p)"
  shows "bsn_RemovePeer n addr = Inr (n\<lparr>bn_blockstores := fold map_erase (pe_bsids p) (bn_blockstores n),
      bn_peers := map_erase addr (bn_peers n)\<rparr>)"
  using assms by (simp add: bsn_RemovePeer_def getBlockStoreIDs_def)

lemma ok_RemovePeer:
  assumes ok: "bsn_ok n" and known: "map_of (bn_peers n) addr \<noteq> None"
  shows "\<exists>n'. bsn_RemovePeer n addr = Inr n' \<and> bsn_ok n'"
proof -
  obtain p where p: "map_of (bn_peers n) addr = Some (Some p)" using ok known by (force simp: bsn_ok_def)
  let ?n = "n\<lparr>bn_blockstores := fold map_erase (pe_bsids p) (bn_blockstores n), bn_peers := map_erase addr (bn_peers n)\<rparr>"
  have "owned ?n k c" if o: "owned n k c" and k: "k \<notin> set (pe_bsids p)" for k c
  proof -
    obtain a q where "map_of (bn_peers n) a = Some (Some q)" "pe_client q = c" "k \<in> set (pe_bsids q)"
      using o by (auto simp: owned_def)
    with p k show ?thesis by (intro ownedI [of _ a q]) (auto simp: map_of_map_erase)
  qed
  then have "bsn_ok ?n"
    using ok by (auto simp: bsn_ok_def map_of_map_erase map_of_fold_erase map_ok_erase map_ok_fold_erase split: if_splits)
  with bsn_RemovePeer_known [OF p] show ?thesis by blast
qed

lemma ok_addBlockStore:
  "bsn_ok n \<Longrightarrow> bsn_addBlockStore P n bsid path w = Inr n' \<Longrightarrow> bsn_ok n'"
  by (auto simp: bsn_addBlockStore_def rbind_Inr_iff bsn_ok_def owned_def map_of_map_store map_ok_store split: if_splits)

subsection \<open>Reachable nodes\<close>

text \<open>
  What can happen to a node whose connections all succeed: calls from peers and from the
  application, a local store, and the loss of the connection to a peer, which runs the disconnect
  callback set for it.
\<close>

inductive bsn_reach :: "'w posix \<Rightarrow> bsn_node \<Rightarrow> bool" for P where
  created: "new_node listen host rands = Some n \<Longrightarrow> bsn_reach P n"
| add_peer: "bsn_reach P n \<Longrightarrow> bsn_RPCAddPeer n (Some c) host port = Inr (ret, ev, n') \<Longrightarrow> bsn_reach P n'"
| add_store: "bsn_reach P n \<Longrightarrow> bsn_RPCAddBlockStore n host port bsid = Inr (b, n') \<Longrightarrow> bsn_reach P n'"
| add_local: "bsn_reach P n \<Longrightarrow> bsn_addBlockStore P n bsid path w = Inr n' \<Longrightarrow> bsn_reach P n'"
| lost: "bsn_reach P n \<Longrightarrow> map_of (bn_peers n) addr \<noteq> None \<Longrightarrow> bsn_RemovePeer n addr = Inr n' \<Longrightarrow> bsn_reach P n'"
| timer: "bsn_reach P n \<Longrightarrow> bsn_onTimer n = (ev, n') \<Longrightarrow> bsn_reach P n'"

lemma new_node_fields:
  "new_node listen host rands = Some n \<Longrightarrow>
   listen (bn_port n) \<and> bn_host n = host \<and> bn_peers n = [] \<and> bn_blockstores n = [] \<and> \<not> bn_stopped n \<and> bn_rpc_server n \<noteq> None"
  by (induction rands) (auto simp: Let_def split: if_splits)

lemma bsn_reach_ok: "bsn_reach P n \<Longrightarrow> bsn_ok n"
proof (induction rule: bsn_reach.induct)
  case (created listen host rands n)
  then show ?case by (auto simp: bsn_ok_def map_ok_def dest: new_node_fields)
next
  case (add_peer n c host port ret ev n')
  then show ?case using ok_RPCAddPeer [of n c host port] by auto
next
  case (add_store n host port bsid b n')
  then show ?case using ok_RPCAddBlockStore [of n host port bsid] by auto
next
  case (add_local n bsid path w n')
  then show ?case using ok_addBlockStore [of n P bsid path w n'] by simp
next
  case (lost n addr n')
  then show ?case using ok_RemovePeer [of n addr] by auto
next
  case (timer n ev n')
  then show ?case by (auto simp: bsn_onTimer_def bsn_ok_def owned_def split: if_splits)
qed

text \<open>
  C27. A node never dereferences a null pointer while its connections succeed: in every reachable
  state each peer is an object with a client, each store reached over a client was announced by a
  peer of the node that has this client, and every handler returns.
\<close>

theorem reachable_nodes_are_safe:
  assumes "bsn_reach P n"
  shows "(\<forall>addr e. map_of (bn_peers n) addr = Some e \<longrightarrow> (\<exists>p c. e = Some p \<and> pe_client p = Some c)) \<and>
    (\<forall>bsid c rb. map_of (bn_blockstores n) bsid = Some (RemoteStore c rb) \<longrightarrow> rb_bsid rb = bsid \<and>
       (\<exists>addr p. map_of (bn_peers n) addr = Some (Some p) \<and> pe_client p = c \<and> bsid \<in> set (pe_bsids p))) \<and>
    (\<forall>c host port. \<exists>r. bsn_RPCAddPeer n (Some c) host port = Inr r) \<and>
    (\<forall>host port bsid. \<exists>r. bsn_RPCAddBlockStore n host port bsid = Inr r) \<and>
    (\<forall>addr. map_of (bn_peers n) addr \<noteq> None \<longrightarrow> (\<exists>r. bsn_RemovePeer n addr = Inr r))"
proof -
  have ok: "bsn_ok n" by (rule bsn_reach_ok [OF assms])
  have "\<exists>r. bsn_RPCAddPeer n (Some c) host port = Inr r" for c host port
    using ok_RPCAddPeer [OF ok, of c host port] by blast
  moreover have "\<exists>r. bsn_RPCAddBlockStore n host port bsid = Inr r" for host port bsid
    using ok_RPCAddBlockStore [OF ok, of host port bsid] by blast
  moreover have "\<exists>r. bsn_RemovePeer n addr = Inr r" if "map_of (bn_peers n) addr \<noteq> None" for addr
    using ok_RemovePeer [OF ok that] by blast
  ultimately show ?thesis using ok unfolding bsn_ok_def owned_def by blast
qed

definition example_node :: bsn_node where
  "example_node = the (new_node (\<lambda>p. p \<noteq> 80) ''h'' [80, 65537])"

definition example_peered :: bsn_node where
  "example_peered = joined example_node 4 (PeerAddr ''g'' 9)"

lemma example_node_new: "new_node (\<lambda>p. p \<noteq> 80) ''h'' [80, 65537] = Some example_node"
  by (simp add: example_node_def Let_def)

lemma example_peered_reach: "bsn_reach P example_peered"
proof -
  have "map_of (bn_peers example_node) (PeerAddr ''g'' 9) = None" using new_node_fields [OF example_node_new] by simp
  from bsn_RPCAddPeer_new [OF this, of 4] have
    "bsn_RPCAddPeer example_node (Some 4) ''g'' 9 = Inr (AnswerTo 4,
       [ClientStart 4, ClientAddPeer 4 (bn_host example_node) (bn_port example_node), ClientSetDisconnect 4 (PeerAddr ''g'' 9)] @
       map (\<lambda>i. ClientAddPeer 4 (pa_host (fst i)) (pa_port (fst i)))
         (filter (\<lambda>i. fst i \<noteq> PeerAddr ''g'' 9) (bn_peers example_peered)), example_peered)"
    by (simp only: example_peered_def)
  with bsn_reach.created [OF example_node_new] show ?thesis by (rule bsn_reach.add_peer)
qed

theorem reachable_nodes_are_safe_witness:
  "map_of (bn_peers example_peered) (PeerAddr ''g'' 9) \<noteq> None \<and>
   (\<exists>r. bsn_RemovePeer example_peered (PeerAddr ''g'' 9) = Inr r)"
proof -
  have "map_of (bn_peers example_peered) (PeerAddr ''g'' 9) \<noteq> None"
    by (simp add: example_peered_def joined_def map_of_map_store)
  with reachable_nodes_are_safe [OF example_peered_reach] show ?thesis by blast
qed

text \<open>
  Losing a peer: the peer and exactly the stores it announced are gone, all other stores and
  peers are as before.
\<close>

lemma lost_peer_takes_its_stores:
  assumes "map_of (bn_peers n) addr = Some (Some p)"
  shows "\<exists>n'. bsn_RemovePeer n addr = Inr n' \<and>
    (\<forall>a. map_of (bn_peers n') a = (if a = addr then None else map_of (bn_peers n) a)) \<and>
    (\<forall>bsid. map_of (bn_blockstores n') bsid = (if bsid \<in> set (pe_bsids p) then None else map_of (bn_blockstores n) bsid))"
  using bsn_RemovePeer_known [OF assms] by (simp add: map_of_map_erase map_of_fold_erase)

subsection \<open>Stopping\<close>

text \<open>A node together with the number of \<open>onTimer\<close> calls the event manager holds.\<close>

fun fire_timer :: "bsn_node \<times> nat \<Rightarrow> bsn_node \<times> nat" where
  "fire_timer (n, 0) = (n, 0)"
| "fire_timer (n, Suc t) = (case bsn_onTimer n of (ev, n') \<Rightarrow> (n', t + length (filter (\<lambda>e. e = EnqueueTimer) ev)))"

lemma fire_running: "bn_rpc_server n \<noteq> None \<Longrightarrow> (fire_timer ^^ k) (n, 1) = (n, 1)"
  by (induction k) (simp_all add: bsn_onTimer_def)

lemma fire_none: "(fire_timer ^^ k) (n, 0) = (n, 0)"
  by (induction k) simp_all

text \<open>
  \<open>stop\<close> returns exactly when the node was started: in a node that was started, however often
  the timer fired since, the timer fires once more after \<open>stop\<close> reset the server, signals
  \<open>_stopped\<close> and is not set again; in one that was never started nothing ever signals \<open>_stopped\<close>,
  so \<open>stop\<close>, and with it the destructor, waits forever.
\<close>

lemma stop_needs_start:
  assumes "bn_rpc_server n \<noteq> None" and "\<not> bn_stopped n"
  shows "(\<exists>ev. bsn_start n = Inr ev \<and> length (filter (\<lambda>e. e = EnqueueTimer) ev) = 1) \<and>
    fire_timer (snd (bsn_stop (fst ((fire_timer ^^ k) (n, 1)))), snd ((fire_timer ^^ k) (n, 1))) =
      (n\<lparr>bn_rpc_server := None, bn_stopped := True\<rparr>, 0) \<and>
    \<not> bn_stopped (fst ((fire_timer ^^ j) (snd (bsn_stop n), 0)))"
proof -
  have "\<exists>ev. bsn_start n = Inr ev \<and> length (filter (\<lambda>e. e = EnqueueTimer) ev) = 1"
    using assms(1) by (auto simp: bsn_start_def)
  moreover have "fire_timer (snd (bsn_stop n), Suc 0) = (n\<lparr>bn_rpc_server := None, bn_stopped := True\<rparr>, 0)"
    by (simp add: bsn_stop_def bsn_onTimer_def)
  ultimately show ?thesis
    using fire_running [OF assms(1), of k] fire_none [of j "snd (bsn_stop n)"] assms(2) by (simp add: bsn_stop_def)
qed

subsection \<open>Storing\<close>

text \<open>
  The fuller store is chosen: \<open>putBlockHelper\<close> is documented to store the block where there is
  most free space, and takes the other store. When one of the two is full and the other has room
  for a block, the block goes to the full one and is refused, and nothing changes.
\<close>

lemma full_store_is_preferred:
  assumes "numFreeBlocks bsA = 0" and "numFreeBlocks bsB \<noteq> 0"
  shows "putBlockHelper (\<lambda>st name data. putBlock P st w name data) name data bsA bsB (numFreeBlocks bsA) (numFreeBlocks bsB) =
      Inr (False, bsA, w) \<and>
    putBlockHelper (\<lambda>st name data. putBlock P st w name data) name data bsB bsA (numFreeBlocks bsB) (numFreeBlocks bsA) =
      Inr (False, bsA, w)"
proof -
  have "unat (fb_freeBlocks bsA) = 0" using assms(1) by (metis numFreeBlocks_def unat_0 unat_ucast_u32_u64)
  then have "fb_freeBlocks bsA = 0" by (simp add: unat_eq_zero)
  then have "putBlock P bsA w name data = Inr (False, bsA, w)" by (simp add: putBlock_def)
  moreover have "numFreeBlocks bsA < numFreeBlocks bsB" using assms by (simp add: word_neq_0_conv)
  ultimately show ?thesis by (auto simp: putBlockHelper_def dest: order_less_asym)
qed

text \<open>The entry points for blocks themselves: one always dereferences null, the other finds nothing.\<close>

lemma bsn_blocks_unimplemented:
  "bsn_putBlock free put n h name data = Inl NullDeref" "bsn_getBlock n name = None"
  by (simp_all add: bsn_putBlock_def findBestLocation_def bsn_getBlock_def)

text \<open>
  The registered \<open>addBlockStore\<close> has the node's own address bound where the caller's belongs, so a
  store announced by a peer is not added unless the node is its own peer.
\<close>

lemma announced_store_ignored:
  "map_of (bn_peers n) (PeerAddr (bn_host n) (bn_port n)) = None \<Longrightarrow> node_function n conn 1 [NId bsid] = Inr ([], n)"
  by (simp add: bsn_RPCAddBlockStore_def)

lemma unknown_peer_lost: "map_of (bn_peers n) addr = None \<Longrightarrow> bsn_RemovePeer n addr = Inl NullDeref"
  by (simp add: bsn_RemovePeer_def)

end
