(* ===== verification/Blockstore_Mesh.thy ===== *)
theory Blockstore_Mesh
  imports Blockstore_Daemon Discovery
begin

section \<open>The network of nodes\<close>

text \<open>
  Nodes at the addresses of a finite set, all reachable from each other, and the \<open>addPeer\<close> calls
  that were made and not yet handled, each with the node it is addressed to. The application makes a
  node add another; a call is handled by \<open>RPCAddPeer\<close> of the node it is addressed to, in any
  order. Connections are not lost. \<open>me_asked\<close> records what the application asked for.
\<close>

record mesh =
  me_node :: "PeerAddr \<Rightarrow> bsn_node"
  me_pending :: "(PeerAddr \<times> PeerAddr) list"
  me_asked :: "(PeerAddr \<times> PeerAddr) set"

text \<open>The addresses that a handler announced to the peer behind client \<open>c\<close>.\<close>

fun calls_on :: "bsn_client \<Rightarrow> bsn_event list \<Rightarrow> PeerAddr list" where
  "calls_on c [] = []"
| "calls_on c (ClientAddPeer x host port # ev) = (if x = c then [PeerAddr host port] else []) @ calls_on c ev"
| "calls_on c (_ # ev) = calls_on c ev"

definition mesh_start :: "(PeerAddr \<Rightarrow> bsn_node) \<Rightarrow> mesh" where
  "mesh_start f = \<lparr>me_node = f, me_pending = [], me_asked = {}\<rparr>"

inductive mesh_deliver :: "mesh \<Rightarrow> mesh \<Rightarrow> bool" where
  "me_pending m = xs @ (a, b) # ys \<Longrightarrow>
   bsn_RPCAddPeer (me_node m a) (Some c) (pa_host b) (pa_port b) = Inr (ret, ev, n) \<Longrightarrow>
   mesh_deliver m (m\<lparr>me_node := (me_node m)(a := n), me_pending := xs @ ys @ map (Pair b) (calls_on c ev)\<rparr>)"

inductive mesh_ask :: "PeerAddr set \<Rightarrow> mesh \<Rightarrow> mesh \<Rightarrow> bool" for A where
  "a \<in> A \<Longrightarrow> b \<in> A \<Longrightarrow> a \<noteq> b \<Longrightarrow>
   bsn_addPeer (me_node m a) (Some c) (pa_host b) (pa_port b) = Inr (ret, ev, n) \<Longrightarrow>
   mesh_ask A m (m\<lparr>me_node := (me_node m)(a := n), me_pending := me_pending m @ map (Pair b) (calls_on c ev),
                  me_asked := insert (a, b) (me_asked m)\<rparr>)"

text \<open>Every node of \<open>A\<close> starts without peers, at its own address.\<close>

definition fresh_nodes :: "PeerAddr set \<Rightarrow> (PeerAddr \<Rightarrow> bsn_node) \<Rightarrow> bool" where
  "fresh_nodes A f \<longleftrightarrow> (\<forall>a \<in> A. bn_host (f a) = pa_host a \<and> bn_port (f a) = pa_port a) \<and> (\<forall>a. bn_peers (f a) = [])"

inductive mesh_reach :: "PeerAddr set \<Rightarrow> mesh \<Rightarrow> bool" for A where
  start: "fresh_nodes A f \<Longrightarrow> mesh_reach A (mesh_start f)"
| ask: "mesh_reach A m \<Longrightarrow> mesh_ask A m m' \<Longrightarrow> mesh_reach A m'"
| deliver: "mesh_reach A m \<Longrightarrow> mesh_deliver m m' \<Longrightarrow> mesh_reach A m'"

definition mesh_run :: "PeerAddr set \<Rightarrow> mesh \<Rightarrow> mesh \<Rightarrow> bool" where
  "mesh_run A = (\<lambda>m m'. mesh_ask A m m' \<or> mesh_deliver m m')\<^sup>*\<^sup>*"

lemma mesh_run_reach: "mesh_run A m m' \<Longrightarrow> mesh_reach A m \<Longrightarrow> mesh_reach A m'"
  unfolding mesh_run_def
  by (induction rule: rtranclp_induct) (blast intro: mesh_reach.ask mesh_reach.deliver)+

lemma mesh_run_step: "mesh_ask A m m1 \<or> mesh_deliver m m1 \<Longrightarrow> mesh_run A m1 m' \<Longrightarrow> mesh_run A m m'"
  unfolding mesh_run_def by (rule converse_rtranclp_into_rtranclp)

lemma mesh_run_refl: "mesh_run A m m"
  by (simp add: mesh_run_def)

lemma mesh_run_trans: "mesh_run A m m1 \<Longrightarrow> mesh_run A m1 m' \<Longrightarrow> mesh_run A m m'"
  unfolding mesh_run_def by (rule rtranclp_trans)

definition peers_of :: "mesh \<Rightarrow> PeerAddr \<Rightarrow> PeerAddr set" where
  "peers_of m a = fst ` set (bn_peers (me_node m a))"

definition knows :: "mesh \<Rightarrow> (PeerAddr \<times> PeerAddr) set" where
  "knows m = {(a, b). b \<in> peers_of m a}"

lemma calls_on_append: "calls_on c (ev @ ev') = calls_on c ev @ calls_on c ev'"
  by (induction c ev rule: calls_on.induct) simp_all

lemma calls_on_map: "calls_on c (map (\<lambda>i. ClientAddPeer c (pa_host (g i)) (pa_port (g i))) xs) = map g xs"
  by (induction xs) simp_all

text \<open>One handled call, as seen from outside the node.\<close>

lemma add_peer_effect:
  assumes "bsn_RPCAddPeer n (Some c) (pa_host b) (pa_port b) = Inr (ret, ev, n')"
  shows "(b \<in> fst ` set (bn_peers n) \<and> ev = [] \<and> n' = n) \<or>
    (b \<notin> fst ` set (bn_peers n) \<and> fst ` set (bn_peers n') = insert b (fst ` set (bn_peers n)) \<and>
     set (calls_on c ev) = insert (PeerAddr (bn_host n) (bn_port n)) (fst ` set (bn_peers n)) \<and>
     bn_host n' = bn_host n \<and> bn_port n' = bn_port n)"
proof (cases "map_of (bn_peers n) b")
  case None
  then have "ev = [ClientStart c, ClientAddPeer c (bn_host n) (bn_port n), ClientSetDisconnect c b] @
        map (\<lambda>i. ClientAddPeer c (pa_host (fst i)) (pa_port (fst i))) (filter (\<lambda>i. fst i \<noteq> b) (bn_peers (joined n c b)))"
    and n': "n' = joined n c b"
    using bsn_RPCAddPeer_new [of n "pa_host b" "pa_port b" c] assms by simp_all
  then have "calls_on c ev = PeerAddr (bn_host n) (bn_port n) # map fst (filter (\<lambda>i. fst i \<noteq> b) (bn_peers n'))"
    by (simp add: calls_on_append calls_on_map)
  moreover have keys: "fst ` set (bn_peers n') = insert b (fst ` set (bn_peers n))"
    by (simp add: n' joined_def keys_map_store)
  moreover have new: "b \<notin> fst ` set (bn_peers n)" using None by (simp add: map_of_eq_None_iff)
  moreover have "fst ` {i \<in> set (bn_peers n'). fst i \<noteq> b} = fst ` set (bn_peers n') - {b}" by auto
  ultimately have "set (calls_on c ev) = insert (PeerAddr (bn_host n) (bn_port n)) (fst ` set (bn_peers n))"
    by auto
  with keys new show ?thesis by (simp add: n' joined_def)
next
  case (Some e)
  then have "b \<in> fst ` set (bn_peers n)" by (metis map_of_eq_None_iff option.distinct(1))
  with Some assms bsn_RPCAddPeer_known [of n "pa_host b" "pa_port b" "Some c"] show ?thesis by simp
qed

subsection \<open>The network refines peer discovery\<close>

definition mesh_disc :: "mesh \<Rightarrow> PeerAddr disc" where
  "mesh_disc m = \<lparr>dk_knows = knows m, dk_pending = set (me_pending m), dk_asked = me_asked m\<rparr>"

lemma knows_added:
  assumes "me_node m' = (me_node m)(a := n)" and "fst ` set (bn_peers n) = insert b (peers_of m a)"
  shows "knows m' = insert (a, b) (knows m)"
proof -
  have "peers_of m' x = (if x = a then insert b (peers_of m a) else peers_of m x)" for x
    using assms by (simp add: peers_of_def)
  then show ?thesis by (auto simp: knows_def split: if_splits)
qed

definition placed :: "PeerAddr set \<Rightarrow> mesh \<Rightarrow> bool" where
  "placed A m \<longleftrightarrow> (\<forall>a \<in> A. bn_host (me_node m a) = pa_host a \<and> bn_port (me_node m a) = pa_port a)"

text \<open>A handled call in the terms of the abstract system.\<close>

lemma handled_call:
  assumes "placed A m" and a: "a \<in> A" and node: "me_node m' = (me_node m)(a := n)"
    and call: "bsn_RPCAddPeer (me_node m a) (Some c) (pa_host b) (pa_port b) = Inr (ret, ev, n)"
  shows "knows m' = insert (a, b) (knows m)" and "set (calls_on c ev) = announced (mesh_disc m) a b" and "placed A m'"
proof -
  let ?P = "peers_of m a"
  have self: "PeerAddr (bn_host (me_node m a)) (bn_port (me_node m a)) = a" using assms(1) a by (simp add: placed_def)
  have eff: "(b \<in> ?P \<and> set (calls_on c ev) = {} \<and> n = me_node m a) \<or>
      (b \<notin> ?P \<and> fst ` set (bn_peers n) = insert b ?P \<and> set (calls_on c ev) = insert a ?P)"
    and same: "bn_host n = bn_host (me_node m a)" "bn_port n = bn_port (me_node m a)"
    using add_peer_effect [OF call] self by (auto simp: peers_of_def)
  have "fst ` set (bn_peers n) = insert b ?P" using eff by (metis insert_absorb peers_of_def)
  then show "knows m' = insert (a, b) (knows m)" by (rule knows_added [OF node])
  have "?P = knows m `` {a}" "b \<in> ?P \<longleftrightarrow> (a, b) \<in> knows m" by (auto simp: knows_def)
  with eff show "set (calls_on c ev) = announced (mesh_disc m) a b" by (auto simp: announced_def mesh_disc_def)
  show "placed A m'" using assms(1) same by (simp add: placed_def node)
qed

lemma mesh_refines: "mesh_reach A m \<Longrightarrow> disc_reach A (mesh_disc m) \<and> placed A m"
proof (induction rule: mesh_reach.induct)
  case (start f)
  then have "mesh_disc (mesh_start f) = disc_start"
    by (auto simp: mesh_disc_def mesh_start_def fresh_nodes_def knows_def peers_of_def disc_start_def)
  with start show ?case by (simp add: disc_reach.start placed_def mesh_start_def fresh_nodes_def)
next
  case (ask m m')
  from ask(2) show ?case
  proof cases
    case (1 a b c ret ev n)
    have node: "me_node m' = (me_node m)(a := n)" using 1(1) by simp
    note call = handled_call [OF conjunct2 [OF ask(3)] 1(2) node 1(5) [unfolded bsn_addPeer_def]]
    have "mesh_disc m' = \<lparr>dk_knows = insert (a, b) (dk_knows (mesh_disc m)),
        dk_pending = dk_pending (mesh_disc m) \<union> Pair b ` announced (mesh_disc m) a b,
        dk_asked = insert (a, b) (dk_asked (mesh_disc m))\<rparr>"
      using 1(1) call(1,2) by (simp add: mesh_disc_def)
    then have "disc_step A (mesh_disc m) (mesh_disc m')" using disc_step.ask [OF 1(2-4)] by simp
    with ask(3) call(3) show ?thesis by (blast intro: disc_reach.step)
  qed
next
  case (deliver m m')
  from deliver(2) show ?case
  proof cases
    case (1 xs a b ys c ret ev n)
    have node: "me_node m' = (me_node m)(a := n)" and asked: "me_asked m' = me_asked m" using 1(1) by simp_all
    have ab: "(a, b) \<in> dk_pending (mesh_disc m)" using 1(2) by (simp add: mesh_disc_def)
    then have "a \<in> A" using disc_reach_inv deliver(3) by (fastforce simp: disc_inv_def told_def)
    note call = handled_call [OF conjunct2 [OF deliver(3)] this node 1(3)]
    have "insert (a, b) (set (me_pending m')) = dk_pending (mesh_disc m) \<union> Pair b ` announced (mesh_disc m) a b"
      using 1(1,2) call(2) by (auto simp: mesh_disc_def)
    from disc_step.deliver [OF ab this, of A] have "disc_step A (mesh_disc m) (mesh_disc m')"
      using call(1) asked by (simp add: mesh_disc_def)
    with deliver(3) call(3) show ?thesis by (blast intro: disc_reach.step)
  qed
qed

lemma mesh_reach_inv: "mesh_reach A m \<Longrightarrow> disc_inv A (mesh_disc m)"
  using mesh_refines disc_reach_inv by blast

subsection \<open>Properties\<close>

lemma quiet_links:
  assumes "mesh_reach A m" and "me_pending m = []" and "a \<noteq> b"
  shows "b \<in> peers_of m a \<longleftrightarrow> (a, b) \<in> links (mesh_disc m)"
  using disc_quiet [OF mesh_reach_inv [OF assms(1)] _ assms(3)] assms(2) by (simp add: mesh_disc_def knows_def)

text \<open>
  C3. Peer discovery builds the full mesh: once all \<open>addPeer\<close> calls are handled, in whatever order,
  two different nodes are peers of each other exactly when the application connected them, directly
  or through other nodes.
\<close>

theorem peers_form_full_mesh:
  assumes "mesh_reach A m" and "me_pending m = []" and "a \<noteq> b"
  shows "b \<in> peers_of m a \<longleftrightarrow> (a, b) \<in> (me_asked m \<union> (me_asked m)\<inverse>)\<^sup>+"
  using quiet_links [OF assms] by (simp add: links_def mesh_disc_def)

lemma call_returns: "\<exists>ret ev n'. bsn_RPCAddPeer n (Some c) (pa_host b) (pa_port b) = Inr (ret, ev, n')"
proof (cases "map_of (bn_peers n) b")
  case None
  then show ?thesis using bsn_RPCAddPeer_new [of n "pa_host b" "pa_port b" c] by auto
next
  case (Some e)
  then show ?thesis using bsn_RPCAddPeer_known [of n "pa_host b" "pa_port b" "Some c"] by auto
qed

lemma deliver_possible: "me_pending m \<noteq> [] \<Longrightarrow> \<exists>m'. mesh_deliver m m'"
proof -
  assume "me_pending m \<noteq> []"
  then obtain a b ys where p: "me_pending m = [] @ (a, b) # ys" by (metis append_Nil list.exhaust surj_pair)
  obtain ret ev n where "bsn_RPCAddPeer (me_node m a) (Some 0) (pa_host b) (pa_port b) = Inr (ret, ev, n)"
    using call_returns by blast
  from mesh_deliver.intros [OF p this] show ?thesis by blast
qed

definition mesh_order :: "PeerAddr set \<Rightarrow> (mesh \<times> mesh) set" where
  "mesh_order A = measures [\<lambda>m. card (A \<times> A - knows m), \<lambda>m. length (me_pending m)]"

lemma wf_mesh_order: "wf (mesh_order A)"
  by (simp add: mesh_order_def)

lemma deliver_decreases:
  assumes "finite A" and inv: "disc_inv A (mesh_disc m)" and "mesh_deliver m m'"
  shows "(m', m) \<in> mesh_order A"
  using assms(3)
proof cases
  case (1 xs a b ys c ret ev n)
  from add_peer_effect [OF 1(3)] consider
    (known) "ev = []" "n = me_node m a" | (new) "b \<notin> peers_of m a" "fst ` set (bn_peers n) = insert b (peers_of m a)"
    by (auto simp: peers_of_def)
  then show ?thesis
  proof cases
    case known
    then have "knows m' = knows m" using 1(1) by (simp add: knows_def peers_of_def)
    then show ?thesis using 1(1,2) known by (simp add: mesh_order_def)
  next
    case new
    then have "knows m' = insert (a, b) (knows m)"
      by (intro knows_added [of _ _ _ n]) (simp_all add: 1(1))
    moreover have "(a, b) \<in> dk_pending (mesh_disc m)" "(a, b) \<notin> dk_knows (mesh_disc m)"
      using 1(2) new(1) by (simp_all add: mesh_disc_def knows_def)
    ultimately show ?thesis
      using disc_decreases [OF assms(1) inv] by (simp add: mesh_order_def mesh_disc_def)
  qed
qed

text \<open>
  C17. Peer discovery ends: in a finite network no infinite sequence of handled calls exists, and as
  long as a call is pending one can be handled, so the mesh is reached.
\<close>

theorem peer_discovery_terminates:
  assumes "finite A"
  shows "wf {(m', m). mesh_reach A m \<and> mesh_deliver m m'} \<and>
    (\<forall>m. me_pending m \<noteq> [] \<longrightarrow> (\<exists>m'. mesh_deliver m m'))"
proof (intro conjI allI impI)
  show "wf {(m', m). mesh_reach A m \<and> mesh_deliver m m'}"
  proof (rule wf_subset)
    show "wf (mesh_order A)" by (rule wf_mesh_order)
    show "{(m', m). mesh_reach A m \<and> mesh_deliver m m'} \<subseteq> mesh_order A"
      using deliver_decreases [OF assms] mesh_reach_inv by auto
  qed
  fix m :: mesh assume "me_pending m \<noteq> []"
  then show "\<exists>m'. mesh_deliver m m'" by (rule deliver_possible)
qed

text \<open>Two nodes, of which one was asked to add the other, and the two calls that follow.\<close>

definition addr_a :: PeerAddr where "addr_a = PeerAddr ''h'' 1"
definition addr_b :: PeerAddr where "addr_b = PeerAddr ''h'' 2"

definition example_nodes :: "PeerAddr \<Rightarrow> bsn_node" where
  "example_nodes x = \<lparr>bn_host = pa_host x, bn_port = pa_port x, bn_stopped = False, bn_rpc_server = None,
     bn_peers = [], bn_blockstores = []\<rparr>"

definition example_mesh :: mesh where
  "example_mesh = \<lparr>me_node = example_nodes(addr_a := joined (example_nodes addr_a) 5 addr_b, addr_b := joined (example_nodes addr_b) 6 addr_a),
     me_pending = [], me_asked = {(addr_a, addr_b)}\<rparr>"

lemma addr_ab: "addr_a \<noteq> addr_b" by (simp add: addr_a_def addr_b_def)

lemma example_add:
  assumes "bn_peers n = []"
  shows "bsn_RPCAddPeer n (Some c) (pa_host b) (pa_port b) = Inr (AnswerTo c,
    [ClientStart c, ClientAddPeer c (bn_host n) (bn_port n), ClientSetDisconnect c b], joined n c b)"
proof -
  have "filter (\<lambda>i. fst i \<noteq> b) (bn_peers (joined n c b)) = []" by (simp add: joined_def assms)
  then show ?thesis
    using bsn_RPCAddPeer_new [of n "pa_host b" "pa_port b" c] assms by simp
qed

lemma example_mesh_reach: "mesh_reach {addr_a, addr_b} example_mesh"
proof -
  let ?f = "example_nodes(addr_a := joined (example_nodes addr_a) 5 addr_b)"
  let ?m1 = "\<lparr>me_node = ?f, me_pending = [(addr_b, addr_a)], me_asked = {(addr_a, addr_b)}\<rparr>"
  let ?m2 = "example_mesh\<lparr>me_pending := [(addr_a, addr_b)]\<rparr>"
  have empty: "bn_peers (example_nodes x) = []" for x by (simp add: example_nodes_def)
  have addr: "PeerAddr (bn_host (example_nodes x)) (bn_port (example_nodes x)) = x" for x by (simp add: example_nodes_def)
  have 0: "mesh_reach {addr_a, addr_b} (mesh_start example_nodes)"
    by (rule mesh_reach.start) (simp add: fresh_nodes_def example_nodes_def)
  have "mesh_ask {addr_a, addr_b} (mesh_start example_nodes) ?m1"
    using mesh_ask.intros [of addr_a "{addr_a, addr_b}" addr_b "mesh_start example_nodes" 5] addr_ab
      example_add [OF empty, of addr_a 5 addr_b] addr by (simp add: mesh_start_def bsn_addPeer_def)
  then have 1: "mesh_reach {addr_a, addr_b} ?m1" by (rule mesh_reach.ask [OF 0])
  have "mesh_deliver ?m1 ?m2"
    using mesh_deliver.intros [of ?m1 "[]" addr_b addr_a "[]" 6] addr_ab
      example_add [OF empty, of addr_b 6 addr_a] addr by (simp add: example_mesh_def)
  then have 2: "mesh_reach {addr_a, addr_b} ?m2" by (rule mesh_reach.deliver [OF 1])
  have "map_of (bn_peers (me_node ?m2 addr_a)) addr_b \<noteq> None"
    using addr_ab by (simp add: example_mesh_def joined_def map_of_map_store)
  then have "bsn_RPCAddPeer (me_node ?m2 addr_a) (Some 7) (pa_host addr_b) (pa_port addr_b) =
      Inr (Known True, [], me_node ?m2 addr_a)"
    using bsn_RPCAddPeer_known [of "me_node ?m2 addr_a" "pa_host addr_b" "pa_port addr_b" "Some 7"] by simp
  from mesh_deliver.intros [of ?m2 "[]" addr_a addr_b "[]", OF _ this, unfolded fun_upd_triv] have "mesh_deliver ?m2 example_mesh"
    by (simp add: example_mesh_def)
  then show ?thesis by (rule mesh_reach.deliver [OF 2])
qed

theorem peers_form_full_mesh_witness: "addr_a \<in> peers_of example_mesh addr_b"
proof -
  have "me_pending example_mesh = []" "me_asked example_mesh = {(addr_a, addr_b)}" by (simp_all add: example_mesh_def)
  moreover have "(addr_b, addr_a) \<in> ({(addr_a, addr_b)} \<union> {(addr_a, addr_b)}\<inverse>)\<^sup>+" by blast
  ultimately show ?thesis
    using peers_form_full_mesh [OF example_mesh_reach, of addr_b addr_a] addr_ab by simp
qed

theorem peer_discovery_terminates_witness:
  "wf {(m', m). mesh_reach {addr_a, addr_b} m \<and> mesh_deliver m m'}"
  using peer_discovery_terminates [of "{addr_a, addr_b}"] by simp

subsection \<open>The nodes of \<open>main\<close>\<close>

text \<open>
  The peers \<open>main\<close> makes its five nodes add; \<open>ports\<close> are the ports the nodes came to listen on.
\<close>

definition main_addr :: "u16 list \<Rightarrow> nat \<Rightarrow> PeerAddr" where
  "main_addr ports i = PeerAddr ''127.0.0.1'' (ports ! i)"

definition main_asks :: "u16 list \<Rightarrow> (PeerAddr \<times> PeerAddr) list" where
  "main_asks ports =
     [(main_addr ports 0, main_addr ports 1), (main_addr ports 1, main_addr ports 2),
      (main_addr ports 2, main_addr ports 3), (main_addr ports 3, main_addr ports 4),
      (main_addr ports 4, main_addr ports 0)]"

lemma main_links:
  assumes "me_asked m = set (main_asks ports)" and "i < j" and "j < 5"
  shows "(main_addr ports i, main_addr ports j) \<in> links (mesh_disc m)"
  using assms(2,3)
proof (induction j)
  case (Suc j)
  then have "j = 0 \<or> j = 1 \<or> j = 2 \<or> j = 3" by linarith
  then have "(main_addr ports j, main_addr ports (Suc j)) \<in> me_asked m"
    unfolding assms(1) main_asks_def by (auto simp: numeral_eq_Suc)
  then have edge: "(main_addr ports j, main_addr ports (Suc j)) \<in> links (mesh_disc m)"
    by (intro links_asked) (simp add: mesh_disc_def)
  show ?case
  proof (cases "i = j")
    case False
    then show ?thesis using Suc links_trans [OF _ edge] by simp
  qed (use edge in simp)
qed simp

text \<open>
  The program's own network: when the five nodes listen on different ports and the calls that
  \<open>main\<close> started are all handled, every node has exactly the other four as its peers.
\<close>

lemma main_connects_all_nodes:
  assumes "distinct ports" and "length ports = 5" and "mesh_reach (main_addr ports ` {0..<5}) m"
    and "me_asked m = set (main_asks ports)" and "me_pending m = []" and "i < 5"
  shows "peers_of m (main_addr ports i) = main_addr ports ` ({0..<5} - {i})"
proof -
  let ?A = "main_addr ports ` {0..<5}"
  note inv = mesh_reach_inv [OF assms(3)]
  have neq: "main_addr ports j \<noteq> main_addr ports k" if "j < 5" "k < 5" "j \<noteq> k" for j k
    using that assms(1,2) by (simp add: main_addr_def nth_eq_iff_index_eq)
  have peer: "main_addr ports j \<in> peers_of m (main_addr ports i)" if "j < 5" "j \<noteq> i" for j
  proof -
    have "(main_addr ports i, main_addr ports j) \<in> links (mesh_disc m)"
      using main_links [OF assms(4), of i j] main_links [OF assms(4), of j i, THEN links_sym] that assms(6)
      by (cases "i < j") auto
    with quiet_links [OF assms(3,5) neq [OF assms(6) that(1)]] that(2) show ?thesis by simp
  qed
  have "x \<in> main_addr ports ` ({0..<5} - {i})" if "x \<in> peers_of m (main_addr ports i)" for x
  proof -
    have "(main_addr ports i, x) \<in> told (mesh_disc m)" using that by (simp add: told_def knows_def mesh_disc_def)
    then have "x \<in> ?A" "x \<noteq> main_addr ports i" using inv by (auto simp: disc_inv_def)
    then show ?thesis by auto
  qed
  then have "peers_of m (main_addr ports i) \<subseteq> main_addr ports ` ({0..<5} - {i})" by blast
  moreover have "main_addr ports ` ({0..<5} - {i}) \<subseteq> peers_of m (main_addr ports i)"
    by (auto intro: peer)
  ultimately show ?thesis by blast
qed

lemma ask_possible:
  assumes "a \<in> A" and "b \<in> A" and "a \<noteq> b"
  shows "\<exists>m'. mesh_ask A m m' \<and> me_asked m' = insert (a, b) (me_asked m)"
proof -
  obtain ret ev n where "bsn_addPeer (me_node m a) (Some 0) (pa_host b) (pa_port b) = Inr (ret, ev, n)"
    using call_returns unfolding bsn_addPeer_def by blast
  from mesh_ask.intros [OF assms this] show ?thesis by force
qed

lemma asks_possible:
  "set asks \<subseteq> A \<times> A \<Longrightarrow> \<forall>x \<in> set asks. fst x \<noteq> snd x \<Longrightarrow>
   \<exists>m'. mesh_run A m m' \<and> me_asked m' = me_asked m \<union> set asks"
proof (induction asks arbitrary: m)
  case Nil
  then show ?case using mesh_run_refl by force
next
  case (Cons x asks)
  then obtain m1 where m1: "mesh_ask A m m1" "me_asked m1 = insert x (me_asked m)"
    using ask_possible [of "fst x" A "snd x" m] by auto
  from Cons.IH [of m1] Cons.prems obtain m' where "mesh_run A m1 m'" "me_asked m' = me_asked m1 \<union> set asks" by auto
  with m1 mesh_run_step [of A m m1 m'] show ?case by auto
qed

lemma comes_to_rest:
  assumes "finite A"
  shows "mesh_reach A m \<Longrightarrow> \<exists>m'. mesh_run A m m' \<and> me_asked m' = me_asked m \<and> me_pending m' = []"
proof (induction m rule: wf_induct_rule [OF wf_mesh_order [of A]])
  case (1 m)
  show ?case
  proof (cases "\<exists>m'. mesh_deliver m m'")
    case True
    then obtain m1 where m1: "mesh_deliver m m1" by blast
    then have "me_asked m1 = me_asked m" by cases simp
    moreover obtain m' where "mesh_run A m1 m'" "me_asked m' = me_asked m1" "me_pending m' = []"
      using 1(1) [OF deliver_decreases [OF assms mesh_reach_inv [OF 1(2)] m1] mesh_reach.deliver [OF 1(2) m1]] by blast
    ultimately show ?thesis using mesh_run_step m1 by metis
  next
    case False
    then have "me_pending m = []" using deliver_possible by blast
    then show ?thesis using mesh_run_refl by blast
  qed
qed

end
