(* ===== verification/Blockstore_Main.thy ===== *)
theory Blockstore_Main
  imports Blockstore_Mesh
begin

section \<open>The daemon (\<open>main\<close> of \<open>blockstore/blockstore_daemon.cc\<close>)\<close>

text \<open>
  \<open>main\<close> makes five nodes, adds six local stores, starts the nodes and introduces each to the next;
  then it sleeps forever. A node is known by its place, \<open>0\<close> for \<open>bsn1\<close>. The numbers \<open>rand\<close> gives to the
  constructor of each node are an argument; a port on which a node listens cannot be listened on
  again. The calls \<open>main_asks\<close> and everything they cause are steps of the network of
  \<open>Blockstore_Mesh\<close>. The calls of \<open>stop\<close> after the endless loop are never reached.
\<close>

fun main_nodes :: "(u16 \<Rightarrow> bool) \<Rightarrow> nat list list \<Rightarrow> bsn_node list option" where
  "main_nodes listen [] = Some []"
| "main_nodes listen (rands # others) =
     (case new_node listen ''127.0.0.1'' rands of
        None \<Rightarrow> None
      | Some n \<Rightarrow> map_option ((#) n) (main_nodes (\<lambda>p. p \<noteq> bn_port n \<and> listen p) others))"

definition main_stores :: "(nat \<times> u64 \<times> string) list" where
  "main_stores =
     [(0, 0x01234567, ''./01234567/''), (0, 0x89abcdef, ''./89abcdef/''),
      (1, 0x00112233, ''./00112233/''), (1, 0x44556677, ''./44556677/''),
      (2, 0x8899aabb, ''./8899aabb/''), (2, 0xccddeeff, ''./ccddeeff/'')]"

definition main_add_store :: "'w posix \<Rightarrow> 'w \<Rightarrow> bsn_node list \<Rightarrow> nat \<times> u64 \<times> string \<Rightarrow> bsn_node list res" where
  "main_add_store P w nodes x =
     rbind (bsn_addBlockStore P (nodes ! fst x) (fst (snd x)) (snd (snd x)) w) (\<lambda>n. Inr (nodes[fst x := n]))"

definition main_start :: "bsn_node list \<Rightarrow> (u16 \<times> bsn_event) list res" where
  "main_start nodes =
     rfold (\<lambda>ev n. rbind (bsn_start n) (\<lambda>e. Inr (ev @ map (Pair (bn_port n)) e))) [] nodes"

text \<open>\<open>main\<close> up to the calls of \<open>addPeer\<close>; \<open>None\<close> when the random numbers do not lead to five ports.\<close>

definition daemon_setup ::
  "'w posix \<Rightarrow> (u16 \<Rightarrow> bool) \<Rightarrow> nat list list \<Rightarrow> 'w \<Rightarrow> ((u16 \<times> bsn_event) list \<times> bsn_node list) res option" where
  "daemon_setup P listen rands w =
     (case main_nodes listen rands of
        None \<Rightarrow> None
      | Some nodes \<Rightarrow> Some (
          rbind (rfold (main_add_store P w) nodes main_stores) (\<lambda>nodes.
          rbind (main_start nodes) (\<lambda>ev. Inr (ev, nodes)))))"

subsection \<open>Five nodes on five ports\<close>

lemma main_nodes_fresh:
  "main_nodes listen rands = Some nodes \<Longrightarrow> length nodes = length rands \<and> distinct (map bn_port nodes) \<and>
    (\<forall>n \<in> set nodes. listen (bn_port n) \<and> bn_host n = ''127.0.0.1'' \<and> bn_peers n = [] \<and> bn_blockstores n = [] \<and> bn_rpc_server n \<noteq> None)"
proof (induction listen rands arbitrary: nodes rule: main_nodes.induct)
  case (2 listen rands others)
  from 2(2) obtain n ns where n: "new_node listen ''127.0.0.1'' rands = Some n"
    "main_nodes (\<lambda>p. p \<noteq> bn_port n \<and> listen p) others = Some ns" "nodes = n # ns"
    by (auto split: option.splits)
  from 2(1) [OF n(1,2)] new_node_fields [OF n(1)] show ?case by (auto simp: n(3))
qed simp

subsection \<open>The stores of a node\<close>

text \<open>The node has exactly the stores \<open>S\<close>, all of them local, sound, and with blocks of 64k.\<close>

definition has_stores :: "bsn_node \<Rightarrow> (u64 \<times> string) set \<Rightarrow> bool" where
  "has_stores n S \<longleftrightarrow> fst ` set (bn_blockstores n) = fst ` S \<and>
     (\<forall>bsid path. (bsid, path) \<in> S \<longrightarrow> (\<exists>st. map_of (bn_blockstores n) bsid = Some (LocalStore st) \<and>
        fb_ok st \<and> fb_path st = path \<and> fb_blocksize st = 65536))"

definition but_stores :: "bsn_node \<Rightarrow> bsn_node" where
  "but_stores n = n\<lparr>bn_blockstores := []\<rparr>"

lemma but_stores_sel:
  "bn_host (but_stores n) = bn_host n" "bn_port (but_stores n) = bn_port n" "bn_peers (but_stores n) = bn_peers n"
  "bn_rpc_server (but_stores n) = bn_rpc_server n"
  by (simp_all add: but_stores_def)

lemma has_stores_add:
  assumes "has_stores n S" and "bsid \<notin> fst ` S" and "path \<noteq> []" and "CHR 0x00 \<notin> set path"
  obtains n' where "bsn_addBlockStore P n bsid path w = Inr n'" "has_stores n' (insert (bsid, path) S)" "but_stores n' = but_stores n"
proof -
  obtain bf where bf: "new_bloomfilter = Inr bf" using new_bloomfilter_empty by blast
  from regenerate_ok [of "\<lparr>fb_dir = None, fb_blocksize = 65536, fb_path = path, fb_bloomfilter = bf, fb_blockset = {},
      fb_freeBlocks = 0, fb_usedBlocks = 0\<rparr>" P w] assms(3,4)
  obtain st where st: "new_fileblockstore P path 65536 w = Inr st" "fb_ok st" "fb_path st = path" "fb_blocksize st = 65536"
    by (auto simp: new_fileblockstore_def bf)
  let ?n = "n\<lparr>bn_blockstores := map_store bsid (LocalStore st) (bn_blockstores n)\<rparr>"
  have "bsn_addBlockStore P n bsid path w = Inr ?n" by (simp add: bsn_addBlockStore_def default_blocksize_def st(1))
  moreover have "has_stores ?n (insert (bsid, path) S)"
    unfolding has_stores_def
  proof (intro conjI allI impI)
    fix b p assume "(b, p) \<in> insert (bsid, path) S"
    then consider "b = bsid" "p = path" | "(b, p) \<in> S" "b \<noteq> bsid" using assms(2) by force
    then show "\<exists>st. map_of (bn_blockstores ?n) b = Some (LocalStore st) \<and> fb_ok st \<and> fb_path st = p \<and> fb_blocksize st = 65536"
      using assms(1) st by cases (auto simp: has_stores_def map_of_map_store)
  qed (use assms(1) in \<open>simp add: has_stores_def keys_map_store\<close>)
  ultimately show thesis by (rule that) (simp add: but_stores_def)
qed

text \<open>The stores each node is meant to have: \<open>bsn4\<close> and \<open>bsn5\<close> have none.\<close>

definition main_dirs :: "nat \<Rightarrow> (u64 \<times> string) set" where
  "main_dirs i =
     (if i = 0 then {(0x01234567, ''./01234567/''), (0x89abcdef, ''./89abcdef/'')}
      else if i = 1 then {(0x00112233, ''./00112233/''), (0x44556677, ''./44556677/'')}
      else if i = 2 then {(0x8899aabb, ''./8899aabb/''), (0xccddeeff, ''./ccddeeff/'')}
      else {})"

lemma main_dirs_stores: "snd ` {x \<in> set main_stores. fst x = i} = main_dirs i"
proof -
  have "snd ` {x \<in> set main_stores. fst x = i} = set (map snd (filter (\<lambda>x. fst x = i) main_stores))" by simp
  also have "\<dots> = main_dirs i" by (simp add: main_stores_def main_dirs_def)
  finally show ?thesis .
qed

lemma add_stores:
  "\<forall>x \<in> set L. fst x < length nodes \<and> snd (snd x) \<noteq> [] \<and> CHR 0x00 \<notin> set (snd (snd x)) \<Longrightarrow>
   distinct (map (\<lambda>x. fst (snd x)) L) \<Longrightarrow> \<forall>i < length nodes. has_stores (nodes ! i) (S i) \<Longrightarrow>
   \<forall>x \<in> set L. \<forall>i. fst (snd x) \<notin> fst ` S i \<Longrightarrow>
   \<exists>nodes'. rfold (main_add_store P w) nodes L = Inr nodes' \<and> map but_stores nodes' = map but_stores nodes \<and>
     (\<forall>i < length nodes. has_stores (nodes' ! i) (S i \<union> snd ` {x \<in> set L. fst x = i}))"
proof (induction L arbitrary: nodes S)
  case (Cons x L)
  let ?i = "fst x" and ?bsid = "fst (snd x)" and ?path = "snd (snd x)"
  have x: "?i < length nodes" "?path \<noteq> []" "CHR 0x00 \<notin> set ?path" "?bsid \<notin> fst ` S ?i" "has_stores (nodes ! ?i) (S ?i)"
    using Cons.prems by simp_all
  obtain n where n: "bsn_addBlockStore P (nodes ! ?i) ?bsid ?path w = Inr n" "has_stores n (insert (?bsid, ?path) (S ?i))"
    "but_stores n = but_stores (nodes ! ?i)" by (rule has_stores_add [OF x(5,4,2,3)])
  let ?nodes = "nodes[?i := n]" and ?S = "S(?i := insert (snd x) (S ?i))"
  have "\<forall>i < length ?nodes. has_stores (?nodes ! i) (?S i)" using Cons.prems(3) n(2) x(1) by (simp add: nth_list_update)
  moreover have "\<forall>y \<in> set L. \<forall>i. fst (snd y) \<notin> fst ` ?S i" 
  proof (intro ballI allI)
    fix y i assume y: "y \<in> set L"
    then have "fst (snd y) \<noteq> ?bsid" using Cons.prems(2) by (auto simp: image_iff)
    then show "fst (snd y) \<notin> fst ` ?S i" using y Cons.prems(4) by (auto simp: fun_upd_def split: if_splits)
  qed
  ultimately obtain nodes' where nodes': "rfold (main_add_store P w) ?nodes L = Inr nodes'"
    "map but_stores nodes' = map but_stores ?nodes" "\<forall>i < length nodes. has_stores (nodes' ! i) (?S i \<union> snd ` {y \<in> set L. fst y = i})"
    using Cons.IH [of ?nodes ?S] Cons.prems(1,2) by auto
  have "main_add_store P w nodes x = Inr ?nodes" using n(1) by (simp add: main_add_store_def)
  moreover have "map but_stores ?nodes = map but_stores nodes" by (metis list_update_id map_update n(3))
  moreover have "?S i \<union> snd ` {y \<in> set L. fst y = i} = S i \<union> snd ` {y \<in> set (x # L). fst y = i}" for i by auto
  ultimately show ?case using nodes' by auto
qed simp

lemma start_all:
  "\<forall>n \<in> set nodes. bn_rpc_server n \<noteq> None \<Longrightarrow>
   main_start nodes = Inr (concat (map (\<lambda>n. [(bn_port n, EnqueueTimer), (bn_port n, ServerStart)]) nodes))"
proof -
  assume "\<forall>n \<in> set nodes. bn_rpc_server n \<noteq> None"
  then have "rfold (\<lambda>ev n. rbind (bsn_start n) (\<lambda>e. Inr (ev @ map (Pair (bn_port n)) e))) ev nodes =
      Inr (ev @ concat (map (\<lambda>n. [(bn_port n, EnqueueTimer), (bn_port n, ServerStart)]) nodes))" for ev
    by (induction nodes arbitrary: ev) (auto simp: bsn_start_def)
  then show ?thesis by (simp add: main_start_def)
qed

text \<open>What \<open>main\<close> has made before it introduces the nodes to each other.\<close>

definition set_up :: "bsn_node list \<Rightarrow> bool" where
  "set_up nodes \<longleftrightarrow> length nodes = 5 \<and> distinct (map bn_port nodes) \<and>
     (\<forall>i < 5. bn_host (nodes ! i) = ''127.0.0.1'' \<and> bn_peers (nodes ! i) = [] \<and> has_stores (nodes ! i) (main_dirs i))"

lemma but_stores_eq:
  assumes "map but_stores nodes' = map but_stores nodes"
  shows "length nodes' = length nodes" "map bn_port nodes' = map bn_port nodes"
    "i < length nodes \<Longrightarrow> bn_host (nodes' ! i) = bn_host (nodes ! i) \<and> bn_peers (nodes' ! i) = bn_peers (nodes ! i) \<and>
       bn_rpc_server (nodes' ! i) = bn_rpc_server (nodes ! i)"
proof -
  show len: "length nodes' = length nodes" using map_eq_imp_length_eq [OF assms] .
  have eq: "but_stores (nodes' ! i) = but_stores (nodes ! i)" if "i < length nodes" for i
    using assms len that by (metis nth_map)
  then have all: "bn_host (nodes' ! i) = bn_host (nodes ! i) \<and> bn_peers (nodes' ! i) = bn_peers (nodes ! i) \<and>
      bn_rpc_server (nodes' ! i) = bn_rpc_server (nodes ! i) \<and> bn_port (nodes' ! i) = bn_port (nodes ! i)" if "i < length nodes" for i
    using eq [OF that] but_stores_sel by metis
  show "map bn_port nodes' = map bn_port nodes" by (rule nth_equalityI) (use len all in auto)
  show "i < length nodes \<Longrightarrow> bn_host (nodes' ! i) = bn_host (nodes ! i) \<and> bn_peers (nodes' ! i) = bn_peers (nodes ! i) \<and>
       bn_rpc_server (nodes' ! i) = bn_rpc_server (nodes ! i)" using all by blast
qed

lemma daemon_set_up:
  assumes "main_nodes listen rands = Some nodes" and "length rands = 5"
  obtains ev nodes' where "daemon_setup P listen rands w = Some (Inr (ev, nodes'))" "set_up nodes'"
    "map bn_port nodes' = map bn_port nodes"
    "ev = concat (map (\<lambda>n. [(bn_port n, EnqueueTimer), (bn_port n, ServerStart)]) nodes')"
proof -
  have fresh: "length nodes = 5" "distinct (map bn_port nodes)"
    and node: "\<And>n. n \<in> set nodes \<Longrightarrow> bn_host n = ''127.0.0.1'' \<and> bn_peers n = [] \<and> bn_blockstores n = [] \<and> bn_rpc_server n \<noteq> None"
    using main_nodes_fresh [OF assms(1)] assms(2) by auto
  have "\<forall>i < length nodes. has_stores (nodes ! i) {}" using node by (simp add: has_stores_def)
  moreover have "\<forall>x \<in> set main_stores. fst x < length nodes \<and> snd (snd x) \<noteq> [] \<and> CHR 0x00 \<notin> set (snd (snd x))"
    "distinct (map (\<lambda>x. fst (snd x)) main_stores)" using fresh(1) by (simp_all add: main_stores_def)
  ultimately obtain nodes' where
    nodes': "rfold (main_add_store P w) nodes main_stores = Inr nodes'" "map but_stores nodes' = map but_stores nodes"
      "\<forall>i < 5. has_stores (nodes' ! i) (main_dirs i)"
    using add_stores [of main_stores nodes "\<lambda>i. {}" P w] fresh(1) by (auto simp: main_dirs_stores)
  note same = but_stores_eq [OF nodes'(2)]
  have ok: "bn_host (nodes' ! i) = ''127.0.0.1'' \<and> bn_peers (nodes' ! i) = [] \<and> bn_rpc_server (nodes' ! i) \<noteq> None" if "i < 5" for i
    using same(3) [of i] node [of "nodes ! i"] that fresh(1) by auto
  then have "\<forall>n \<in> set nodes'. bn_rpc_server n \<noteq> None" using same(1) fresh(1) by (auto simp: in_set_conv_nth)
  from start_all [OF this] nodes'(1) assms(1) have
    "daemon_setup P listen rands w =
      Some (Inr (concat (map (\<lambda>n. [(bn_port n, EnqueueTimer), (bn_port n, ServerStart)]) nodes'), nodes'))"
    by (simp add: daemon_setup_def)
  moreover have "set_up nodes'" using ok nodes'(3) same(1,2) fresh by (simp add: set_up_def)
  ultimately show thesis using same(2) that by blast
qed

subsection \<open>The network that \<open>main\<close> starts\<close>

definition node_at :: "bsn_node list \<Rightarrow> PeerAddr \<Rightarrow> bsn_node" where
  "node_at nodes a = (case filter (\<lambda>n. bn_port n = pa_port a) nodes of [] \<Rightarrow> example_nodes a | n # _ \<Rightarrow> n)"

abbreviation main_addrs :: "bsn_node list \<Rightarrow> PeerAddr set" where
  "main_addrs nodes \<equiv> main_addr (map bn_port nodes) ` {0..<5}"

lemma node_at_nth:
  assumes "distinct (map bn_port nodes)" and "i < length nodes"
  shows "node_at nodes (main_addr (map bn_port nodes) i) = nodes ! i"
proof -
  have "filter (\<lambda>n. bn_port n = bn_port (nodes ! i)) nodes = [nodes ! i]"
    using assms
  proof (induction nodes arbitrary: i)
    case (Cons n nodes)
    show ?case
    proof (cases i)
      case 0
      have "bn_port n \<notin> bn_port ` set nodes" using Cons.prems(1) by simp
      then have "filter (\<lambda>x. bn_port x = bn_port n) nodes = []" by (metis (mono_tags) filter_False image_eqI)
      with 0 show ?thesis by simp
    next
      case (Suc j)
      then have "bn_port n \<noteq> bn_port (nodes ! j)" using Cons.prems by auto
      with Suc Cons show ?thesis by simp
    qed
  qed simp
  then show ?thesis using assms(2) by (simp add: node_at_def main_addr_def)
qed

lemma set_up_fresh:
  assumes "set_up nodes"
  shows "fresh_nodes (main_addrs nodes) (node_at nodes)"
proof -
  have "bn_peers (node_at nodes a) = []" for a
  proof (cases "filter (\<lambda>n. bn_port n = pa_port a) nodes")
    case (Cons n ns)
    then have "n \<in> set nodes" using filter_is_subset [of "\<lambda>n. bn_port n = pa_port a" nodes] by auto
    then show ?thesis using assms Cons by (auto simp: node_at_def set_up_def in_set_conv_nth)
  qed (simp add: node_at_def example_nodes_def)
  moreover have "bn_host (node_at nodes a) = pa_host a \<and> bn_port (node_at nodes a) = pa_port a" if "a \<in> main_addrs nodes" for a
    using that assms by (auto simp: node_at_nth set_up_def) (simp_all add: main_addr_def)
  ultimately show ?thesis by (simp add: fresh_nodes_def)
qed

lemma call_keeps_stores:
  assumes "bsn_RPCAddPeer n (Some c) host port = Inr (ret, ev, n')"
  shows "bn_blockstores n' = bn_blockstores n"
  using assms bsn_RPCAddPeer_known [of n host port "Some c"] bsn_RPCAddPeer_new [of n host port c]
  by (cases "map_of (bn_peers n) (PeerAddr host port)") (auto simp: joined_def)

lemma mesh_run_keeps_stores:
  assumes "mesh_run A m m'"
  shows "bn_blockstores (me_node m' a) = bn_blockstores (me_node m a)"
proof -
  have step: "bn_blockstores (me_node y a) = bn_blockstores (me_node x a)" if "mesh_ask A x y \<or> mesh_deliver x y" for x y
    using that by (auto elim!: mesh_ask.cases mesh_deliver.cases simp: bsn_addPeer_def call_keeps_stores)
  show "bn_blockstores (me_node m' a) = bn_blockstores (me_node m a)"
    using assms unfolding mesh_run_def by (induction rule: rtranclp_induct) (simp_all add: step)
qed

text \<open>
  C18. The daemon builds its network: whenever the random numbers lead to five ports, \<open>main\<close> gets
  through its set-up, also when none of the six directories can be opened, with one timer and one
  listening server per node; and once the \<open>addPeer\<close> calls it makes, and all those they cause, are
  handled in whatever order, each of the five nodes has exactly the other four as its peers and
  exactly its own directories as its stores, each with blocks of 64k.
\<close>

theorem daemon_builds_full_network:
  assumes "main_nodes listen rands = Some nodes0" and "length rands = 5"
  shows "\<exists>ev nodes. daemon_setup P listen rands w = Some (Inr (ev, nodes)) \<and>
    ev = concat (map (\<lambda>n. [(bn_port n, EnqueueTimer), (bn_port n, ServerStart)]) nodes) \<and>
    (\<forall>m i. mesh_run (main_addrs nodes) (mesh_start (node_at nodes)) m \<and>
       me_asked m = set (main_asks (map bn_port nodes)) \<and> me_pending m = [] \<and> i < 5 \<longrightarrow>
       peers_of m (main_addr (map bn_port nodes) i) = main_addr (map bn_port nodes) ` ({0..<5} - {i}) \<and>
       has_stores (me_node m (main_addr (map bn_port nodes) i)) (main_dirs i))"
proof -
  obtain ev nodes where set_up: "daemon_setup P listen rands w = Some (Inr (ev, nodes))" "set_up nodes"
    "ev = concat (map (\<lambda>n. [(bn_port n, EnqueueTimer), (bn_port n, ServerStart)]) nodes)"
    by (rule daemon_set_up [OF assms])
  have five: "length nodes = 5" "distinct (map bn_port nodes)" using set_up(2) by (simp_all add: set_up_def)
  have start: "mesh_reach (main_addrs nodes) (mesh_start (node_at nodes))" by (rule mesh_reach.start [OF set_up_fresh [OF set_up(2)]])
  have "peers_of m (main_addr (map bn_port nodes) i) = main_addr (map bn_port nodes) ` ({0..<5} - {i}) \<and>
      has_stores (me_node m (main_addr (map bn_port nodes) i)) (main_dirs i)"
    if m: "mesh_run (main_addrs nodes) (mesh_start (node_at nodes)) m" "me_asked m = set (main_asks (map bn_port nodes))"
      "me_pending m = []" "i < 5" for m i
  proof
    show "peers_of m (main_addr (map bn_port nodes) i) = main_addr (map bn_port nodes) ` ({0..<5} - {i})"
      by (rule main_connects_all_nodes) (use five m mesh_run_reach [OF m(1) start] in auto)
    have "bn_blockstores (me_node m (main_addr (map bn_port nodes) i)) = bn_blockstores (nodes ! i)"
      using mesh_run_keeps_stores [OF m(1)] node_at_nth [OF five(2)] five(1) m(4) by (simp add: mesh_start_def)
    then show "has_stores (me_node m (main_addr (map bn_port nodes) i)) (main_dirs i)"
      using set_up(2) m(4) by (simp add: set_up_def has_stores_def)
  qed
  with set_up(1,3) show ?thesis by blast
qed

theorem daemon_builds_full_network_witness:
  "\<exists>m. \<exists>nodes :: bsn_node list. me_asked m = set (main_asks (map bn_port nodes)) \<and> me_pending m = [] \<and>
     peers_of m (main_addr (map bn_port nodes) 2) = main_addr (map bn_port nodes) ` ({0..<5} - {2}) \<and>
     has_stores (me_node m (main_addr (map bn_port nodes) 2)) {(0x8899aabb, ''./8899aabb/''), (0xccddeeff, ''./ccddeeff/'')}"
proof -
  let ?rands = "[[80, 1025], [1025, 1026], [3], [4], [65541]]" and ?listen = "\<lambda>p :: u16. p \<noteq> 80"
  have "\<exists>nodes0. main_nodes ?listen ?rands = Some nodes0" by (simp add: Let_def)
  then obtain nodes0 where nodes0: "main_nodes ?listen ?rands = Some nodes0" by blast
  have five: "length ?rands = 5" by simp
  from daemon_builds_full_network [OF nodes0 five, of mem_posix example_world] obtain ev nodes where
    set_up: "daemon_setup mem_posix ?listen ?rands example_world = Some (Inr (ev, nodes))"
    and net: "\<And>m i. mesh_run (main_addrs nodes) (mesh_start (node_at nodes)) m \<and>
       me_asked m = set (main_asks (map bn_port nodes)) \<and> me_pending m = [] \<and> i < 5 \<Longrightarrow>
       peers_of m (main_addr (map bn_port nodes) i) = main_addr (map bn_port nodes) ` ({0..<5} - {i}) \<and>
       has_stores (me_node m (main_addr (map bn_port nodes) i)) (main_dirs i)" by blast
  have ok: "set_up nodes" by (rule daemon_set_up [OF nodes0 five, of mem_posix example_world]) (use set_up in auto)
  let ?asks = "main_asks (map bn_port nodes)" and ?A = "main_addrs nodes" and ?m0 = "mesh_start (node_at nodes)"
  have dist: "distinct (map bn_port nodes)" "length nodes = 5" using ok by (simp_all add: set_up_def)
  have "set ?asks \<subseteq> ?A \<times> ?A" by (auto simp: main_asks_def)
  moreover have "\<forall>x \<in> set ?asks. fst x \<noteq> snd x"
    using dist nth_eq_iff_index_eq [OF dist(1)] by (simp add: main_asks_def main_addr_def)
  ultimately obtain m where m: "mesh_run ?A ?m0 m" "me_asked m = set ?asks"
    using asks_possible [of ?asks ?A ?m0] by (auto simp: mesh_start_def)
  have "mesh_reach ?A m" by (rule mesh_run_reach [OF m(1) mesh_reach.start [OF set_up_fresh [OF ok]]])
  from comes_to_rest [OF _ this] obtain m' where "mesh_run ?A m m'" "me_asked m' = set ?asks" "me_pending m' = []"
    using m(2) by auto
  with m(1) net [of m' 2] mesh_run_trans [OF m(1)]
  have "peers_of m' (main_addr (map bn_port nodes) 2) = main_addr (map bn_port nodes) ` ({0..<5} - {2}) \<and>
      has_stores (me_node m' (main_addr (map bn_port nodes) 2)) (main_dirs 2)" by simp
  moreover have "main_dirs 2 = {(0x8899aabb, ''./8899aabb/''), (0xccddeeff, ''./ccddeeff/'')}"
    by (simp add: main_dirs_def)
  ultimately have "me_asked m' = set ?asks \<and> me_pending m' = [] \<and>
      peers_of m' (main_addr (map bn_port nodes) 2) = main_addr (map bn_port nodes) ` ({0..<5} - {2}) \<and>
      has_stores (me_node m' (main_addr (map bn_port nodes) 2)) {(0x8899aabb, ''./8899aabb/''), (0xccddeeff, ''./ccddeeff/'')}"
    using \<open>me_asked m' = set ?asks\<close> \<open>me_pending m' = []\<close> by simp
  then show ?thesis by blast
qed

end
