(* ===== verification/Fileutil.thy ===== *)
theory Fileutil
  imports Cstring
begin

section \<open>The command line tool (\<open>rpc/fileutil.cc\<close>)\<close>

text \<open>
  \<open>fileutil\<close> sends one command to a server: it fetches a block into a file, uploads a file as a
  block, removes a block or introduces a peer. It is written against an RPC client that is not the
  one of \<open>rpc.h\<close>: the connection and the calls it makes are functions of \<open>fu_env\<close>, \<open>None\<close> where
  the client throws. So are the functions of \<open>stdio.h\<close> it calls, every one with the ways it can fail,
  and whether a vector of a size can be allocated. The environment's state is \<open>'w\<close>.
\<close>

record 'w fu_env =
  fe_connect :: "string \<Rightarrow> u16 \<Rightarrow> 'w \<Rightarrow> 'w" \<comment> \<open>\<open>RPCClient client(TcpSocket::connect(host, port))\<close>\<close>
  fe_get :: "string \<Rightarrow> 'w \<Rightarrow> (bytes \<times> 'w) option" \<comment> \<open>\<open>client.call("get", key)\<close>, and so on\<close>
  fe_put :: "string \<Rightarrow> bytes \<Rightarrow> 'w \<Rightarrow> (bool \<times> 'w) option"
  fe_remove :: "string \<Rightarrow> 'w \<Rightarrow> (bool \<times> 'w) option"
  fe_addpeer :: "string \<Rightarrow> u16 \<Rightarrow> 'w \<Rightarrow> (bool \<times> 'w) option"
  fe_fopen_rb :: "string \<Rightarrow> 'w \<Rightarrow> nat option \<times> 'w" \<comment> \<open>a stream, or a null pointer\<close>
  fe_fopen_wb :: "string \<Rightarrow> 'w \<Rightarrow> nat option \<times> 'w"
  fe_fseek_end :: "nat \<Rightarrow> 'w \<Rightarrow> 'w" \<comment> \<open>the result of \<open>fseek\<close> is not looked at\<close>
  fe_fseek_set :: "nat \<Rightarrow> 'w \<Rightarrow> 'w"
  fe_ftell :: "nat \<Rightarrow> 'w \<Rightarrow> u64 \<times> 'w" \<comment> \<open>a \<open>long\<close>, assigned to a \<open>size_t\<close>: -1 is \<open>2 ^ 64 - 1\<close>\<close>
  fe_fread :: "nat \<Rightarrow> nat \<Rightarrow> 'w \<Rightarrow> bytes \<times> 'w" \<comment> \<open>the bytes it stored\<close>
  fe_fwrite :: "nat \<Rightarrow> bytes \<Rightarrow> 'w \<Rightarrow> nat \<times> 'w" \<comment> \<open>how many bytes it wrote\<close>
  fe_fclose :: "nat \<Rightarrow> 'w \<Rightarrow> 'w"
  fe_memory :: "u64 \<Rightarrow> bool"

datatype fu_output = Usage string | Uploading u64 | Returned bool | UnknownCommand string

text \<open>A read of \<open>argv\<close>, the value of an RPC result, and a stream handed to a function of \<open>stdio.h\<close>.\<close>

definition arg :: "string list \<Rightarrow> nat \<Rightarrow> string res" where
  "arg argv i = (if i < length argv then Inr (argv ! i) else Inl OutOfBounds)"

definition value_of :: "'a option \<Rightarrow> 'a res" where
  "value_of r = (case r of None \<Rightarrow> Inl UncaughtException | Some v \<Rightarrow> Inr v)"

definition stream_of :: "nat option \<Rightarrow> nat res" where
  "stream_of f = (case f of None \<Rightarrow> Inl NullDeref | Some f \<Rightarrow> Inr f)"

text \<open>
  \<open>data.resize(s)\<close> throws when \<open>s\<close> is above \<open>max_size()\<close> or the memory is not there, and \<open>&data[0]\<close> of
  an empty vector dereferences its null pointer.
\<close>

definition resize :: "'w fu_env \<Rightarrow> u64 \<Rightarrow> bytes res" where
  "resize E s = (if 2 ^ 63 \<le> unat s \<or> \<not> fe_memory E s then Inl UncaughtException else Inr (replicate (unat s) 0))"

definition data_ptr :: "bytes \<Rightarrow> unit res" where
  "data_ptr data = (if data = [] then Inl NullDeref else Inr ())"

type_synonym 'w outcome_of_main = "(nat \<times> fu_output list \<times> 'w) res"

definition usage :: "string list \<Rightarrow> 'w \<Rightarrow> 'w outcome_of_main" where
  "usage argv w = rbind (arg argv 0) (\<lambda>prog. Inr (1, [Usage prog], w))"

text \<open>The four commands, after the client was made. What \<open>fread\<close> stores overwrites the vector's zeros.\<close>

definition main_get :: "'w fu_env \<Rightarrow> string list \<Rightarrow> 'w \<Rightarrow> 'w outcome_of_main" where
  "main_get E argv w =
     (if length argv < 6 then usage argv w
      else rbind (arg argv 4) (\<lambda>key. rbind (arg argv 5) (\<lambda>dest.
        rbind (value_of (fe_get E key w)) (\<lambda>(ref, w).
          let (f, w) = fe_fopen_wb E (c_str dest) w in
          rbind (stream_of f) (\<lambda>f.
            let (n, w) = fe_fwrite E f ref w in
            Inr (0, [], fe_fclose E f w))))))"

definition main_put :: "'w fu_env \<Rightarrow> string list \<Rightarrow> 'w \<Rightarrow> 'w outcome_of_main" where
  "main_put E argv w =
     (if length argv < 6 then usage argv w
      else rbind (arg argv 4) (\<lambda>src. rbind (arg argv 5) (\<lambda>key.
        let (f, w) = fe_fopen_rb E (c_str src) w in
        rbind (stream_of f) (\<lambda>f.
          let w = fe_fseek_end E f w; (s, w) = fe_ftell E f w; w = fe_fseek_set E f w in
          rbind (resize E s) (\<lambda>data.
          rbind (data_ptr data) (\<lambda>_.
            let (r, w) = fe_fread E f (unat s) w; data = r @ drop (length r) data; w = fe_fclose E f w in
            rbind (value_of (fe_put E key data w)) (\<lambda>(ret, w).
              Inr (0, [Uploading s, Returned ret], w))))))))"

definition main_remove :: "'w fu_env \<Rightarrow> string list \<Rightarrow> 'w \<Rightarrow> 'w outcome_of_main" where
  "main_remove E argv w =
     (if length argv < 5 then usage argv w
      else rbind (arg argv 4) (\<lambda>key.
        rbind (value_of (fe_remove E key w)) (\<lambda>(ret, w). Inr (0, [Returned ret], w))))"

definition main_addpeer :: "'w fu_env \<Rightarrow> string list \<Rightarrow> 'w \<Rightarrow> 'w outcome_of_main" where
  "main_addpeer E argv w =
     (if length argv < 6 then usage argv w
      else rbind (arg argv 4) (\<lambda>hostb. rbind (arg argv 5) (\<lambda>portb.
        rbind (value_of (fe_addpeer E hostb (ucast (atoi portb)) w)) (\<lambda>(ret, w). Inr (0, [Returned ret], w)))))"

definition fileutil_main :: "'w fu_env \<Rightarrow> string list \<Rightarrow> 'w \<Rightarrow> 'w outcome_of_main" where
  "fileutil_main E argv w =
     (if length argv < 4 then usage argv w
      else rbind (arg argv 1) (\<lambda>host. rbind (arg argv 2) (\<lambda>port. rbind (arg argv 3) (\<lambda>cmd.
        let w = fe_connect E host (ucast (atoi port)) w in
        if cmd = ''get'' then main_get E argv w
        else if cmd = ''put'' then main_put E argv w
        else if cmd = ''remove'' then main_remove E argv w
        else if cmd = ''addpeer'' then main_addpeer E argv w
        else Inr (1, [UnknownCommand (c_str cmd)], w)))))"

subsection \<open>No argument is read that was not given\<close>

lemmas main_defs = fileutil_main_def main_get_def main_put_def main_remove_def main_addpeer_def usage_def

lemma arg_given [simp]: "i < length argv \<Longrightarrow> arg argv i = Inr (argv ! i)"
  by (simp add: arg_def)

lemma other_errors: "value_of r \<noteq> Inl OutOfBounds" "stream_of f \<noteq> Inl OutOfBounds" "resize E s \<noteq> Inl OutOfBounds"
  "data_ptr data \<noteq> Inl OutOfBounds"
  by (auto simp: value_of_def stream_of_def resize_def data_ptr_def split: option.splits)

lemma main_errors:
  assumes "argv \<noteq> []"
  shows "fileutil_main E argv w \<noteq> Inl OutOfBounds"
proof (cases "length argv < 4")
  case True
  then show ?thesis using assms by (simp add: main_defs)
next
  case False
  let ?w = "fe_connect E (argv ! 1) (ucast (atoi (argv ! 2))) w"
  have "usage argv ?w \<noteq> Inl OutOfBounds" using assms by (simp add: usage_def)
  moreover have "main_get E argv ?w \<noteq> Inl OutOfBounds"
    using assms by (auto simp: main_get_def usage_def other_errors rbind_Inl_iff Let_def split: prod.splits)
  moreover have "main_put E argv ?w \<noteq> Inl OutOfBounds"
    using assms by (auto simp: main_put_def usage_def other_errors rbind_Inl_iff Let_def split: prod.splits)
  moreover have "main_remove E argv ?w \<noteq> Inl OutOfBounds"
    using assms by (auto simp: main_remove_def usage_def other_errors rbind_Inl_iff)
  moreover have "main_addpeer E argv ?w \<noteq> Inl OutOfBounds"
    using assms by (auto simp: main_addpeer_def usage_def other_errors rbind_Inl_iff)
  ultimately show ?thesis using False by (simp add: fileutil_main_def Let_def)
qed

text \<open>A file that cannot be opened is used as a null pointer, after the block was fetched already.\<close>

lemma unwritable_file_crashes:
  assumes "fe_get E key (fe_connect E host (ucast (atoi port)) w) = Some (data, w1)" and "fe_fopen_wb E (c_str dest) w1 = (None, w2)"
  shows "fileutil_main E [prog, host, port, ''get'', key, dest] w = Inl NullDeref"
  using assms by (simp add: fileutil_main_def main_get_def value_of_def stream_of_def)

lemma unreadable_file_crashes:
  assumes "fe_fopen_rb E (c_str src) (fe_connect E host (ucast (atoi port)) w) = (None, w1)"
  shows "fileutil_main E [prog, host, port, ''put'', src, key] w = Inl NullDeref"
  using assms by (simp add: fileutil_main_def main_put_def stream_of_def)

subsection \<open>Reading a file\<close>







end
