(* ===== verification/Spec2Isabelle.thy ===== *)
theory Spec2Isabelle
  imports Lrucache Url Service_Mesh Service_Object Store_Service Rpc_Benchmark Service_Race Service_Loss Blockstore_Main Fileutil
begin

text \<open>
  \<^bold>\<open>rawdishfs: a verification development\<close>

  rawdishfs is the beginning of a distributed file system in C++: blocks of data are kept as files
  by block stores, block stores are offered to other machines by remote procedure calls, and nodes
  find each other and form a network. This development models the program's own code as HOL
  functions and proves what makes each part correct. All paths below are under \<open>src/src/\<close>.

  \<^bold>\<open>The parts and how they interact.\<close>
  A \<open>FileBlockStore\<close> (\<open>blockstore/fileblockstore\<close>) stores blocks in a directory and summarises its
  names in a \<open>BloomFilter\<close> (\<open>util/bloomfilter\<close>). \<open>RegisterRemoteBlockStore\<close> registers a store's
  methods with an \<open>RPCServer\<close>, and a \<open>RemoteBlockStore\<close> (\<open>blockstore/remoteblockstore.h\<close>) calls
  them through an \<open>RPCClient\<close> (\<open>rpc/rpc\<close>); both implement the interface \<open>blockstore/blockstore.h\<close>.
  \<open>BlockStoreNode\<close> (\<open>blockstore/blockstore_daemon\<close>) holds local and remote stores and keeps a full
  mesh of peers; \<open>ServiceNode\<close> (\<open>rpc/service_node\<close>) is a mesh that replicates a directory of groups.
  \<open>LRUCache\<close> and \<open>URL\<close> (\<open>util\<close>) are independent utilities.

  \<^bold>\<open>Conventions.\<close>
  Machine integers are words of their width. What C++ leaves undefined, and every exception, is a
  value of \<open>cerror\<close>; an operation that can meet one returns \<open>'a res\<close>. Objects are records, operations
  take the object and return it updated; what an operation asks of a socket, an event manager, a
  future or a callback is a list of events it returns, in order. Code outside the repository is an
  argument with a contract stated as a locale: the system calls (\<open>posix_dir\<close>) and the msgpack
  encoding (\<open>msgpack\<close>); each contract has a concrete instance (\<open>mem_posix\<close>, \<open>unary\<close>,
  \<open>store_codec\<close>), over which the examples that accompany the theorems are evaluated.

  \<^bold>\<open>Theories.\<close>
  \<^item> \<open>Prelude\<close>: machine types, errors, raw buffers, little-endian fields, C strings.
  \<^item> \<open>Interfaces\<close>: the contracts between components: approximate sets, heap algorithms, ordered
    maps, message framing, and \<open>pump\<close>, the receive loop of \<open>rpc.cc\<close>.
  \<^item> \<open>Std_Map\<close>, \<open>Std_Heap\<close>, \<open>Cstring\<close>: what is used of \<open>std::map\<close>, of libstdc++'s heap
    algorithms, and of the C string and number functions.
  \<^item> \<open>Bloomfilter\<close>: \<open>util/bloomfilter.cc\<close>, every method. No false negatives, serialization
    round trip, the hash is FNV-1a, behaviour on malformed images, two memory errors.
  \<^item> \<open>Lrucache\<close>: \<open>util/lrucache.h\<close> over an explicit store of objects. Memory safety of every run,
    eviction of the least recently used entry from an ordered cache, effects of \<open>get\<close>, \<open>put\<close> and
    \<open>invalidate\<close>, and how a \<open>put\<close> on a present key makes a later one evict that very entry.
  \<^item> \<open>Url\<close>: \<open>util/url.h\<close>, parsing, printing, their round trips, copies.
  \<^item> \<open>Service_Node\<close>: \<open>rpc/service_node.{h,cc}\<close>. In every run what callbacks were told
    is the membership, but for names that were removed while they were not listed, which the code then
    lists without telling anyone; replicas stay equal, and a removal keeps them equal exactly when the
    name was listed; a name counted twice or more stays for ever; joining shares everything; runs are
    safe.
  \<^item> \<open>Discovery\<close>: nodes that introduce their peers to each other, abstractly: who is told of whom, the
    invariant, and that discovery ends with the connected nodes knowing each other. \<open>Service_Mesh\<close>
    (a network of \<open>ServiceNode\<close>s) and \<open>Blockstore_Mesh\<close> refine it. \<open>Service_Mesh\<close> adds the directory:
    at rest a name added anywhere is a member at every connected node.
  \<^item> \<open>Service_Loss\<close>: the network of \<open>ServiceNode\<close>s when connections break and calls are lost. At rest a
    node still lists what was added at it and at every node that has it as a peer, and nothing that
    was not added at a node it was connected with. What a node learnt from a peer it keeps when it
    loses the peer, although \<open>service_node.h\<close> says it is removed (\<open>lost_peer_stays_listed\<close>).
  \<^item> \<open>Service_Race\<close>: \<open>RPCAddPeer\<close> of \<open>ServiceNode\<close> in two steps, the look-up before the mutex and the
    rest, interleaved with everything else. The peer map holds live clients of the right address;
    it can miss one only when two calls for one address overlap, and then it may.
  \<^item> \<open>Posix\<close>, \<open>Fileblockstore\<close>: the system calls and \<open>blockstore/fileblockstore.{h,cc}\<close>. The
    filter never hides a block whose name does not start with a dot while \<open>opendir\<close> succeeds (when it
    fails the filter is emptied, and names with a dot drop out of it), put and get are inverse, removal,
    iteration, failed puts.
  \<^item> \<open>Blockstore\<close>: the interface as a contract (\<open>block_store\<close>); \<open>FileBlockStore\<close> keeps it over
    every file system that keeps \<open>posix_dir\<close>.
  \<^item> \<open>Rpc\<close>: \<open>rpc/rpc.{h,cc}\<close>, client, server and connection. \<open>Unary_Codec\<close>: encodings that
    meet the contract.
  \<^item> \<open>Rpc_System\<close>, \<open>Rpc_Correct\<close>: a client and a connection with two byte streams, worker tasks
    and functions that answer at any time, as a step relation with its invariant. Every call is
    answered once, by the answer to it; the system comes to rest; the requests a connection dispatches
    do not depend on how the bytes were cut into reads; \<open>disconnect\<close> settles all calls.
  \<^item> \<open>Rpc_Service\<close>, \<open>Rpc_Workers\<close>: any number of clients of one server whose functions share a state.
    In \<open>Rpc_Service\<close> a function is one step. In \<open>Rpc_Workers\<close> a worker reads the state when it begins
    a function and writes it when it ends, and up to \<open>N\<close> functions are open at a time. With
    \<open>N = 1\<close> this refines \<open>Rpc_Service\<close>: the state is that of the executions one after the other, at
    rest every call made was executed exactly once, and the order respects which call returned before
    which was made. With \<open>N = 2\<close> an update can be lost (\<open>two_workers_lose_an_update\<close>).
  \<^item> \<open>Rpc_Benchmark\<close>: \<open>rpc/rpc_benchmark.cc\<close> on top of it, with the port search and the tear-down. The
    calls of the clients are those \<open>StartRPCs\<close> makes; a callback signals and increments in two steps.
    All checks hold, tearing a client down aborts no call, and the count is right once all
    increments are done, which the test does not wait for.
  \<^item> \<open>Service_Object\<close>: the class \<open>ServiceNode\<close> around its internal object, as an RPC server. A call
    on a peer reaches its handler; concurrent additions are each counted once.
  \<^item> \<open>Rpc_Exchange\<close>, \<open>Remoteblockstore\<close>: one call from end to end, and \<open>remoteblockstore.h\<close> on
    top: the proxy refines the store behind it, error for error, and so keeps \<open>block_store\<close>. \<open>Store_Service\<close>: many
    proxies of one store: types agree, and while the server runs one function at a time a block put
    through one is seen through all.
  \<^item> \<open>Blockstore_Daemon\<close>, \<open>Blockstore_Mesh\<close>, \<open>Blockstore_Main\<close>: \<open>blockstore_daemon.{h,cc}\<close>, one
    node, the network of nodes and \<open>main\<close>. Reachable nodes are safe; peer discovery ends in the full
    mesh; \<open>main\<close> gets through its set-up and its five nodes end up fully connected, each with its own
    stores; \<open>stop\<close> returns in nodes that were started.
  \<^item> \<open>Fileutil\<close>: \<open>rpc/fileutil.cc\<close>, over an RPC client and functions of \<open>stdio.h\<close> that are arguments
    and can fail: no argument is read that was not given, and \<open>put\<close> uploads the bytes of the file as far
    as \<open>fread\<close> delivers them. What the server does with them is not known here.

  \<^bold>\<open>Bounds and fuel.\<close>
  \<open>pump\<close> gets as fuel the number of bytes in the buffer; a message has at least one byte, so it is
  never short (\<open>framing.pump_stream\<close>). The search for a port takes the values of \<open>rand()\<close> as a
  list. The theorems about \<open>ServiceNode\<close> allow fewer than \<open>2^31 - 1\<close> operations, the width of a
  reference count, and those about RPC at most \<open>2^64\<close> calls of one client, the width of a request
  number. All other recursions are structural or have a measure.

  \<^bold>\<open>Not modelled.\<close>
  The unit tests; the endless sleep of the daemon's \<open>main\<close>, and the calls after it, which are never
  reached; logging; destruction of objects that only frees memory. Locks appear as the extent of a
  step: every method of \<open>ServiceNode\<close> is one step, as its mutex makes it, and the part of \<open>RPCAddPeer\<close>
  before the mutex is a step of its own in \<open>Service_Race\<close>. The daemon and \<open>FileBlockStore\<close> have no
  lock; every handler of the daemon (\<open>bsn_RPCAddPeer\<close> too) is one step, although \<open>main\<close> calls \<open>addPeer\<close>
  beside five workers: what unsynchronised threads do to a \<open>std::map\<close> is undefined, and no theorem
  speaks of it. \<open>Rpc_Workers\<close> says which theorems about a store need one function at a time. Of the file
  system \<open>posix_dir\<close> assumes no short reads and exact \<open>d_type\<close>. The networks of \<open>Service_Mesh\<close> and \<open>Service_Loss\<close> remove no names, and connections of the
  daemon's network are not lost. Futures, sockets and the thread pool belong to another library
  and appear as events. The RPC client of \<open>fileutil\<close> is not that of \<open>rpc.h\<close> and is an argument.

  \<^bold>\<open>What could follow.\<close>
  Removal of names in the network of \<open>ServiceNode\<close>s, where the counts of two nodes can differ, and
  lost connections in the daemon's network.
\<close>

end
